(* ===== verification/Prelude.thy ===== *)
theory Prelude
  imports Complex_Main "HOL-Library.Word" "HOL-Library.Monad_Syntax"
begin

text \<open>
  The shared base of the development: C strings and the string functions of the C
  library the program calls, decimal printing, allocation outcomes, and the generic
  lemmas about them.

  A C string is a \<open>string\<close> (a list of bytes) without its terminating NUL; a pointer that
  may be \<open>NULL\<close> is a \<open>string option\<close>. A byte buffer that may hold a NUL (a file, a line
  read by \<open>fgets\<close>) becomes a C string through \<open>cstr\<close>. A pointer into a string
  returned by \<open>strchr\<close> or \<open>strstr\<close> is the suffix that starts there.
\<close>

named_theorems cstr_defs \<open>definitions of the C string functions, for evaluation\<close>

section \<open>C strings\<close>

type_synonym cptr = "string option"

abbreviation NUL :: char where
  "NUL \<equiv> CHR 0x00"

abbreviation NL :: char where
  "NL \<equiv> CHR 0x0A"

abbreviation CR :: char where
  "CR \<equiv> CHR 0x0D"

abbreviation TAB :: char where
  "TAB \<equiv> CHR 0x09"

abbreviation DQ :: char where
  "DQ \<equiv> CHR 0x22"

abbreviation BSL :: char where
  "BSL \<equiv> CHR 0x5C"

definition cstr :: "string \<Rightarrow> string" where
  [cstr_defs]: "cstr s = takeWhile (\<lambda>c. c \<noteq> NUL) s"

definition strchr :: "string \<Rightarrow> char \<Rightarrow> string option" where
  [cstr_defs]: "strchr s c = (case dropWhile (\<lambda>x. x \<noteq> c) s of [] \<Rightarrow> None | x # t \<Rightarrow> Some (x # t))"

fun strstr :: "string \<Rightarrow> string \<Rightarrow> string option" where
  "strstr [] key = (if key = [] then Some [] else None)"
| "strstr (c # s) key =
     (if take (length key) (c # s) = key then Some (c # s) else strstr s key)"

definition strrchr_split :: "string \<Rightarrow> char \<Rightarrow> (string \<times> string) option" where
  \<comment> \<open>\<open>strrchr\<close>: the text before the last \<open>c\<close> and the text after it\<close>
  [cstr_defs]: "strrchr_split s c =
     (case dropWhile (\<lambda>x. x \<noteq> c) (rev s) of
        [] \<Rightarrow> None
      | _ # t \<Rightarrow> Some (rev t, rev (takeWhile (\<lambda>x. x \<noteq> c) (rev s))))"

definition starts_with :: "string \<Rightarrow> string \<Rightarrow> bool" where
  \<comment> \<open>\<open>strncmp(s, lit, strlen(lit)) == 0\<close>\<close>
  [cstr_defs]: "starts_with s lit \<longleftrightarrow> take (length lit) s = lit"

definition snprintf_buf :: "nat \<Rightarrow> string \<Rightarrow> string" where
  \<comment> \<open>what \<open>snprintf\<close> leaves in a buffer of \<open>n > 0\<close> bytes; its return value is
     the length of the untruncated text\<close>
  [cstr_defs]: "snprintf_buf n s = take (n - 1) s"

definition fmt_s :: "cptr \<Rightarrow> string" where
  \<comment> \<open>the \<open>%s\<close> conversion (glibc prints a null pointer as \<open>(null)\<close>)\<close>
  [cstr_defs]: "fmt_s p = (case p of None \<Rightarrow> ''(null)'' | Some s \<Rightarrow> s)"

section \<open>Character classes of the C locale\<close>

abbreviation chr_nat :: "char \<Rightarrow> nat" where
  "chr_nat c \<equiv> of_char c"

definition isdigit :: "char \<Rightarrow> bool" where
  [cstr_defs]: "isdigit c \<longleftrightarrow> 48 \<le> chr_nat c \<and> chr_nat c \<le> 57"

definition isspace :: "char \<Rightarrow> bool" where
  [cstr_defs]: "isspace c \<longleftrightarrow> chr_nat c = 32 \<or> (9 \<le> chr_nat c \<and> chr_nat c \<le> 13)"

definition digit_val :: "char \<Rightarrow> nat" where
  [cstr_defs]: "digit_val c = chr_nat c - 48"

definition hex_val :: "char \<Rightarrow> nat option" where
  [cstr_defs]: "hex_val c =
     (if 48 \<le> chr_nat c \<and> chr_nat c \<le> 57 then Some (chr_nat c - 48)
      else if 97 \<le> chr_nat c \<and> chr_nat c \<le> 102 then Some (chr_nat c - 87)
      else if 65 \<le> chr_nat c \<and> chr_nat c \<le> 70 then Some (chr_nat c - 55)
      else None)"

section \<open>Decimal text\<close>

definition digit_char :: "nat \<Rightarrow> char" where
  [cstr_defs]: "digit_char d = ''0123456789'' ! (d mod 10)"

fun show_nat :: "nat \<Rightarrow> string" where
  "show_nat n =
     (if n < 10 then [digit_char n] else show_nat (n div 10) @ [digit_char n])"

declare show_nat.simps [simp del]

text \<open>Recursive equations with a guard are kept as conditional rules for evaluation.\<close>

lemma show_nat_rec [cstr_defs]:
  "n < 10 \<Longrightarrow> show_nat n = [digit_char n]"
  "10 \<le> n \<Longrightarrow> show_nat n = show_nat (n div 10) @ [digit_char n]"
  by (subst show_nat.simps, simp)+

definition show_int :: "int \<Rightarrow> string" where
  [cstr_defs]: "show_int i = (if i < 0 then ''-'' @ show_nat (nat (- i)) else show_nat (nat i))"

definition digits_val :: "nat \<Rightarrow> string \<Rightarrow> nat" where
  \<comment> \<open>the value of a digit string in base \<open>b\<close>\<close>
  [cstr_defs]: "digits_val b s = foldl (\<lambda>a c. b * a + (case hex_val c of None \<Rightarrow> 0 | Some v \<Rightarrow> v)) 0 s"

lemma less_10_cases:
  "(d::nat) < 10 \<Longrightarrow> d \<in> {0,1,2,3,4,5,6,7,8,9}"
  by auto

lemma digit_char_props:
  "isdigit (digit_char d) \<and> \<not> isspace (digit_char d) \<and> hex_val (digit_char d) = Some (d mod 10)"
proof -
  have "d mod 10 \<in> {0,1,2,3,4,5,6,7,8,9}" by (rule less_10_cases) simp
  then show ?thesis
    by (auto simp: isdigit_def isspace_def hex_val_def digit_char_def)
qed

lemma isdigit_digit_char [simp]: "isdigit (digit_char d)"
  and hex_val_digit_char [simp]: "hex_val (digit_char d) = Some (d mod 10)"
  using digit_char_props by blast+

lemma show_nat_isdigit: "c \<in> set (show_nat n) \<Longrightarrow> isdigit c"
  by (induction n rule: show_nat.induct) (subst (asm) (2) show_nat.simps, auto split: if_splits)

lemma show_nat_nonempty [simp]: "show_nat n \<noteq> []"
  by (subst show_nat.simps) simp

lemma digits_val_append1 [simp]:
  "digits_val b (s @ [c]) = b * digits_val b s + (case hex_val c of None \<Rightarrow> 0 | Some v \<Rightarrow> v)"
  by (simp add: digits_val_def)

lemma digits_val_show_nat [simp]: "digits_val 10 (show_nat n) = n"
proof (induction n rule: show_nat.induct)
  case (1 n)
  show ?case
  proof (cases "n < 10")
    case True
    then show ?thesis
      using digits_val_append1 [of 10 "[]" "digit_char n"]
      by (simp add: show_nat.simps [of n] digits_val_def)
  next
    case False
    with 1 show ?thesis by (simp add: show_nat.simps [of n])
  qed
qed

lemma show_nat_inj: "show_nat a = show_nat b \<Longrightarrow> a = b"
  by (metis digits_val_show_nat)

lemma length_show_nat: "n < 10 ^ k \<Longrightarrow> 0 < k \<Longrightarrow> length (show_nat n) \<le> k"
proof (induction k arbitrary: n)
  case 0
  then show ?case by simp
next
  case (Suc k)
  show ?case
  proof (cases "n < 10")
    case True
    then show ?thesis by (simp add: show_nat.simps [of n])
  next
    case False
    with Suc.prems have "0 < k" by (cases k) auto
    moreover have "n div 10 < 10 ^ k" using Suc.prems by (simp add: less_mult_imp_div_less)
    ultimately have "length (show_nat (n div 10)) \<le> k" by (intro Suc.IH)
    with False show ?thesis by (simp add: show_nat.simps [of n])
  qed
qed

section \<open>Facts about the string functions\<close>

lemma NUL_notin_cstr [simp]: "NUL \<notin> set (cstr s)"
  by (auto simp: cstr_def dest: set_takeWhileD)

lemma cstr_id: "NUL \<notin> set s \<Longrightarrow> cstr s = s"
  by (auto simp: cstr_def takeWhile_eq_all_conv)

lemma length_cstr_le: "length (cstr s) \<le> length s"
  by (simp add: cstr_def length_takeWhile_le)

lemma dropWhile_neq_ConsD:
  "dropWhile (\<lambda>x. x \<noteq> c) s = x # t \<Longrightarrow>
     x = c \<and> s = takeWhile (\<lambda>x. x \<noteq> c) s @ c # t \<and> c \<in> set s"
  by (induction s) (auto split: if_splits)

lemma notin_takeWhile_neq: "c \<notin> set (takeWhile (\<lambda>x. x \<noteq> c) s)"
  by (induction s) auto

lemma strchr_None_iff: "strchr s c = None \<longleftrightarrow> c \<notin> set s"
  by (auto simp: strchr_def dropWhile_eq_Nil_conv split: list.splits dest: dropWhile_neq_ConsD)

lemma strchr_SomeD:
  assumes "strchr s c = Some t"
  obtains pre u where "s = pre @ c # u" "t = c # u" "c \<notin> set pre"
proof -
  obtain x u where d: "dropWhile (\<lambda>x. x \<noteq> c) s = x # u" and t: "t = x # u"
    using assms by (cases "dropWhile (\<lambda>x. x \<noteq> c) s") (auto simp: strchr_def)
  from dropWhile_neq_ConsD [OF d] have "x = c" by simp
  with d t show thesis
    using that [of "takeWhile (\<lambda>x. x \<noteq> c) s" u] dropWhile_neq_ConsD [of c s c u]
    by (simp add: notin_takeWhile_neq)
qed

lemma strchr_append: "c \<notin> set pre \<Longrightarrow> strchr (pre @ c # u) c = Some (c # u)"
proof -
  assume "c \<notin> set pre"
  then have "dropWhile (\<lambda>x. x \<noteq> c) (pre @ c # u) = c # u"
    by (subst dropWhile_append2) auto
  then show ?thesis by (simp add: strchr_def)
qed

lemma split_at_inj:
  assumes "a @ c # x = b @ c # y" "c \<notin> set a" "c \<notin> set b"
  shows "a = b \<and> x = y"
proof -
  have "takeWhile (\<lambda>z. z \<noteq> c) (a @ c # x) = a" "takeWhile (\<lambda>z. z \<noteq> c) (b @ c # y) = b"
    using assms(2,3) by (auto simp: takeWhile_append)
  with assms(1) show ?thesis by auto
qed

lemma strrchr_split_None_iff: "strrchr_split s c = None \<longleftrightarrow> c \<notin> set s"
  by (auto simp: strrchr_split_def dropWhile_eq_Nil_conv split: list.splits
    dest: dropWhile_neq_ConsD)

lemma strrchr_split_SomeD:
  assumes "strrchr_split s c = Some (a, b)"
  shows "s = a @ c # b" "c \<notin> set b"
proof -
  let ?tw = "takeWhile (\<lambda>x. x \<noteq> c) (rev s)"
  obtain x t where xt: "dropWhile (\<lambda>x. x \<noteq> c) (rev s) = x # t" "a = rev t" "b = rev ?tw"
    using assms by (auto simp: strrchr_split_def split: list.splits)
  then have "rev s = ?tw @ c # t" by (blast dest: dropWhile_neq_ConsD)
  then have "rev (rev s) = rev (?tw @ c # t)" by (rule arg_cong)
  then show "s = a @ c # b" using xt(2,3) by simp
  show "c \<notin> set b" using xt(3) by (simp add: notin_takeWhile_neq)
qed

lemma strrchr_split_append: "c \<notin> set b \<Longrightarrow> strrchr_split (a @ c # b) c = Some (a, b)"
proof -
  assume c: "c \<notin> set b"
  then have "dropWhile (\<lambda>x. x \<noteq> c) (rev b @ c # rev a) = c # rev a"
    "takeWhile (\<lambda>x. x \<noteq> c) (rev b @ c # rev a) = rev b"
    by (subst dropWhile_append2 takeWhile_append2; auto)+
  then show ?thesis by (simp add: strrchr_split_def)
qed

lemma strstr_SomeD: "strstr s key = Some t \<Longrightarrow> \<exists>pre u. s = pre @ t \<and> t = key @ u"
proof (induction s)
  case Nil
  then show ?case by (auto split: if_splits)
next
  case (Cons c s)
  show ?case
  proof (cases "take (length key) (c # s) = key")
    case True
    with Cons.prems have "t = c # s" by simp
    then show ?thesis using True by (metis append_Nil append_take_drop_id)
  next
    case False
    with Cons obtain pre u where "s = pre @ t" "t = key @ u" by auto
    then show ?thesis by (metis append_Cons)
  qed
qed

lemma length_snprintf_buf: "0 < n \<Longrightarrow> length (snprintf_buf n s) < n"
  by (simp add: snprintf_buf_def)

lemma snprintf_buf_fits: "length s < n \<Longrightarrow> snprintf_buf n s = s"
  by (simp add: snprintf_buf_def)

section \<open>First occurrences\<close>

text \<open>The distinct elements of a list in the order of their first occurrence.\<close>

definition firsts :: "'a list \<Rightarrow> 'a list" where
  "firsts xs = fold (\<lambda>x acc. if x \<in> set acc then acc else acc @ [x]) xs []"

lemma firsts_snoc [simp]: "firsts (xs @ [x]) = (if x \<in> set (firsts xs) then firsts xs else firsts xs @ [x])"
  by (simp add: firsts_def)

lemma set_firsts [simp]: "set (firsts xs) = set xs"
  by (induction xs rule: rev_induct) (simp add: firsts_def, auto)

lemma distinct_firsts [simp]: "distinct (firsts xs)"
  by (induction xs rule: rev_induct) (simp add: firsts_def, auto)

lemma firsts_Cons: "firsts (x # xs) = x # firsts (filter (\<lambda>y. y \<noteq> x) xs)"
proof (induction xs rule: rev_induct)
  case Nil
  show ?case by (simp add: firsts_def)
next
  case (snoc y xs)
  have "firsts (x # xs @ [y]) = (if y \<in> set (x # xs) then firsts (x # xs) else firsts (x # xs) @ [y])"
    using firsts_snoc [of "x # xs" y] by simp
  with snoc.IH show ?case by (cases "y = x") simp_all
qed

section \<open>Allocation outcomes\<close>

text \<open>
  Whether \<open>malloc\<close>, \<open>calloc\<close> or \<open>realloc\<close> succeeds is decided by the machine. The outcomes
  of the calls to come are a script of booleans, consumed one per call; when the script
  is exhausted every further allocation succeeds. Every finite run makes finitely many
  allocations, so quantifying over scripts covers every behaviour of the allocator.
\<close>

type_synonym mem = "bool list"

fun alloc :: "mem \<Rightarrow> bool \<times> mem" where
  "alloc [] = (True, [])"
| "alloc (b # bs) = (b, bs)"

definition mem_ok :: "mem \<Rightarrow> bool" where
  \<comment> \<open>no allocation of the script fails\<close>
  "mem_ok h \<longleftrightarrow> False \<notin> set h"

lemma alloc_ok: "mem_ok h \<Longrightarrow> alloc h = (b, h') \<Longrightarrow> b \<and> mem_ok h'"
  by (cases h) (auto simp: mem_ok_def)

lemma mem_ok_Nil [simp]: "mem_ok []"
  by (simp add: mem_ok_def)

end
