(* ===== verification/Double.thy ===== *)
theory Double
  imports Prelude
begin

text \<open>
  The C type \<open>double\<close> as IEEE 754 binary64 with the default rounding mode
  (to nearest, ties to even): conversion from integers, multiplication and division, each
  the exact rational result rounded once. A finite value is a sign, a significand below
  \<open>2^53\<close> and an exponent between \<open>-1074\<close> and \<open>971\<close>. The lemmas at the end are what the
  components use: rounding never crosses a representable number, so integers of at most
  53 bits and their exact products are kept, and a quotient stays below a representable
  bound.
\<close>

named_theorems double_defs \<open>definitions that evaluate operations on doubles\<close>

section \<open>Representation and rounding\<close>

fun nbits :: "nat \<Rightarrow> nat" where
  "nbits n = (if n = 0 then 0 else Suc (nbits (n div 2)))"

declare nbits.simps [simp del]

lemma nbits_rec [double_defs]:
  "nbits 0 = 0"
  "0 < n \<Longrightarrow> nbits n = Suc (nbits (n div 2))"
  by (subst nbits.simps, simp)+

lemma nbits_bounds: "0 < n \<Longrightarrow> 2 ^ (nbits n - 1) \<le> n \<and> n < 2 ^ nbits n \<and> 0 < nbits n"
proof (induction n rule: nbits.induct)
  case (1 n)
  show ?case
  proof (cases "n = 1")
    case True
    then show ?thesis by (simp add: nbits.simps)
  next
    case False
    with 1 have pos: "0 < n div 2" by auto
    with 1 have ih: "2 ^ (nbits (n div 2) - 1) \<le> n div 2" "n div 2 < 2 ^ nbits (n div 2)"
      "0 < nbits (n div 2)" by auto
    have nb: "nbits n = Suc (nbits (n div 2))" using 1 by (simp add: nbits.simps [of n])
    have "2 ^ nbits (n div 2) = (2::nat) * 2 ^ (nbits (n div 2) - 1)"
      using ih(3) by (metis Suc_diff_1 power_Suc)
    moreover have "2 * (n div 2) \<le> n" "n < 2 * (n div 2) + 2" by auto
    ultimately have "2 ^ nbits (n div 2) \<le> n" "n < 2 * 2 ^ nbits (n div 2)"
      using ih(1,2) by linarith+
    then show ?thesis using nb by simp
  qed
qed

datatype double = Finite bool nat int | Infinite bool | NaN bool

definition round_half_even :: "nat \<Rightarrow> nat \<Rightarrow> nat" where
  [double_defs]: "round_half_even n d =
     (let q = n div d; r = n mod d in if d < 2 * r \<or> (2 * r = d \<and> odd q) then q + 1 else q)"

definition round_exp :: "nat \<Rightarrow> nat \<Rightarrow> int" where
  [double_defs]: "round_exp n d =
     (let e = int (nbits n) - int (nbits d) - 53
      in max (- 1074) (if n * 2 ^ nat (- e) < 2 ^ 53 * (d * 2 ^ nat e) then e else e + 1))"

definition mk_finite :: "bool \<Rightarrow> nat \<Rightarrow> int \<Rightarrow> double" where
  [double_defs]: "mk_finite s m e = (if 971 < e then Infinite s else Finite s m e)"

definition round_ratio :: "bool \<Rightarrow> nat \<Rightarrow> nat \<Rightarrow> double" where
  [double_defs]: "round_ratio s n d =
     (if n = 0 then Finite s 0 (- 1074)
      else let e = round_exp n d;
               q = round_half_even (n * 2 ^ nat (- e)) (d * 2 ^ nat e)
           in if q = 2 ^ 53 then mk_finite s (2 ^ 52) (e + 1) else mk_finite s q e)"

definition double_of_int :: "int \<Rightarrow> double" where
  [double_defs]: "double_of_int i = round_ratio (i < 0) (nat \<bar>i\<bar>) 1"

fun dmul :: "double \<Rightarrow> double \<Rightarrow> double" where
  "dmul (Finite s m e) (Finite t n f) =
     round_ratio (s \<noteq> t) (m * n * 2 ^ nat (e + f)) (2 ^ nat (- (e + f)))"
| "dmul (NaN s) y = NaN s"
| "dmul x (NaN t) = NaN t"
| "dmul (Infinite s) (Infinite t) = Infinite (s \<noteq> t)"
| "dmul (Infinite s) (Finite t n f) = (if n = 0 then NaN True else Infinite (s \<noteq> t))"
| "dmul (Finite s m e) (Infinite t) = (if m = 0 then NaN True else Infinite (s \<noteq> t))"

fun ddiv :: "double \<Rightarrow> double \<Rightarrow> double" where
  "ddiv (Finite s m e) (Finite t n f) =
     (if n = 0 then (if m = 0 then NaN True else Infinite (s \<noteq> t))
      else round_ratio (s \<noteq> t) (m * 2 ^ nat (e - f)) (n * 2 ^ nat (f - e)))"
| "ddiv (NaN s) y = NaN s"
| "ddiv x (NaN t) = NaN t"
| "ddiv (Infinite s) (Infinite t) = NaN True"
| "ddiv (Infinite s) (Finite t n f) = Infinite (s \<noteq> t)"
| "ddiv (Finite s m e) (Infinite t) = Finite (s \<noteq> t) 0 (- 1074)"

definition dfloor :: "double \<Rightarrow> int" where
  \<comment> \<open>\<open>(long) floor(x)\<close>\<close>
  [double_defs]: "dfloor x =
     (case x of Finite s m e \<Rightarrow>
        (let v = (if s then - int m else int m) in v * 2 ^ nat e div 2 ^ nat (- e)) | _ \<Rightarrow> 0)"

definition dceil :: "double \<Rightarrow> int" where
  \<comment> \<open>\<open>(long) ceil(x)\<close>\<close>
  [double_defs]: "dceil x =
     (case x of Finite s m e \<Rightarrow>
        (let v = (if s then - int m else int m) in - ((- v) * 2 ^ nat e div 2 ^ nat (- e))) | _ \<Rightarrow> 0)"

definition dval :: "double \<Rightarrow> real" where
  "dval x = (case x of Finite s m e \<Rightarrow> (if s then -1 else 1) * real m * 2 powi e | _ \<Rightarrow> 0)"

fun isfinite :: "double \<Rightarrow> bool" where
  "isfinite (Finite s m e) = True"
| "isfinite _ = False"

lemma round_half_even_le: "0 < d \<Longrightarrow> n \<le> c * d \<Longrightarrow> round_half_even n d \<le> c"
proof -
  assume d: "0 < d" and le: "n \<le> c * d"
  show ?thesis
  proof (cases "n = c * d")
    case True
    with d show ?thesis by (simp add: round_half_even_def)
  next
    case False
    with le d have "n div d < c" by (simp add: less_mult_imp_div_less)
    then show ?thesis by (simp add: round_half_even_def Let_def)
  qed
qed

lemma round_half_even_ge: "0 < d \<Longrightarrow> c * d \<le> n \<Longrightarrow> c \<le> round_half_even n d"
  by (auto simp: round_half_even_def Let_def less_eq_div_iff_mult_less_eq intro: le_SucI)

lemma scaled_ratio:
  "0 < d \<Longrightarrow> real (n * 2 ^ nat (- e)) / real (d * 2 ^ nat e) = real n / real d * 2 powi (- e)"
  by (cases "0 \<le> e") (auto simp: power_int_def field_simps)

lemma ratio_lt_iff: "0 < b \<Longrightarrow> a < c * b \<longleftrightarrow> real a / real b < real c"
  by (simp add: pos_divide_less_eq flip: of_nat_mult)

lemma nbits_powi:
  assumes "0 < n"
  shows "2 powi (int (nbits n) - 1) \<le> real n" "real n < 2 powi int (nbits n)"
proof -
  note b = nbits_bounds [OF assms]
  then have "int (nbits n) - 1 = int (nbits n - 1)" by simp
  then have "2 powi (int (nbits n) - 1) = real (2 ^ (nbits n - 1))"
    by (simp only: power_int_of_nat) simp
  then show "2 powi (int (nbits n) - 1) \<le> real n" using b by (simp only: of_nat_le_iff)
  have "2 powi int (nbits n) = real (2 ^ nbits n)" by simp
  then show "real n < 2 powi int (nbits n)" using b by (simp only: of_nat_less_iff)
qed

lemma powi_Suc_mult: "(2::real) * 2 powi e = 2 powi (e + 1)"
  by (simp add: power_int_add)

lemma powi_mult_pow: "(2::real) ^ j * 2 powi e = 2 powi (e + int j)"
  by (simp add: power_int_add)

lemma ratio_exponent:
  assumes n: "0 < n" and d: "0 < d"
  shows "2 powi (int (nbits n) - int (nbits d) - 1) < real n / real d"
    "real n / real d < 2 powi (int (nbits n) - int (nbits d) + 1)"
proof -
  note nb = nbits_powi [OF n] and db = nbits_powi [OF d]
  have "2 powi (int (nbits n) - int (nbits d) - 1) * real d
      < 2 powi (int (nbits n) - int (nbits d) - 1) * 2 powi int (nbits d)"
    using db by simp
  also have "\<dots> = 2 powi (int (nbits n) - 1)"
    by (subst power_int_add [symmetric]) simp_all
  finally show "2 powi (int (nbits n) - int (nbits d) - 1) < real n / real d"
    using nb d by (simp add: field_simps)
  have "real n < 2 powi int (nbits n)" by (rule nb(2))
  also have "\<dots> = 2 powi (int (nbits n) - int (nbits d) + 1) * 2 powi (int (nbits d) - 1)"
    by (subst power_int_add [symmetric]) simp_all
  also have "\<dots> \<le> 2 powi (int (nbits n) - int (nbits d) + 1) * real d"
    using db by simp
  finally show "real n / real d < 2 powi (int (nbits n) - int (nbits d) + 1)"
    using d by (simp add: pos_divide_less_eq)
qed

lemma round_exp_bounds:
  fixes n d :: nat
  assumes n: "0 < n" and d: "0 < d"
  shows "- 1074 \<le> round_exp n d" "real n / real d < 2 ^ 53 * 2 powi round_exp n d"
    "- 1074 < round_exp n d \<Longrightarrow> 2 ^ 52 * 2 powi round_exp n d \<le> real n / real d"
proof -
  define k where "k = int (nbits n) - int (nbits d) - 53"
  define x where "x = real n / real d"
  define c where "c \<longleftrightarrow> x < 2 ^ 53 * 2 powi k"
  define e0 where "e0 = (if c then k else k + 1)"
  have "n * 2 ^ nat (- k) < 2 ^ 53 * (d * 2 ^ nat k) \<longleftrightarrow> x * 2 powi (- k) < real (2 ^ 53)"
    using ratio_lt_iff [of "d * 2 ^ nat k" "n * 2 ^ nat (- k)" "2 ^ 53"] scaled_ratio [OF d, of n k] d
    by (simp only: x_def) simp
  also have "\<dots> \<longleftrightarrow> c" by (simp add: c_def power_int_minus field_simps)
  finally have e: "round_exp n d = max (- 1074) e0"
    by (simp add: round_exp_def k_def e0_def Let_def)
  have lo: "2 ^ 52 * 2 powi k < x" and hi: "x < 2 ^ 54 * 2 powi k"
    using ratio_exponent [OF n d] by (simp_all only: powi_mult_pow x_def k_def) (simp_all add: algebra_simps)
  have le: "x < 2 ^ 53 * 2 powi e0" and ge: "2 ^ 52 * 2 powi e0 \<le> x"
    using lo hi by (auto simp: e0_def c_def power_int_add)
  show "- 1074 \<le> round_exp n d" by (simp add: e)
  have "(2::real) powi e0 \<le> 2 powi max (- 1074) e0" by (rule power_int_increasing) auto
  with le show "real n / real d < 2 ^ 53 * 2 powi round_exp n d" by (simp add: e x_def)
  assume "- 1074 < round_exp n d"
  then have "round_exp n d = e0" by (simp add: e)
  with ge show "2 ^ 52 * 2 powi round_exp n d \<le> real n / real d" by (simp add: x_def)
qed


definition representable :: "real \<Rightarrow> bool" where
  "representable x \<longleftrightarrow>
     (\<exists>m f. x = real m * 2 powi f \<and> m < 2 ^ 53 \<and> - 1074 \<le> f \<and> f \<le> 971)"

lemma scaled_le:
  assumes d: "0 < d" and le: "real n / real d \<le> real c * 2 powi e"
  shows "n * 2 ^ nat (- e) \<le> c * (d * 2 ^ nat e)"
proof -
  have "real n / real d * 2 powi (- e) \<le> real c"
    using le d by (simp add: power_int_minus divide_le_eq le_divide_eq field_simps)
  then have "real (n * 2 ^ nat (- e)) / real (d * 2 ^ nat e) \<le> real c"
    by (simp only: scaled_ratio [OF d])
  then have "real (n * 2 ^ nat (- e)) \<le> real (c * (d * 2 ^ nat e))"
    using d by (simp add: divide_le_eq)
  then show ?thesis by (simp only: of_nat_le_iff)
qed

lemma scaled_ge:
  assumes d: "0 < d" and le: "real c * 2 powi e \<le> real n / real d"
  shows "c * (d * 2 ^ nat e) \<le> n * 2 ^ nat (- e)"
proof -
  have "real c \<le> real n / real d * 2 powi (- e)"
    using le d by (simp add: power_int_minus divide_le_eq le_divide_eq field_simps)
  then have "real c \<le> real (n * 2 ^ nat (- e)) / real (d * 2 ^ nat e)"
    by (simp only: scaled_ratio [OF d])
  then have "real (c * (d * 2 ^ nat e)) \<le> real (n * 2 ^ nat (- e))"
    using d by (simp add: le_divide_eq)
  then show ?thesis by (simp only: of_nat_le_iff)
qed

text \<open>
  The significand chosen at exponent \<open>e\<close>: rounding never crosses a representable number.
\<close>

definition round_sig :: "nat \<Rightarrow> nat \<Rightarrow> nat" where
  "round_sig n d =
     round_half_even (n * 2 ^ nat (- round_exp n d)) (d * 2 ^ nat (round_exp n d))"

lemma grid:
  assumes "e \<le> f"
  shows "real m * 2 powi f = real (m * 2 ^ nat (f - e)) * 2 powi e"
proof -
  have "(2::real) powi f = 2 ^ nat (f - e) * 2 powi e"
    using powi_mult_pow [of "nat (f - e)" e] assms by simp
  then show ?thesis by simp
qed

lemma round_sig_upper:
  assumes n: "0 < n" and d: "0 < d" and K: "representable K" and le: "real n / real d \<le> K"
  shows "real (round_sig n d) * 2 powi round_exp n d \<le> K"
proof -
  let ?e = "round_exp n d"
  obtain m f where mf: "K = real m * 2 powi f" "m < 2 ^ 53" "- 1074 \<le> f"
    using K by (auto simp: representable_def)
  have "?e \<le> f"
  proof (rule ccontr)
    assume "\<not> ?e \<le> f"
    then have fe: "f + 1 \<le> ?e" by simp
    then have "2 ^ 52 * 2 powi ?e \<le> K"
      using round_exp_bounds(3) [OF n d] mf(3) le by simp
    moreover have "(2::real) powi (f + 1) \<le> 2 powi ?e" by (rule power_int_increasing [OF fe]) simp
    then have "2 ^ 53 * 2 powi f \<le> (2::real) ^ 52 * 2 powi ?e" by (simp add: power_int_add)
    moreover have "real m < 2 ^ 53"
      using mf(2) by (metis of_nat_less_iff of_nat_numeral of_nat_power)
    then have "K < 2 ^ 53 * 2 powi f" by (simp add: mf(1))
    ultimately show False by linarith
  qed
  then have eq: "K = real (m * 2 ^ nat (f - ?e)) * 2 powi ?e" by (simp only: mf(1) grid)
  have "round_sig n d \<le> m * 2 ^ nat (f - ?e)"
    unfolding round_sig_def using d le
    by (intro round_half_even_le scaled_le) (simp_all only: eq, simp)
  then have "real (round_sig n d) \<le> real (m * 2 ^ nat (f - ?e))" by (simp only: of_nat_le_iff)
  then show ?thesis by (simp only: eq) simp
qed

lemma round_sig_lower:
  assumes n: "0 < n" and d: "0 < d" and K: "representable K" and le: "K \<le> real n / real d"
  shows "K \<le> real (round_sig n d) * 2 powi round_exp n d"
proof -
  let ?e = "round_exp n d"
  obtain m f where mf: "K = real m * 2 powi f" "m < 2 ^ 53" "- 1074 \<le> f"
    using K by (auto simp: representable_def)
  obtain c where c: "K \<le> real c * 2 powi ?e" "real c * 2 powi ?e \<le> real n / real d"
  proof (cases "?e \<le> f")
    case True
    then have "K = real (m * 2 ^ nat (f - ?e)) * 2 powi ?e" by (simp only: mf(1) grid)
    with le that [of "m * 2 ^ nat (f - ?e)"] show ?thesis by (simp only: order_refl)
  next
    case False
    then have fe: "f + 1 \<le> ?e" by simp
    have "2 ^ 52 * 2 powi ?e \<le> real n / real d"
      using round_exp_bounds(3) [OF n d] fe mf(3) by simp
    moreover have "(2::real) powi (f + 1) \<le> 2 powi ?e" by (rule power_int_increasing [OF fe]) simp
    then have "2 ^ 53 * 2 powi f \<le> (2::real) ^ 52 * 2 powi ?e" by (simp add: power_int_add)
    moreover have "real m < 2 ^ 53"
      using mf(2) by (metis of_nat_less_iff of_nat_numeral of_nat_power)
    then have "K < 2 ^ 53 * 2 powi f" by (simp add: mf(1))
    ultimately show ?thesis using that [of "2 ^ 52"] by simp
  qed
  have "c \<le> round_sig n d"
    unfolding round_sig_def using d c(2) by (intro round_half_even_ge scaled_ge) simp_all
  then have "real c \<le> real (round_sig n d)" by (simp only: of_nat_le_iff)
  then have "real c * 2 powi ?e \<le> real (round_sig n d) * 2 powi ?e" by simp
  with c(1) show ?thesis by linarith
qed

lemma round_sig_le: "0 < n \<Longrightarrow> 0 < d \<Longrightarrow> round_sig n d \<le> 2 ^ 53"
  unfolding round_sig_def
  by (intro round_half_even_le scaled_le) (use round_exp_bounds(2) [of n d] in simp_all)

lemma powi_le_cancel: "(2::real) powi a \<le> 2 powi b \<Longrightarrow> a \<le> b"
proof (rule ccontr)
  assume h: "(2::real) powi a \<le> 2 powi b" and "\<not> a \<le> b"
  then have "(2::real) powi (b + 1) \<le> 2 powi a" by (intro power_int_increasing) auto
  with h have "(2::real) powi (b + 1) \<le> 2 powi b" by linarith
  then show False by (simp add: power_int_add)
qed

lemma representable_less: "representable K \<Longrightarrow> K < 2 powi 1024"
proof -
  assume "representable K"
  then obtain m f where mf: "K = real m * 2 powi f" "m < 2 ^ 53" "f \<le> 971"
    by (auto simp: representable_def)
  have "real m < 2 ^ 53" using mf(2) by (metis of_nat_less_iff of_nat_numeral of_nat_power)
  then have "K < 2 ^ 53 * 2 powi f" by (simp add: mf(1))
  also have "\<dots> \<le> 2 ^ 53 * 2 powi 971"
    using power_int_increasing [OF mf(3), of "2::real"] by simp
  also have "\<dots> = 2 powi 1024" by (simp only: powi_mult_pow) simp
  finally show ?thesis .
qed

lemma round_ratio_value:
  assumes n: "0 < n" and d: "0 < d" and K: "representable K" and le: "real n / real d \<le> K"
  obtains m e where "round_ratio s n d = Finite s m e"
    "real m * 2 powi e = real (round_sig n d) * 2 powi round_exp n d"
proof -
  let ?e = "round_exp n d" and ?q = "round_sig n d"
  have rr: "round_ratio s n d =
      (if ?q = 2 ^ 53 then mk_finite s (2 ^ 52) (?e + 1) else mk_finite s ?q ?e)"
    using n by (simp add: round_ratio_def round_sig_def Let_def)
  have K': "K < 2 powi 1024" by (rule representable_less [OF K])
  show thesis
  proof (cases "?q = 2 ^ 53")
    case True
    have "real ?q * 2 powi ?e \<le> K" by (rule round_sig_upper [OF n d K le])
    then have "(2::real) ^ 53 * 2 powi ?e < 2 powi 1024" using True K' by simp
    then have "\<not> 1024 \<le> ?e + 53"
      by (metis (no_types) powi_mult_pow linorder_not_le of_nat_numeral one_le_numeral power_int_increasing)
    then have "round_ratio s n d = Finite s (2 ^ 52) (?e + 1)"
      using True by (simp add: rr mk_finite_def)
    moreover have "real (2 ^ 52) * 2 powi (?e + 1) = real ?q * 2 powi ?e"
      unfolding True by (simp add: power_int_add)
    ultimately show thesis by (rule that)
  next
    case False
    have "?e \<le> 971"
    proof (rule ccontr)
      assume "\<not> ?e \<le> 971"
      then have big: "972 \<le> ?e" by simp
      then have "2 ^ 52 * 2 powi ?e < (2::real) powi 1024"
        using round_exp_bounds(3) [OF n d] le K' by simp
      then have "\<not> 1024 \<le> ?e + 52"
        by (metis (no_types) powi_mult_pow linorder_not_le of_nat_numeral one_le_numeral power_int_increasing)
      with big show False by simp
    qed
    then have "round_ratio s n d = Finite s ?q ?e" using False by (simp add: rr mk_finite_def)
    then show thesis by (intro that) simp_all
  qed
qed


lemma round_ratio_le:
  assumes n: "0 < n" and d: "0 < d" and K: "representable K" and le: "real n / real d \<le> K"
  shows "isfinite (round_ratio False n d)" "dval (round_ratio False n d) \<le> K"
proof -
  obtain m e where "round_ratio False n d = Finite False m e"
    "real m * 2 powi e = real (round_sig n d) * 2 powi round_exp n d"
    by (rule round_ratio_value [OF n d K le, of False])
  then show "isfinite (round_ratio False n d)" "dval (round_ratio False n d) \<le> K"
    using round_sig_upper [OF n d K le] by (simp_all add: dval_def)
qed

lemma round_ratio_exact:
  assumes d: "0 < d" and K: "representable (real n / real d)"
  shows "\<exists>m e. round_ratio s n d = Finite s m e \<and> real m * 2 powi e = real n / real d"
proof (cases "n = 0")
  case True
  then show ?thesis by (simp add: round_ratio_def)
next
  case False
  then have n: "0 < n" by simp
  obtain m e where "round_ratio s n d = Finite s m e"
    "real m * 2 powi e = real (round_sig n d) * 2 powi round_exp n d"
    by (rule round_ratio_value [OF n d K order_refl, of s])
  moreover have "real (round_sig n d) * 2 powi round_exp n d = real n / real d"
    using round_sig_upper [OF n d K order_refl] round_sig_lower [OF n d K order_refl] by linarith
  ultimately show ?thesis by auto
qed

lemma representable_nat: "n \<le> 2 ^ 53 \<Longrightarrow> representable (real n)"
proof (cases "n = 2 ^ 53")
  case True
  have h: "real n = real (2 ^ 52) * 2 powi 1" unfolding True by simp
  show ?thesis unfolding representable_def
    by (rule exI [of _ "2 ^ 52"], rule exI [of _ 1], intro conjI) (rule h, simp_all)
next
  case False
  assume "n \<le> 2 ^ 53"
  with False have "n < 2 ^ 53" by simp
  then show ?thesis unfolding representable_def by (intro exI [of _ n] exI [of _ 0]) simp
qed

text \<open>A C \<open>long\<close> of at most 53 bits converts exactly.\<close>

lemma double_of_int_exact:
  assumes "\<bar>i\<bar> \<le> 2 ^ 53"
  shows "\<exists>m e. double_of_int i = Finite (i < 0) m e \<and> real m * 2 powi e = real_of_int \<bar>i\<bar>"
    and "dval (double_of_int i) = real_of_int i"
proof -
  have "nat \<bar>i\<bar> \<le> 2 ^ 53" using assms by (simp add: nat_le_iff)
  then have "representable (real (nat \<bar>i\<bar>))" by (rule representable_nat)
  then show *: "\<exists>m e. double_of_int i = Finite (i < 0) m e \<and> real m * 2 powi e = real_of_int \<bar>i\<bar>"
    using round_ratio_exact [of 1 "nat \<bar>i\<bar>" "i < 0"] by (simp add: double_of_int_def)
  then show "dval (double_of_int i) = real_of_int i" by (auto simp: dval_def)
qed

lemma powi_ratio:
  "real (a * 2 ^ nat e) / real (b * 2 ^ nat (- e)) = real a / real b * 2 powi e"
  by (cases "0 \<le> e") (auto simp: power_int_def field_simps)

lemma dmul_exact:
  assumes x: "x = Finite s m e" and y: "y = Finite t n f"
    and K: "representable (real m * 2 powi e * (real n * 2 powi f))"
  shows "\<exists>p g. dmul x y = Finite (s \<noteq> t) p g \<and> real p * 2 powi g = real m * 2 powi e * (real n * 2 powi f)"
proof -
  have pw: "(2::real) powi (e + f) = 2 powi e * 2 powi f" by (rule power_int_add) simp
  have eq: "real (m * n * 2 ^ nat (e + f)) / real (2 ^ nat (- (e + f))) =
      real m * 2 powi e * (real n * 2 powi f)"
    using powi_ratio [of "m * n" "e + f" 1] by (simp only: pw mult_1 of_nat_1 div_by_1 of_nat_mult mult.assoc mult.left_commute)
  have "0 < (2::nat) ^ nat (- (e + f))" by simp
  from round_ratio_exact [OF this, of "m * n * 2 ^ nat (e + f)" "s \<noteq> t"] K
  show ?thesis by (simp only: eq x y dmul.simps)
qed

lemma ddiv_le:
  assumes x: "x = Finite s m e" and y: "y = Finite s n f" and m: "0 < m" and n: "0 < n"
    and K: "representable K" and le: "real m * 2 powi e / (real n * 2 powi f) \<le> K"
  shows "isfinite (ddiv x y) \<and> dval (ddiv x y) \<le> K"
proof -
  have "(2::real) powi (e - f) = 2 powi e / 2 powi f" by (rule power_int_diff) simp
  then have eq: "real (m * 2 ^ nat (e - f)) / real (n * 2 ^ nat (f - e)) =
      real m * 2 powi e / (real n * 2 powi f)"
    using powi_ratio [of m "e - f" n] by (simp only: minus_diff_eq times_divide_times_eq)
  have "0 < m * 2 ^ nat (e - f)" "0 < n * 2 ^ nat (f - e)" using m n by simp_all
  from round_ratio_le [OF this K] le n show ?thesis
    by (simp only: eq x y ddiv.simps) simp
qed

lemma dval_round_ratio_nonneg: "0 \<le> dval (round_ratio False n d)"
  by (simp add: round_ratio_def dval_def mk_finite_def Let_def)

end
