(* ===== verification/CLib.thy ===== *)
theory CLib
  imports Double
begin

text \<open>
  The parts of the C library's formatted input and output the program uses: the
  conversions \<open>%s\<close>, \<open>%d\<close>, \<open>%ld\<close>, \<open>%lu\<close>, \<open>%x\<close> and \<open>%lf\<close> of \<open>sscanf\<close>/\<open>fscanf\<close>, the
  conversions \<open>%.0f\<close> and \<open>%.Pg\<close> of \<open>snprintf\<close>, \<open>atoi\<close> and \<open>fgets\<close>. A format string is a
  list of directives. Out-of-range integers saturate as \<open>strtol\<close> and \<open>strtoul\<close> do; a
  \<open>double\<close> is read and printed with one correct rounding.
\<close>

section \<open>Reading lines\<close>

definition fgets_split :: "nat \<Rightarrow> string \<Rightarrow> string \<times> string" where
  \<comment> \<open>at most \<open>k\<close> bytes, up to and including a newline, and what is left\<close>
  [cstr_defs]: "fgets_split k s =
     (let i = length (takeWhile (\<lambda>c. c \<noteq> NL) s)
      in if i < k then (take (Suc i) s, drop (Suc i) s) else (take k s, drop k s))"

definition fgets :: "nat \<Rightarrow> string \<Rightarrow> string option" where
  \<comment> \<open>the C string left in a buffer of \<open>n\<close> bytes by one call at the start of the file\<close>
  [cstr_defs]: "fgets n s = (if s = [] then None else Some (cstr (fst (fgets_split (n - 1) s))))"

lemma fgets_split_shorter: "s \<noteq> [] \<Longrightarrow> 0 < k \<Longrightarrow> length (snd (fgets_split k s)) < length s"
  by (cases s) (auto simp: fgets_split_def Let_def)

function fgets_lines :: "nat \<Rightarrow> string \<Rightarrow> string list" where
  \<comment> \<open>the successive contents of the buffer in \<open>while (fgets(line, n, f))\<close>\<close>
  "fgets_lines n s =
     (if s = [] \<or> n < 2 then []
      else cstr (fst (fgets_split (n - 1) s)) # fgets_lines n (snd (fgets_split (n - 1) s)))"
  by pat_completeness auto
termination
  by (relation "measure (\<lambda>(n, s). length s)") (auto simp: fgets_split_shorter)

declare fgets_lines.simps [simp del]

lemma fgets_lines_rec [cstr_defs]:
  "fgets_lines n [] = []"
  "2 \<le> n \<Longrightarrow> fgets_lines n (c # s) =
     cstr (fst (fgets_split (n - 1) (c # s))) # fgets_lines n (snd (fgets_split (n - 1) (c # s)))"
  by (subst fgets_lines.simps, simp)+

lemma fgets_lines_length: "l \<in> set (fgets_lines n s) \<Longrightarrow> length l < n"
proof (induction n s rule: fgets_lines.induct)
  case (1 n s)
  have first: "length (cstr (fst (fgets_split (n - 1) s))) < n" if "\<not> n < 2"
    using length_cstr_le [of "fst (fgets_split (n - 1) s)"] that
    by (auto simp: fgets_split_def Let_def)
  show ?case
    using 1 first by (subst (asm) (2) fgets_lines.simps) (auto split: if_splits)
qed

section \<open>Integers of scanf\<close>

definition LONG_MAX :: int where
  [cstr_defs]: "LONG_MAX = 2 ^ 63 - 1"

definition LONG_MIN :: int where
  [cstr_defs]: "LONG_MIN = - (2 ^ 63)"

definition in_long :: "int \<Rightarrow> bool" where
  "in_long i \<longleftrightarrow> LONG_MIN \<le> i \<and> i \<le> LONG_MAX"

definition clamp_long :: "int \<Rightarrow> int" where
  [cstr_defs]: "clamp_long i = max LONG_MIN (min LONG_MAX i)"

definition clamp_ulong :: "bool \<Rightarrow> nat \<Rightarrow> 64 word" where
  \<comment> \<open>\<open>strtoul\<close>: saturates, and negates modulo \<open>2^64\<close> after a minus sign\<close>
  [cstr_defs]: "clamp_ulong neg n =
     (if 2 ^ 64 \<le> n then - 1 else if neg then - of_nat n else of_nat n)"

lemma in_long_clamp [simp]: "in_long (clamp_long i)"
  by (auto simp: in_long_def clamp_long_def LONG_MAX_def LONG_MIN_def)

lemma clamp_long_id: "in_long i \<Longrightarrow> clamp_long i = i"
  by (auto simp: in_long_def clamp_long_def)

definition scan_sign :: "string \<Rightarrow> bool \<times> string" where
  [cstr_defs]: "scan_sign s =
     (case s of [] \<Rightarrow> (False, [])
      | c # t \<Rightarrow> if c = CHR ''-'' then (True, t) else if c = CHR ''+'' then (False, t) else (False, s))"

definition signed :: "bool \<Rightarrow> nat \<Rightarrow> int" where
  [cstr_defs]: "signed neg n = (if neg then - int n else int n)"

definition strtol :: "string \<Rightarrow> (int \<times> string) option" where
  \<comment> \<open>base 10, on text whose white space has been skipped\<close>
  [cstr_defs]: "strtol s =
     (case scan_sign s of (neg, t) \<Rightarrow>
        let ds = takeWhile isdigit t
        in if ds = [] then None
           else Some (clamp_long (signed neg (digits_val 10 ds)), dropWhile isdigit t))"

definition strtoul :: "string \<Rightarrow> (64 word \<times> string) option" where
  [cstr_defs]: "strtoul s =
     (case scan_sign s of (neg, t) \<Rightarrow>
        let ds = takeWhile isdigit t
        in if ds = [] then None
           else Some (clamp_ulong neg (digits_val 10 ds), dropWhile isdigit t))"

definition skip_0x :: "string \<Rightarrow> string" where
  [cstr_defs]: "skip_0x s = (if starts_with s ''0x'' \<or> starts_with s ''0X'' then drop 2 s else s)"

definition isxdigit :: "char \<Rightarrow> bool" where
  [cstr_defs]: "isxdigit c \<longleftrightarrow> hex_val c \<noteq> None"

definition strtoul_hex :: "string \<Rightarrow> (64 word \<times> string) option" where
  [cstr_defs]: "strtoul_hex s =
     (case scan_sign s of (neg, t0) \<Rightarrow>
        let t = skip_0x t0; ds = takeWhile isxdigit t
        in if ds = [] then None
           else Some (clamp_ulong neg (digits_val 16 ds), dropWhile isxdigit t))"

definition atoi :: "string \<Rightarrow> int" where
  \<comment> \<open>\<open>(int) strtol(s, NULL, 10)\<close>, as glibc defines it: the low 32 bits of the result\<close>
  [cstr_defs]: "atoi s =
     (case strtol (dropWhile isspace s) of
        None \<Rightarrow> 0
      | Some (v, _) \<Rightarrow> (v + 2 ^ 31) mod 2 ^ 32 - 2 ^ 31)"

section \<open>Floating-point text\<close>

definition lower :: "char \<Rightarrow> char" where
  [cstr_defs]: "lower c = (if 65 \<le> chr_nat c \<and> chr_nat c \<le> 90 then char_of (chr_nat c + 32) else c)"

definition istarts_with :: "string \<Rightarrow> string \<Rightarrow> bool" where
  \<comment> \<open>\<open>lit\<close> is in lower case\<close>
  [cstr_defs]: "istarts_with s lit \<longleftrightarrow> map lower (take (length lit) s) = lit"

definition scan_mantissa :: "(char \<Rightarrow> bool) \<Rightarrow> string \<Rightarrow> string \<times> string \<times> string" where
  \<comment> \<open>digits before the point, digits after it, rest\<close>
  [cstr_defs]: "scan_mantissa dig s =
     (let ip = takeWhile dig s; r = dropWhile dig s
      in if starts_with r ''.''
         then (ip, takeWhile dig (tl r), dropWhile dig (tl r)) else (ip, [], r))"

definition scan_exponent :: "char \<Rightarrow> string \<Rightarrow> (int \<times> string) option" where
  \<comment> \<open>no exponent: 0; an exponent letter without digits: matching failure\<close>
  [cstr_defs]: "scan_exponent ec s =
     (if istarts_with s [ec] then
        (case scan_sign (tl s) of (neg, t) \<Rightarrow>
           let ds = takeWhile isdigit t
           in if ds = [] then None
              else Some (signed neg (digits_val 10 ds), dropWhile isdigit t))
      else Some (0, s))"

definition scale :: "bool \<Rightarrow> nat \<Rightarrow> nat \<Rightarrow> int \<Rightarrow> double" where
  \<comment> \<open>\<open>n * b^e\<close>, correctly rounded\<close>
  [cstr_defs]: "scale neg n b e = round_ratio neg (n * b ^ nat e) (b ^ nat (- e))"

definition strtod :: "string \<Rightarrow> (double \<times> string) option" where
  [cstr_defs]: "strtod s =
     (case scan_sign s of (neg, t) \<Rightarrow>
        if istarts_with t ''infinity'' then Some (Infinite neg, drop 8 t)
        else if istarts_with t ''inf'' then Some (Infinite neg, drop 3 t)
        else if istarts_with t ''nan'' then Some (NaN neg, drop 3 t)
        else if istarts_with t ''0x'' then
          (case scan_mantissa isxdigit (drop 2 t) of (ip, fp, r) \<Rightarrow>
             if ip = [] \<and> fp = [] then None
             else case scan_exponent (CHR ''p'') r of
                    None \<Rightarrow> None
                  | Some (e, r') \<Rightarrow>
                      Some (scale neg (digits_val 16 (ip @ fp)) 2 (e - 4 * int (length fp)), r'))
        else
          (case scan_mantissa isdigit t of (ip, fp, r) \<Rightarrow>
             if ip = [] \<and> fp = [] then None
             else case scan_exponent (CHR ''e'') r of
                    None \<Rightarrow> None
                  | Some (e, r') \<Rightarrow>
                      Some (scale neg (digits_val 10 (ip @ fp)) 10 (e - int (length fp)), r')))"

section \<open>scanf\<close>

text \<open>
  Directives: white space, a literal character, \<open>%Ns\<close>, \<open>%*s\<close>, \<open>%*d\<close>, \<open>%ld\<close>, \<open>%lu\<close>,
  \<open>%x\<close>, \<open>%lf\<close>. A conversion stops at a matching failure, or at an input failure when the
  text is exhausted; the result is the number of assignments, or \<open>EOF\<close> (\<open>-1\<close>) if the
  input ran out before the first.
\<close>

datatype dir = Ws | Lit char | Str nat | SkipStr | SkipInt | Long | ULong | Hex | Dbl

datatype sval = SStr string | SLong int | SULong "64 word" | SHex "32 word" | SDbl double

datatype scan_res = Match "sval option" string | NoMatch | NoInput

definition scan_tok :: "(string \<Rightarrow> ('a \<times> string) option) \<Rightarrow> ('a \<Rightarrow> sval option) \<Rightarrow> string \<Rightarrow> scan_res" where
  [cstr_defs]: "scan_tok p f s =
     (let t = dropWhile isspace s
      in if t = [] then NoInput
         else case p t of None \<Rightarrow> NoMatch | Some (v, r) \<Rightarrow> Match (f v) r)"

definition word_tok :: "string \<Rightarrow> (string \<times> string) option" where
  [cstr_defs]: "word_tok s = Some (takeWhile (\<lambda>c. \<not> isspace c) s, dropWhile (\<lambda>c. \<not> isspace c) s)"

definition word_tok_max :: "nat \<Rightarrow> string \<Rightarrow> (string \<times> string) option" where
  [cstr_defs]: "word_tok_max n s =
     (let w = take n (takeWhile (\<lambda>c. \<not> isspace c) s) in Some (w, drop (length w) s))"

fun scan1 :: "dir \<Rightarrow> string \<Rightarrow> scan_res" where
  "scan1 Ws s = Match None (dropWhile isspace s)"
| "scan1 (Lit c) s =
     (case s of [] \<Rightarrow> NoInput | x # t \<Rightarrow> if x = c then Match None t else NoMatch)"
| "scan1 (Str n) s = scan_tok (word_tok_max n) (\<lambda>w. Some (SStr w)) s"
| "scan1 SkipStr s = scan_tok word_tok (\<lambda>_. None) s"
| "scan1 SkipInt s = scan_tok strtol (\<lambda>_. None) s"
| "scan1 Long s = scan_tok strtol (\<lambda>v. Some (SLong v)) s"
| "scan1 ULong s = scan_tok strtoul (\<lambda>v. Some (SULong v)) s"
| "scan1 Hex s = scan_tok strtoul_hex (\<lambda>v. Some (SHex (ucast v))) s"
| "scan1 Dbl s = scan_tok strtod (\<lambda>v. Some (SDbl v)) s"

fun scan_dirs :: "dir list \<Rightarrow> string \<Rightarrow> sval list \<times> bool" where
  \<comment> \<open>the assigned values, and whether the input ran out\<close>
  "scan_dirs [] s = ([], False)"
| "scan_dirs (d # ds) s =
     (case scan1 d s of
        NoMatch \<Rightarrow> ([], False)
      | NoInput \<Rightarrow> ([], True)
      | Match v t \<Rightarrow>
          (case scan_dirs ds t of (vs, eof) \<Rightarrow>
             ((case v of None \<Rightarrow> vs | Some x \<Rightarrow> x # vs), eof)))"

definition fscanf :: "dir list \<Rightarrow> string \<Rightarrow> int \<times> sval list" where
  [cstr_defs]: "fscanf ds s =
     (case scan_dirs ds s of (vs, eof) \<Rightarrow>
        (if vs = [] \<and> eof then - 1 else int (length vs), vs))"

definition sscanf :: "dir list \<Rightarrow> string \<Rightarrow> int \<times> sval list" where
  [cstr_defs]: "sscanf ds s = fscanf ds (cstr s)"

primrec long_of :: "sval \<Rightarrow> int" where
  "long_of (SLong i) = i"
| "long_of (SStr _) = 0"
| "long_of (SULong _) = 0"
| "long_of (SHex _) = 0"
| "long_of (SDbl _) = 0"

fun str_of :: "sval \<Rightarrow> string" where
  "str_of (SStr s) = s"
| "str_of _ = []"

section \<open>Printing doubles\<close>

definition sign_str :: "bool \<Rightarrow> string" where
  [cstr_defs]: "sign_str s = (if s then ''-'' else [])"

definition fmt_f0 :: "double \<Rightarrow> string" where
  \<comment> \<open>\<open>%.0f\<close>\<close>
  [cstr_defs]: "fmt_f0 x =
     (case x of
        Finite s m e \<Rightarrow> sign_str s @ show_nat (round_half_even (m * 2 ^ nat e) (2 ^ nat (- e)))
      | Infinite s \<Rightarrow> sign_str s @ ''inf''
      | NaN s \<Rightarrow> sign_str s @ ''nan'')"

function dec_neg :: "nat \<Rightarrow> nat \<Rightarrow> nat \<Rightarrow> nat" where
  \<comment> \<open>the least \<open>k\<close> with \<open>d \<le> n * 10^k\<close>, counted from the third argument\<close>
  "dec_neg n d k = (if d \<le> n \<or> n = 0 then k else dec_neg (10 * n) d (Suc k))"
  by pat_completeness auto
termination
  by (relation "measure (\<lambda>(n, d, k). d - n)") auto

declare dec_neg.simps [simp del]

lemma dec_neg_rec [cstr_defs]:
  "d \<le> n \<Longrightarrow> dec_neg n d k = k"
  "n < d \<Longrightarrow> 0 < n \<Longrightarrow> dec_neg n d k = dec_neg (10 * n) d (Suc k)"
  by (subst dec_neg.simps, simp)+

definition dec_exp :: "nat \<Rightarrow> nat \<Rightarrow> int" where
  \<comment> \<open>the decimal exponent of \<open>n / d > 0\<close>\<close>
  [cstr_defs]: "dec_exp n d =
     (if d \<le> n then int (length (show_nat (n div d))) - 1 else - int (dec_neg n d 0))"

definition round_dec :: "nat \<Rightarrow> nat \<Rightarrow> nat \<Rightarrow> nat \<times> int" where
  \<comment> \<open>\<open>P\<close> significant digits of \<open>n / d\<close> and the decimal exponent\<close>
  [cstr_defs]: "round_dec P n d =
     (let X = dec_exp n d;
          k = int P - 1 - X;
          q = round_half_even (n * 10 ^ nat k) (d * 10 ^ nat (- k))
      in if q = 10 ^ P then (10 ^ (P - 1), X + 1) else (q, X))"

definition strip_zeros :: "string \<Rightarrow> string" where
  [cstr_defs]: "strip_zeros s = rev (dropWhile (\<lambda>c. c = CHR ''0'') (rev s))"

definition with_frac :: "string \<Rightarrow> string \<Rightarrow> string" where
  [cstr_defs]: "with_frac ip fp = (let f = strip_zeros fp in if f = [] then ip else ip @ ''.'' @ f)"

definition fmt_exp :: "int \<Rightarrow> string" where
  [cstr_defs]: "fmt_exp X =
     (if X < 0 then ''e-'' else ''e+'')
     @ (if nat \<bar>X\<bar> < 10 then ''0'' else []) @ show_nat (nat \<bar>X\<bar>)"

definition fmt_g :: "nat \<Rightarrow> double \<Rightarrow> string" where
  \<comment> \<open>\<open>%.Pg\<close> for \<open>P > 0\<close>\<close>
  [cstr_defs]: "fmt_g P x =
     (case x of
        Infinite s \<Rightarrow> sign_str s @ ''inf''
      | NaN s \<Rightarrow> sign_str s @ ''nan''
      | Finite s m e \<Rightarrow>
          sign_str s @
          (if m = 0 then ''0''
           else case round_dec P (m * 2 ^ nat e) (2 ^ nat (- e)) of (q, X) \<Rightarrow>
             let ds = show_nat q in
             if - 4 \<le> X \<and> X < int P then
               (if 0 \<le> X then with_frac (take (nat X + 1) ds) (drop (nat X + 1) ds)
                else with_frac ''0'' (replicate (nat (- X) - 1) (CHR ''0'') @ ds))
             else with_frac (take 1 ds) (drop 1 ds) @ fmt_exp X))"

section \<open>Printing integers\<close>

lemma round_half_even_exact: "0 < d \<Longrightarrow> round_half_even (c * d) d = c"
  by (simp add: round_half_even_def)

lemma double_of_int_scaled:
  assumes "\<bar>i\<bar> \<le> 2 ^ 53"
  obtains m e where "double_of_int i = Finite (i < 0) m e" "m * 2 ^ nat e = nat \<bar>i\<bar> * 2 ^ nat (- e)"
proof -
  obtain m e where me: "double_of_int i = Finite (i < 0) m e" "real m * 2 powi e = real_of_int \<bar>i\<bar>"
    using double_of_int_exact(1) [OF assms] by auto
  have "real (m * 2 ^ nat e) / real (1 * 2 ^ nat (- e)) = real_of_int \<bar>i\<bar>"
    using me(2) powi_ratio [of m e 1] by simp
  then have "real (m * 2 ^ nat e) = real (nat \<bar>i\<bar> * 2 ^ nat (- e))"
    by (simp add: divide_eq_eq)
  then have "m * 2 ^ nat e = nat \<bar>i\<bar> * 2 ^ nat (- e)" by (simp only: of_nat_eq_iff)
  with me(1) that show thesis by blast
qed

lemma fmt_f0_of_int:
  assumes "\<bar>i\<bar> \<le> 2 ^ 53"
  shows "fmt_f0 (double_of_int i) = show_int i"
proof -
  obtain m e where me: "double_of_int i = Finite (i < 0) m e" "m * 2 ^ nat e = nat \<bar>i\<bar> * 2 ^ nat (- e)"
    using double_of_int_scaled [OF assms] by blast
  from me(2) have "round_half_even (m * 2 ^ nat e) (2 ^ nat (- e)) = nat \<bar>i\<bar>"
    by (simp add: round_half_even_exact)
  then show ?thesis
    by (simp add: fmt_f0_def me(1) show_int_def sign_str_def)
qed

lemma show_int_chars: "c \<in> set (show_int i) \<Longrightarrow> isdigit c \<or> c = CHR ''-''"
  by (auto simp: show_int_def dest: show_nat_isdigit split: if_splits)

lemma fmt_f0_chars: "isfinite x \<Longrightarrow> c \<in> set (fmt_f0 x) \<Longrightarrow> isdigit c \<or> c = CHR ''-''"
  by (cases x) (auto simp: fmt_f0_def sign_str_def dest: show_nat_isdigit split: if_splits)

lemma length_show_int: "\<bar>i\<bar> \<le> 2 ^ 53 \<Longrightarrow> length (show_int i) \<le> 17"
proof -
  assume "\<bar>i\<bar> \<le> 2 ^ 53"
  then have "nat \<bar>i\<bar> < 10 ^ 16" by (simp add: nat_less_iff)
  then have "length (show_nat (nat \<bar>i\<bar>)) \<le> 16" by (rule length_show_nat) simp
  then show ?thesis by (auto simp: show_int_def)
qed

end
