(* ===== verification/Metric.thy ===== *)
theory Metric
  imports CLib
begin

text \<open>
  The value model of \<^verbatim>\<open>include/metric.h\<close>, the log lines of \<^verbatim>\<open>src/log.c\<close>, and the
  interface between a lookup table and the code that searches it.

  A reader calls \<open>emit\<close> and the logging functions and ignores what they return, so its
  effects are the list of these calls in order (\<open>event list\<close>).
\<close>

section \<open>Metrics and events\<close>

definition METRIC_MAX_DS :: nat where
  "METRIC_MAX_DS = 4"

record metric =
  plugin :: cptr
  plugin_instance :: cptr
  type :: cptr
  type_instance :: cptr
  ds_count :: int
  vals :: "double list"

datatype event = Emit metric | Log string

definition log_err :: "string \<Rightarrow> string \<Rightarrow> string" where
  "log_err ctx msg = ''svgd-collect['' @ ctx @ '']: '' @ msg"

definition log_errno :: "string \<Rightarrow> string \<Rightarrow> string \<Rightarrow> string" where
  \<comment> \<open>the last argument is \<open>strerror(errno)\<close>\<close>
  "log_errno ctx path err = ''svgd-collect['' @ ctx @ '']: '' @ path @ '': '' @ err"

definition emitted :: "event list \<Rightarrow> metric list" where
  "emitted es = List.map_filter (\<lambda>e. case e of Emit m \<Rightarrow> Some m | Log _ \<Rightarrow> None) es"

lemma emitted_simps [simp]:
  "emitted [] = []"
  "emitted (Emit m # es) = m # emitted es"
  "emitted (Log l # es) = emitted es"
  by (simp_all add: emitted_def map_filter_simps)

lemma emitted_append [simp]: "emitted (xs @ ys) = emitted xs @ emitted ys"
  by (induction xs) (auto simp: emitted_def map_filter_def)

lemma emitted_concat_map [simp]:
  "emitted (concat (map f xs)) = concat (map (\<lambda>x. emitted (f x)) xs)"
  by (induction xs) simp_all

lemma emitted_map_Emit [simp]: "emitted (map Emit ms) = ms"
  by (induction ms) simp_all

section \<open>Static tables searched by key\<close>

text \<open>
  The type dictionary, the reader registry and the exposition rules are constant arrays
  searched from the front for a key. What their clients rely on is that keys are
  distinct: then the search returns the entry of the key, and every entry is found.
\<close>

locale keyed_table =
  fixes tab :: "'e list" and key :: "'e \<Rightarrow> 'k" and lookup :: "'k \<Rightarrow> 'e option"
  assumes lookup_find: "lookup k = find (\<lambda>e. key e = k) tab"
    and distinct_keys: "distinct (map key tab)"
begin

lemma lookup_Some_iff: "lookup k = Some e \<longleftrightarrow> e \<in> set tab \<and> key e = k"
proof
  assume "lookup k = Some e"
  then show "e \<in> set tab \<and> key e = k" by (auto simp: lookup_find find_Some_iff)
next
  assume e: "e \<in> set tab \<and> key e = k"
  then obtain e' where e': "lookup k = Some e'" by (cases "lookup k") (auto simp: lookup_find find_None_iff)
  then have "e' \<in> set tab" "key e' = k" by (auto simp: lookup_find find_Some_iff)
  then have "e' = e" using e distinct_keys by (auto simp: distinct_map inj_on_def)
  with e' show "lookup k = Some e" by simp
qed

lemma lookup_None_iff: "lookup k = None \<longleftrightarrow> k \<notin> key ` set tab"
  by (auto simp: lookup_find find_None_iff)

lemma lookup_entry: "e \<in> set tab \<Longrightarrow> lookup (key e) = Some e"
  by (simp add: lookup_Some_iff)

lemma lookup_inj: "lookup k = Some e \<Longrightarrow> lookup k' = Some e \<Longrightarrow> k = k'"
  by (auto simp: lookup_Some_iff)

end

end
