(* ===== verification/TypeDict.thy ===== *)
theory TypeDict
  imports Metric
begin

text \<open>
  The collectd-compatible type dictionary of \<^verbatim>\<open>src/types.c\<close>: for each type its data
  sources, and the lookup the writer and the exposition both rely on.
\<close>

datatype dst = DST_GAUGE | DST_DERIVE | DST_COUNTER

record ds_def =
  ds_name :: string
  ds_dst :: dst

record type_def =
  td_type :: string
  td_ds :: "ds_def list"
  td_ds_count :: int

definition mk_ds :: "string \<Rightarrow> dst \<Rightarrow> ds_def" where
  "mk_ds n d = \<lparr>ds_name = n, ds_dst = d\<rparr>"

definition ds_percent :: "ds_def list" where
  "ds_percent = [mk_ds ''value'' DST_GAUGE]"

definition ds_if_octets :: "ds_def list" where
  "ds_if_octets = [mk_ds ''rx'' DST_DERIVE, mk_ds ''tx'' DST_DERIVE]"

definition ds_if_packets :: "ds_def list" where
  "ds_if_packets = [mk_ds ''rx'' DST_DERIVE, mk_ds ''tx'' DST_DERIVE]"

definition ds_if_errors :: "ds_def list" where
  "ds_if_errors = [mk_ds ''rx'' DST_DERIVE, mk_ds ''tx'' DST_DERIVE]"

definition ds_disk_ops :: "ds_def list" where
  "ds_disk_ops = [mk_ds ''read'' DST_DERIVE, mk_ds ''write'' DST_DERIVE]"

definition ds_disk_octets :: "ds_def list" where
  "ds_disk_octets = [mk_ds ''read'' DST_DERIVE, mk_ds ''write'' DST_DERIVE]"

definition ds_disk_time :: "ds_def list" where
  "ds_disk_time = [mk_ds ''read'' DST_DERIVE, mk_ds ''write'' DST_DERIVE]"

definition ds_ps_rss :: "ds_def list" where
  "ds_ps_rss = [mk_ds ''value'' DST_GAUGE]"

definition ds_ps_cputime :: "ds_def list" where
  "ds_ps_cputime = [mk_ds ''user'' DST_DERIVE, mk_ds ''syst'' DST_DERIVE]"

definition ds_ps_count :: "ds_def list" where
  "ds_ps_count = [mk_ds ''processes'' DST_GAUGE, mk_ds ''threads'' DST_GAUGE]"

definition ds_df_complex :: "ds_def list" where
  "ds_df_complex = [mk_ds ''value'' DST_GAUGE]"

definition ds_load :: "ds_def list" where
  "ds_load = [mk_ds ''shortterm'' DST_GAUGE, mk_ds ''midterm'' DST_GAUGE, mk_ds ''longterm'' DST_GAUGE]"

definition ds_uptime :: "ds_def list" where
  "ds_uptime = [mk_ds ''value'' DST_GAUGE]"

definition ds_swap :: "ds_def list" where
  "ds_swap = [mk_ds ''value'' DST_GAUGE]"

definition ds_temperature :: "ds_def list" where
  "ds_temperature = [mk_ds ''value'' DST_GAUGE]"

definition ds_tcp_connections :: "ds_def list" where
  "ds_tcp_connections = [mk_ds ''value'' DST_GAUGE]"

lemmas ds_tables = mk_ds_def ds_percent_def ds_if_octets_def ds_if_packets_def ds_if_errors_def
  ds_disk_ops_def ds_disk_octets_def ds_disk_time_def ds_ps_rss_def ds_ps_cputime_def
  ds_ps_count_def ds_df_complex_def ds_load_def ds_uptime_def ds_swap_def
  ds_temperature_def ds_tcp_connections_def

definition mk_td :: "string \<Rightarrow> ds_def list \<Rightarrow> int \<Rightarrow> type_def" where
  "mk_td t d n = \<lparr>td_type = t, td_ds = d, td_ds_count = n\<rparr>"

definition TABLE :: "type_def list" where
  "TABLE =
    [mk_td ''percent'' ds_percent 1,
     mk_td ''if_octets'' ds_if_octets 2,
     mk_td ''if_packets'' ds_if_packets 2,
     mk_td ''if_errors'' ds_if_errors 2,
     mk_td ''disk_ops'' ds_disk_ops 2,
     mk_td ''disk_octets'' ds_disk_octets 2,
     mk_td ''disk_time'' ds_disk_time 2,
     mk_td ''ps_rss'' ds_ps_rss 1,
     mk_td ''ps_cputime'' ds_ps_cputime 2,
     mk_td ''ps_count'' ds_ps_count 2,
     mk_td ''df_complex'' ds_df_complex 1,
     mk_td ''load'' ds_load 3,
     mk_td ''uptime'' ds_uptime 1,
     mk_td ''swap'' ds_swap 1,
     mk_td ''temperature'' ds_temperature 1,
     mk_td ''tcp_connections'' ds_tcp_connections 1]"

definition types_lookup :: "cptr \<Rightarrow> type_def option" where
  "types_lookup t =
     (case t of None \<Rightarrow> None | Some name \<Rightarrow> find (\<lambda>e. td_type e = name) TABLE)"

lemma set_TABLE: "set TABLE =
    {mk_td ''percent'' ds_percent 1, mk_td ''if_octets'' ds_if_octets 2,
     mk_td ''if_packets'' ds_if_packets 2, mk_td ''if_errors'' ds_if_errors 2,
     mk_td ''disk_ops'' ds_disk_ops 2, mk_td ''disk_octets'' ds_disk_octets 2,
     mk_td ''disk_time'' ds_disk_time 2, mk_td ''ps_rss'' ds_ps_rss 1,
     mk_td ''ps_cputime'' ds_ps_cputime 2, mk_td ''ps_count'' ds_ps_count 2,
     mk_td ''df_complex'' ds_df_complex 1, mk_td ''load'' ds_load 3, mk_td ''uptime'' ds_uptime 1,
     mk_td ''swap'' ds_swap 1, mk_td ''temperature'' ds_temperature 1,
     mk_td ''tcp_connections'' ds_tcp_connections 1}"
  by (simp add: TABLE_def)

interpretation types: keyed_table TABLE td_type "\<lambda>name. types_lookup (Some name)"
  by unfold_locales (simp_all add: types_lookup_def TABLE_def mk_td_def)

text \<open>Every entry is well formed: its count is the length of its array, which holds one
  to \<open>METRIC_MAX_DS\<close> data sources, all of the same kind.\<close>

definition type_def_ok :: "type_def \<Rightarrow> bool" where
  "type_def_ok d \<longleftrightarrow>
     td_ds_count d = int (length (td_ds d)) \<and> td_ds d \<noteq> [] \<and> length (td_ds d) \<le> 3
     \<and> (\<forall>x \<in> set (td_ds d). ds_dst x = ds_dst (hd (td_ds d)) \<and> length (ds_name x) \<le> 9)
     \<and> distinct (map ds_name (td_ds d))"

lemma type_def_ok_count: "type_def_ok d \<Longrightarrow> td_ds_count d = int (length (td_ds d))"
  unfolding type_def_ok_def by blast

lemma TABLE_ok: "list_all type_def_ok TABLE"
  by (simp add: TABLE_def mk_td_def ds_tables type_def_ok_def)

lemma types_lookup_ok: "types_lookup t = Some d \<Longrightarrow> type_def_ok d"
proof -
  assume l: "types_lookup t = Some d"
  then obtain name where "t = Some name" by (auto simp: types_lookup_def split: option.splits)
  with l have "d \<in> set TABLE" using types.lookup_Some_iff by blast
  then show ?thesis using TABLE_ok by (simp add: list_all_iff)
qed

lemma types_lookup_None [simp]: "types_lookup None = None"
  by (simp add: types_lookup_def)

lemma types_lookup_eval [simp]:
  "types_lookup (Some ''percent'') = Some (mk_td ''percent'' ds_percent 1)"
  "types_lookup (Some ''if_octets'') = Some (mk_td ''if_octets'' ds_if_octets 2)"
  "types_lookup (Some ''if_packets'') = Some (mk_td ''if_packets'' ds_if_packets 2)"
  "types_lookup (Some ''if_errors'') = Some (mk_td ''if_errors'' ds_if_errors 2)"
  "types_lookup (Some ''disk_ops'') = Some (mk_td ''disk_ops'' ds_disk_ops 2)"
  "types_lookup (Some ''disk_octets'') = Some (mk_td ''disk_octets'' ds_disk_octets 2)"
  "types_lookup (Some ''disk_time'') = Some (mk_td ''disk_time'' ds_disk_time 2)"
  "types_lookup (Some ''ps_rss'') = Some (mk_td ''ps_rss'' ds_ps_rss 1)"
  "types_lookup (Some ''ps_cputime'') = Some (mk_td ''ps_cputime'' ds_ps_cputime 2)"
  "types_lookup (Some ''ps_count'') = Some (mk_td ''ps_count'' ds_ps_count 2)"
  "types_lookup (Some ''df_complex'') = Some (mk_td ''df_complex'' ds_df_complex 1)"
  "types_lookup (Some ''load'') = Some (mk_td ''load'' ds_load 3)"
  "types_lookup (Some ''uptime'') = Some (mk_td ''uptime'' ds_uptime 1)"
  "types_lookup (Some ''swap'') = Some (mk_td ''swap'' ds_swap 1)"
  "types_lookup (Some ''temperature'') = Some (mk_td ''temperature'' ds_temperature 1)"
  "types_lookup (Some ''tcp_connections'') = Some (mk_td ''tcp_connections'' ds_tcp_connections 1)"
  by (simp_all add: types_lookup_def TABLE_def mk_td_def)

lemma mk_td_sel [simp]:
  "td_type (mk_td t d n) = t" "td_ds (mk_td t d n) = d" "td_ds_count (mk_td t d n) = n"
  by (simp_all add: mk_td_def)

end
