(* ===== verification/Rra.thy ===== *)
theory Rra
  imports TypeDict
begin

text \<open>
  \<^verbatim>\<open>src/rra.c\<close>: the \<open>DS:\<close> and \<open>RRA:\<close> arguments of \<open>rrd_create_r\<close>. The strings are laid
  out one after the other in a static buffer of \<open>64 * 40\<close> bytes; \<open>remaining\<close> is the
  space left. The \<open>DS\<close> loop does not test for truncation: an entry that did not fit
  would move the write pointer out of the buffer, which is the result \<open>None\<close> here.
\<close>

definition STEP :: int where "STEP = 5"

definition HEARTBEAT :: int where "HEARTBEAT = STEP * 2"

definition XFF :: string where "XFF = ''0.1''"

definition RRAROWS :: int where "RRAROWS = 2400"

definition TIMESPANS :: "int list" where "TIMESPANS = [3600, 86400, 604800]"

definition CFRDS :: "string list" where "CFRDS = [''AVERAGE'', ''MIN'', ''MAX'']"

definition rra_buf_size :: nat where "rra_buf_size = 64 * 40"

lemmas rra_consts = STEP_def HEARTBEAT_def XFF_def RRAROWS_def TIMESPANS_def CFRDS_def rra_buf_size_def

definition dst_str :: "dst \<Rightarrow> string" where
  "dst_str d = (case d of DST_GAUGE \<Rightarrow> ''GAUGE'' | DST_DERIVE \<Rightarrow> ''DERIVE'' | DST_COUNTER \<Rightarrow> ''COUNTER'')"

definition ds_arg :: "ds_def \<Rightarrow> string" where
  "ds_arg d = ''DS:'' @ ds_name d @ '':'' @ dst_str (ds_dst d) @ '':'' @ show_int HEARTBEAT @ '':U:U''"

definition rra_arg :: "string \<Rightarrow> int \<Rightarrow> int \<Rightarrow> string" where
  "rra_arg cf cdp_len cdp_num =
     ''RRA:'' @ cf @ '':'' @ XFF @ '':'' @ show_int cdp_len @ '':'' @ show_int cdp_num"

fun rra_ds_loop :: "ds_def list \<Rightarrow> nat \<Rightarrow> string list \<Rightarrow> (nat \<times> string list) option" where
  "rra_ds_loop [] remaining argv = Some (remaining, argv)"
| "rra_ds_loop (d # dds) remaining argv =
     (let s = ds_arg d
      in if remaining \<le> length s then None
         else rra_ds_loop dds (remaining - (length s + 1)) (argv @ [s]))"

fun rra_cf_loop :: "string list \<Rightarrow> int \<Rightarrow> int \<Rightarrow> nat \<Rightarrow> string list \<Rightarrow> bool \<times> nat \<times> string list" where
  "rra_cf_loop [] cdp_len cdp_num remaining argv = (True, remaining, argv)"
| "rra_cf_loop (c # cs) cdp_len cdp_num remaining argv =
     (let s = rra_arg c cdp_len cdp_num
      in if remaining \<le> length s then (False, remaining, argv)
         else rra_cf_loop cs cdp_len cdp_num (remaining - (length s + 1)) (argv @ [s]))"

definition grow_span :: "int \<Rightarrow> int" where
  "grow_span spn = (if spn div STEP < RRAROWS then STEP * RRAROWS else spn)"

definition next_cdp_len :: "int \<Rightarrow> int \<Rightarrow> int" where
  "next_cdp_len cdp_len spn =
     (if cdp_len = 0 then 1
      else dfloor (ddiv (double_of_int spn) (double_of_int (RRAROWS * STEP))))"

definition cdp_num_of :: "int \<Rightarrow> int \<Rightarrow> int" where
  "cdp_num_of cdp_len spn = dceil (ddiv (double_of_int spn) (double_of_int (cdp_len * STEP)))"

fun rra_span_loop :: "int list \<Rightarrow> int \<Rightarrow> nat \<Rightarrow> string list \<Rightarrow> bool \<times> string list" where
  "rra_span_loop [] cdp_len remaining argv = (True, argv)"
| "rra_span_loop (t # ts) cdp_len remaining argv =
     (let spn = grow_span t;
          len = next_cdp_len cdp_len spn;
          num = cdp_num_of len spn
      in case rra_cf_loop CFRDS len num remaining argv of
           (ok, remaining', argv') \<Rightarrow>
             if ok then rra_span_loop ts len remaining' argv' else (False, argv'))"

definition rra_args :: "type_def option \<Rightarrow> int \<Rightarrow> (int \<times> string list) option" where
  "rra_args td argv_max =
     (case td of
        None \<Rightarrow> Some (- 1, [])
      | Some d \<Rightarrow>
          (let count = td_ds_count d + int (length TIMESPANS) * int (length CFRDS)
           in if count > argv_max then Some (- 1, [])
              else case rra_ds_loop (take (nat (td_ds_count d)) (td_ds d)) rra_buf_size [] of
                     None \<Rightarrow> None
                   | Some (remaining, argv) \<Rightarrow>
                       (case rra_span_loop TIMESPANS 0 remaining argv of
                          (ok, argv') \<Rightarrow> Some (if ok then count else - 1, argv'))))"

section \<open>The archives\<close>

lemma grow_span_eval: "map grow_span TIMESPANS = [12000, 86400, 604800]"
  by (simp add: grow_span_def rra_consts)

lemma cdp_eval:
  "next_cdp_len 0 12000 = 1" "cdp_num_of 1 12000 = 2400"
  "next_cdp_len 1 86400 = 7" "cdp_num_of 7 86400 = 2469"
  "next_cdp_len 7 604800 = 50" "cdp_num_of 50 604800 = 2420"
  by (simp_all add: next_cdp_len_def cdp_num_of_def rra_consts double_defs)

definition archives :: "int \<Rightarrow> int \<Rightarrow> string list" where
  "archives len num = map (\<lambda>cf. rra_arg cf len num) CFRDS"

definition rra_spec :: "string list" where
  "rra_spec = archives 1 2400 @ archives 7 2469 @ archives 50 2420"

lemma rra_arg_length:
  assumes "cf \<in> set CFRDS" "(len, num) \<in> {(1, 2400), (7, 2469), (50, 2420)}"
  shows "length (rra_arg cf len num) \<le> 23"
  using assms by (auto simp: rra_arg_def rra_consts cstr_defs)

lemma rra_cf_loop_ok:
  assumes "\<And>c. c \<in> set cs \<Longrightarrow> length (rra_arg c len num) \<le> b" "length cs * (b + 1) \<le> remaining"
  shows "\<exists>r. rra_cf_loop cs len num remaining argv
      = (True, r, argv @ map (\<lambda>c. rra_arg c len num) cs) \<and> remaining \<le> r + length cs * (b + 1)"
  using assms
proof (induction cs arbitrary: remaining argv)
  case Nil
  then show ?case by simp
next
  case (Cons c cs)
  let ?s = "rra_arg c len num"
  have s: "length ?s \<le> b" using Cons.prems(1) by simp
  have "length cs * (b + 1) \<le> remaining - (length ?s + 1)"
    using Cons.prems(2) s by simp
  from Cons.IH [OF _ this, of "argv @ [?s]"] Cons.prems(1) obtain r where
    "rra_cf_loop cs len num (remaining - (length ?s + 1)) (argv @ [?s])
       = (True, r, argv @ ?s # map (\<lambda>c. rra_arg c len num) cs)"
    "remaining - (length ?s + 1) \<le> r + length cs * (b + 1)" by auto
  then show ?case using s Cons.prems(2) by (auto simp: Let_def)
qed

lemma rra_cf_loop_archives:
  assumes "(len, num) \<in> {(1, 2400), (7, 2469), (50, 2420)}" "72 \<le> rem"
  obtains r where "rra_cf_loop CFRDS len num rem a = (True, r, a @ archives len num)" "rem \<le> r + 72"
  using rra_cf_loop_ok [of CFRDS len num 23 rem a] rra_arg_length [OF _ assms(1)] assms(2) that
  by (auto simp: CFRDS_def archives_def)

lemma rra_span_loop_ok:
  assumes "216 \<le> remaining"
  shows "rra_span_loop TIMESPANS 0 remaining argv = (True, argv @ rra_spec)"
proof -
  obtain r1 where r1: "rra_cf_loop CFRDS 1 2400 remaining argv = (True, r1, argv @ archives 1 2400)"
      "remaining \<le> r1 + 72"
    by (rule rra_cf_loop_archives [of 1 2400 remaining argv]) (use assms in auto)
  obtain r2 where r2: "rra_cf_loop CFRDS 7 2469 r1 (argv @ archives 1 2400)
      = (True, r2, (argv @ archives 1 2400) @ archives 7 2469)" "r1 \<le> r2 + 72"
    by (rule rra_cf_loop_archives [of 7 2469 r1 "argv @ archives 1 2400"]) (use assms r1 in auto)
  obtain r3 where r3: "rra_cf_loop CFRDS 50 2420 r2 ((argv @ archives 1 2400) @ archives 7 2469)
      = (True, r3, ((argv @ archives 1 2400) @ archives 7 2469) @ archives 50 2420)"
    by (rule rra_cf_loop_archives [of 50 2420 r2 "(argv @ archives 1 2400) @ archives 7 2469"])
      (use assms r1 r2 in auto)
  have sp: "grow_span 3600 = 12000" "grow_span 86400 = 86400" "grow_span 604800 = 604800"
    by (simp_all add: grow_span_def rra_consts)
  show ?thesis
    using r2(1) r3 by (simp add: TIMESPANS_def sp cdp_eval r1(1) rra_spec_def Let_def)
qed

lemma ds_arg_length: "length (ds_name d) \<le> 9 \<Longrightarrow> length (ds_arg d) \<le> 27"
  by (cases "ds_dst d") (auto simp: ds_arg_def dst_str_def rra_consts cstr_defs)

lemma rra_ds_loop_ok:
  assumes "\<forall>d \<in> set dds. length (ds_name d) \<le> 9" "length dds * 28 \<le> remaining"
  shows "\<exists>r. rra_ds_loop dds remaining argv = Some (r, argv @ map ds_arg dds)
      \<and> remaining \<le> r + length dds * 28"
  using assms
proof (induction dds arbitrary: remaining argv)
  case Nil
  then show ?case by simp
next
  case (Cons d dds)
  have s: "length (ds_arg d) \<le> 27" using Cons.prems(1) by (simp add: ds_arg_length)
  have "length dds * 28 \<le> remaining - (length (ds_arg d) + 1)" using Cons.prems(2) s by simp
  from Cons.IH [OF _ this, of "argv @ [ds_arg d]"] Cons.prems(1) obtain r where
    "rra_ds_loop dds (remaining - (length (ds_arg d) + 1)) (argv @ [ds_arg d])
       = Some (r, argv @ ds_arg d # map ds_arg dds)"
    "remaining - (length (ds_arg d) + 1) \<le> r + length dds * 28" by auto
  then show ?case using s Cons.prems(2) by (auto simp: Let_def)
qed

text \<open>
  For every type of the dictionary the result is the full argument list: one \<open>DS\<close> entry
  per data source and the nine archives, none of them truncated.
\<close>

lemma rra_args_ok:
  assumes "type_def_ok d" "12 \<le> argv_max"
  shows "rra_args (Some d) argv_max = Some (td_ds_count d + 9, map ds_arg (td_ds d) @ rra_spec)"
proof -
  have n: "td_ds_count d = int (length (td_ds d))" "length (td_ds d) \<le> 3"
    and nm: "\<forall>x \<in> set (td_ds d). length (ds_name x) \<le> 9"
    using assms(1) by (auto simp: type_def_ok_def)
  obtain r where r: "rra_ds_loop (td_ds d) rra_buf_size [] = Some (r, map ds_arg (td_ds d))"
    "rra_buf_size \<le> r + length (td_ds d) * 28"
    using rra_ds_loop_ok [OF nm, of rra_buf_size "[]"] n(2) by (auto simp: rra_buf_size_def)
  have "216 \<le> r" using r(2) n(2) by (simp add: rra_buf_size_def)
  then show ?thesis
    using n assms(2) r(1) by (simp add: rra_args_def rra_span_loop_ok Let_def) (simp add: rra_consts)
qed

end
