(* ===== verification/Path.thy ===== *)
theory Path
  imports Metric
begin

text \<open>
  \<^verbatim>\<open>src/path.c\<close>: the path of a metric's RRD file. The output buffer is its contents up to
  the terminating NUL, so the offset \<open>off\<close> of the source is the length of the contents.
  A result is the return code and the contents left in the buffer.
\<close>

definition snprintf_at :: "nat \<Rightarrow> string \<Rightarrow> string \<Rightarrow> bool \<times> string" where
  \<comment> \<open>\<open>snprintf(out + off, n - off, ...)\<close>: whether the text fits, and the new contents\<close>
  "snprintf_at n out s =
     (if length s < n - length out then (True, out @ s)
      else (False, out @ snprintf_buf (n - length out) s))"

definition append_seg :: "nat \<Rightarrow> string \<Rightarrow> cptr \<Rightarrow> cptr \<Rightarrow> bool \<times> string" where
  "append_seg n out a b =
     snprintf_at n out
       (''/'' @ fmt_s a @ (if b \<noteq> None then ''-'' else []) @ (case b of None \<Rightarrow> [] | Some s \<Rightarrow> s))"

definition file_name :: "metric \<Rightarrow> string" where
  "file_name m =
     fmt_s (type m) @ (if type_instance m \<noteq> None then ''-'' else [])
     @ (case type_instance m of None \<Rightarrow> [] | Some s \<Rightarrow> s) @ ''.rrd''"

definition metric_to_path :: "nat \<Rightarrow> cptr \<Rightarrow> cptr \<Rightarrow> metric option \<Rightarrow> int \<times> string" where
  "metric_to_path n base host mp =
     (case (base, host, mp) of
        (Some b, Some h, Some m) \<Rightarrow>
          (if n = 0 then (- 1, [])
           else
             (case snprintf_at n [] (b @ ''/'' @ h) of (ok, out) \<Rightarrow>
                if \<not> ok then (- 1, out)
                else
                  (case append_seg n out (plugin m) (plugin_instance m) of (ok, out) \<Rightarrow>
                     if \<not> ok then (- 1, out)
                     else if 256 \<le> length (file_name m) then (- 1, out)
                     else
                       (case snprintf_at n out (''/'' @ file_name m) of (ok, out) \<Rightarrow>
                          if \<not> ok then (- 1, out) else (0, out)))))
      | _ \<Rightarrow> (- 1, []))"

section \<open>The collectd layout\<close>

definition seg :: "cptr \<Rightarrow> cptr \<Rightarrow> string" where
  "seg a b = fmt_s a @ (case b of None \<Rightarrow> [] | Some s \<Rightarrow> ''-'' @ s)"

definition path_spec :: "string \<Rightarrow> string \<Rightarrow> metric \<Rightarrow> string" where
  "path_spec b h m =
     b @ ''/'' @ h @ ''/'' @ seg (plugin m) (plugin_instance m)
       @ ''/'' @ seg (type m) (type_instance m) @ ''.rrd''"

lemma file_name_seg: "file_name m = seg (type m) (type_instance m) @ ''.rrd''"
  by (auto simp: file_name_def seg_def split: option.splits)

lemma append_seg_seg: "append_seg n out a b = snprintf_at n out (''/'' @ seg a b)"
  by (cases b) (simp_all add: append_seg_def seg_def)

lemma snprintf_at_bound:
  "length out < n \<Longrightarrow> snprintf_at n out s = (ok, out') \<Longrightarrow> length out' < n"
  by (auto simp: snprintf_at_def snprintf_buf_def split: if_splits)

text \<open>The buffer is never overrun, on success or on any truncation.\<close>

lemma metric_to_path_bound:
  assumes "0 < n" "metric_to_path n base host mp = (rc, out)"
  shows "length out < n"
  using assms
  by (auto simp: metric_to_path_def append_seg_seg
      split: option.splits prod.splits if_splits
      dest!: snprintf_at_bound [rotated])

lemma snprintf_at_fits:
  "length out + length s < n \<Longrightarrow> snprintf_at n out s = (True, out @ s)"
  "\<not> length out + length s < n \<Longrightarrow> fst (snprintf_at n out s) = False"
  by (auto simp: snprintf_at_def)

lemma metric_to_path_eq:
  assumes "length (path_spec b h m) < n" "length (file_name m) < 256"
  shows "metric_to_path n (Some b) (Some h) (Some m) = (0, path_spec b h m)"
  using assms
  by (simp add: metric_to_path_def append_seg_seg path_spec_def snprintf_at_fits file_name_seg)

lemma metric_to_path_fail:
  assumes "\<not> length (path_spec b h m) < n \<or> \<not> length (file_name m) < 256"
  shows "fst (metric_to_path n (Some b) (Some h) (Some m)) = - 1"
  using assms
  by (auto simp: metric_to_path_def append_seg_seg path_spec_def snprintf_at_def file_name_seg
      split: if_splits)

section \<open>Paths determine series\<close>

definition plain_name :: "string \<Rightarrow> bool" where
  "plain_name s \<longleftrightarrow> CHR ''-'' \<notin> set s \<and> CHR ''/'' \<notin> set s"

definition no_slash :: "cptr \<Rightarrow> bool" where
  "no_slash p \<longleftrightarrow> (case p of None \<Rightarrow> True | Some s \<Rightarrow> CHR ''/'' \<notin> set s)"

lemma seg_no_slash: "plain_name p \<Longrightarrow> no_slash q \<Longrightarrow> CHR ''/'' \<notin> set (seg (Some p) q)"
  by (auto simp: seg_def plain_name_def no_slash_def fmt_s_def split: option.splits)

lemma seg_inj:
  assumes "plain_name p" "plain_name p'" "seg (Some p) q = seg (Some p') q'"
  shows "p = p' \<and> q = q'"
proof -
  have tw: "takeWhile (\<lambda>z. z \<noteq> CHR ''-'') (seg (Some r) x) = r" if "plain_name r" for r x
  proof -
    have "\<forall>z \<in> set r. z \<noteq> CHR ''-''" using that by (auto simp: plain_name_def)
    then show ?thesis by (cases x) (simp_all add: seg_def fmt_s_def takeWhile_append)
  qed
  have "p = p'" using tw [OF assms(1)] tw [OF assms(2)] assms(3) by metis
  then show ?thesis using assms(3) by (auto simp: seg_def split: option.splits)
qed

text \<open>A path determines its series as long as the slash between the directory and the file can be told from those
  in the instances: it is the first one, or it is the last one.\<close>

lemma path_spec_inj:
  assumes m: "plugin m = Some p" "type m = Some t" "plugin m' = Some p'" "type m' = Some t'"
    and n: "plain_name p" "plain_name t" "plain_name p'" "plain_name t'"
    and s: "no_slash (plugin_instance m) \<and> no_slash (plugin_instance m')
      \<or> no_slash (type_instance m) \<and> no_slash (type_instance m')"
    and eq: "path_spec b h m = path_spec b h m'"
  shows "p = p' \<and> t = t' \<and> plugin_instance m = plugin_instance m' \<and> type_instance m = type_instance m'"
proof -
  have e: "seg (Some p) (plugin_instance m) @ CHR ''/'' # seg (Some t) (type_instance m)
      = seg (Some p') (plugin_instance m') @ CHR ''/'' # seg (Some t') (type_instance m')"
    using eq unfolding path_spec_def m by simp
  have "seg (Some p) (plugin_instance m) = seg (Some p') (plugin_instance m')
      \<and> seg (Some t) (type_instance m) = seg (Some t') (type_instance m')"
    using s
  proof
    assume "no_slash (plugin_instance m) \<and> no_slash (plugin_instance m')"
    then show ?thesis using split_at_inj [OF e] seg_no_slash n by blast
  next
    assume "no_slash (type_instance m) \<and> no_slash (type_instance m')"
    moreover have "rev (seg (Some t) (type_instance m)) @ CHR ''/'' # rev (seg (Some p) (plugin_instance m))
        = rev (seg (Some t') (type_instance m')) @ CHR ''/'' # rev (seg (Some p') (plugin_instance m'))"
      using arg_cong [OF e, of rev] by simp
    ultimately show ?thesis using split_at_inj seg_no_slash n by (metis rev_is_rev_conv set_rev)
  qed
  then show ?thesis using seg_inj n by blast
qed

lemma path_plugin:
  assumes "plugin m = Some p" "plugin m' = Some p'" "plain_name p" "plain_name p'" "path_spec b h m = path_spec b h m'"
  shows "p = p'"
proof -
  have tw: "takeWhile (\<lambda>c. c \<noteq> CHR ''-'' \<and> c \<noteq> CHR ''/'') (q @ c # r) = q" if "plain_name q" "c = CHR ''-'' \<or> c = CHR ''/''" for q c r
    using that by (subst takeWhile_append2) (auto simp: plain_name_def)
  have split: "\<exists>c r. path_spec b h n = b @ ''/'' @ h @ ''/'' @ q @ c # r \<and> (c = CHR ''-'' \<or> c = CHR ''/'')" if "plugin n = Some q" for n q
    using that by (cases "plugin_instance n") (simp_all add: path_spec_def seg_def fmt_s_def)
  obtain c r where c: "path_spec b h m = b @ ''/'' @ h @ ''/'' @ p @ c # r" "c = CHR ''-'' \<or> c = CHR ''/''"
    using split [OF assms(1)] by blast
  obtain c' r' where c': "path_spec b h m' = b @ ''/'' @ h @ ''/'' @ p' @ c' # r'" "c' = CHR ''-'' \<or> c' = CHR ''/''"
    using split [OF assms(2)] by blast
  have "p @ c # r = p' @ c' # r'" using c(1) c'(1) assms(5) by simp
  then show ?thesis using tw [OF assms(3) c(2)] tw [OF assms(4) c'(2)] by metis
qed

end
