(* ===== verification/Writer.thy ===== *)
theory Writer
  imports Rra Path
begin

text \<open>
  \<^verbatim>\<open>src/writer_rrd.c\<close>: from a metric to an update of its RRD file.

  The operating system and librrd are parameters: a record of operations over an
  unspecified machine state \<open>'w\<close>. An operation that can fail returns its code and the
  error text (\<open>strerror(errno)\<close> or \<open>rrd_get_error()\<close>). The state a writer function
  changes is the machine and the lines written to the standard error stream.
\<close>

section \<open>The environment of the writer\<close>

datatype mkdir_result = MkOk | MkExists | MkErr string

record 'w rrd_ops =
  op_mkdir :: "string \<Rightarrow> 'w \<Rightarrow> mkdir_result \<times> 'w"
  op_access :: "string \<Rightarrow> 'w \<Rightarrow> bool"
  op_time :: "'w \<Rightarrow> int"
  op_create :: "string \<Rightarrow> int \<Rightarrow> int \<Rightarrow> string list \<Rightarrow> 'w \<Rightarrow> int \<times> string \<times> 'w"
  op_update :: "string \<Rightarrow> string list \<Rightarrow> 'w \<Rightarrow> int \<times> string \<times> 'w"
  op_rrdc_is_connected :: "string \<Rightarrow> 'w \<Rightarrow> bool"
  op_rrdc_connect :: "string \<Rightarrow> 'w \<Rightarrow> int \<times> string \<times> 'w"
  op_rrdc_update :: "string \<Rightarrow> string list \<Rightarrow> 'w \<Rightarrow> int \<times> string \<times> 'w"
  op_rrdc_flushall :: "'w \<Rightarrow> int \<times> string \<times> 'w"
  op_rrdc_disconnect :: "'w \<Rightarrow> 'w"

record 'w wstate =
  os :: 'w
  err :: "string list"

definition log_line :: "string \<Rightarrow> 'w wstate \<Rightarrow> 'w wstate" where
  "log_line l s = s\<lparr>err := err s @ [l]\<rparr>"

lemma os_log_line [simp]: "os (log_line l s) = os s"
  by (simp add: log_line_def)

record writer =
  datadir :: string
  host :: string
  rrdcached :: string

section \<open>Operations\<close>

definition strncpy_buf :: "nat \<Rightarrow> string \<Rightarrow> string" where
  \<comment> \<open>\<open>strncpy(b, s, n - 1); b[n - 1] = 0\<close>\<close>
  "strncpy_buf n s = take (n - 1) s"

definition writer_init :: "writer \<Rightarrow> cptr \<Rightarrow> cptr \<Rightarrow> cptr \<Rightarrow> int \<times> writer" where
  \<comment> \<open>the first argument is the previous contents of the structure\<close>
  "writer_init w ddir hst cached =
     (case (ddir, hst) of
        (Some d, Some h) \<Rightarrow>
          (0, \<lparr>datadir = strncpy_buf 4096 d, host = strncpy_buf 128 h,
               rrdcached = (case cached of None \<Rightarrow> [] | Some c \<Rightarrow> strncpy_buf 256 c)\<rparr>)
      | _ \<Rightarrow> (- 1, w))"

definition mkdir1 :: "'w rrd_ops \<Rightarrow> string \<Rightarrow> 'w wstate \<Rightarrow> 'w wstate" where
  "mkdir1 ops dir s =
     (case op_mkdir ops dir (os s) of (r, m) \<Rightarrow>
        (case r of
           MkErr e \<Rightarrow> log_line (''mkdirp('' @ dir @ ''): '' @ e) (s\<lparr>os := m\<rparr>)
         | _ \<Rightarrow> s\<lparr>os := m\<rparr>))"

fun mkdirp_loop :: "'w rrd_ops \<Rightarrow> string \<Rightarrow> nat list \<Rightarrow> 'w wstate \<Rightarrow> 'w wstate" where
  "mkdirp_loop ops dir [] s = s"
| "mkdirp_loop ops dir (i # is) s =
     mkdirp_loop ops dir is (if dir ! i = CHR ''/'' then mkdir1 ops (take i dir) s else s)"

definition mkdirp :: "'w rrd_ops \<Rightarrow> string \<Rightarrow> 'w wstate \<Rightarrow> 'w wstate" where
  "mkdirp ops dir s =
     (if length dir = 0 \<or> 4096 \<le> length dir then s
      else mkdir1 ops dir (mkdirp_loop ops dir [1..<length dir] s))"

definition fmt_ds :: "dst \<Rightarrow> double \<Rightarrow> string" where
  "fmt_ds d v = '':'' @ (if d = DST_DERIVE \<or> d = DST_COUNTER then fmt_f0 v else fmt_g 17 v)"

fun fmt_values_loop :: "nat \<Rightarrow> type_def \<Rightarrow> metric \<Rightarrow> nat list \<Rightarrow> string \<Rightarrow> int \<times> string" where
  "fmt_values_loop n td m [] out = (0, out)"
| "fmt_values_loop n td m (i # is) out =
     (let dst = (if int i < td_ds_count td then ds_dst (td_ds td ! i) else DST_GAUGE)
      in case snprintf_at n out (fmt_ds dst (vals m ! i)) of
           (ok, out') \<Rightarrow> if ok then fmt_values_loop n td m is out' else (- 1, out'))"

definition fmt_values :: "nat \<Rightarrow> type_def option \<Rightarrow> metric option \<Rightarrow> int \<times> string" where
  "fmt_values n tdp mp =
     (case (tdp, mp) of
        (Some td, Some m) \<Rightarrow>
          (if n = 0 then (- 1, [])
           else if td_ds_count td \<noteq> ds_count m then (- 1, [])
           else fmt_values_loop n td m [0..<nat (ds_count m)] ''N'')
      | _ \<Rightarrow> (- 1, []))"

definition writer_daemon_connect :: "'w rrd_ops \<Rightarrow> writer \<Rightarrow> 'w wstate \<Rightarrow> int \<times> 'w wstate" where
  "writer_daemon_connect ops w s =
     (if rrdcached w = [] then (0, s)
      else if op_rrdc_is_connected ops (rrdcached w) (os s) then (0, s)
      else case op_rrdc_connect ops (rrdcached w) (os s) of (rc, e, m) \<Rightarrow>
        if rc \<noteq> 0
        then (- 1, log_line (log_err ''writer'' (''rrdc_connect('' @ rrdcached w @ ''): '' @ e)) (s\<lparr>os := m\<rparr>))
        else (0, s\<lparr>os := m\<rparr>))"

definition direct_update :: "'w rrd_ops \<Rightarrow> string \<Rightarrow> string \<Rightarrow> 'w wstate \<Rightarrow> int \<times> 'w wstate" where
  "direct_update ops path values s =
     (case op_update ops path [values] (os s) of (rc, e, m) \<Rightarrow>
        (rc, if rc \<noteq> 0
             then log_line (log_err ''writer'' (''rrd_update_r('' @ path @ ''): '' @ e)) (s\<lparr>os := m\<rparr>)
             else s\<lparr>os := m\<rparr>))"

definition writer_update ::
  "'w rrd_ops \<Rightarrow> writer \<Rightarrow> string \<Rightarrow> string \<Rightarrow> 'w wstate \<Rightarrow> int \<times> 'w wstate" where
  "writer_update ops w path values s =
     (if rrdcached w = [] then direct_update ops path values s
      else case writer_daemon_connect ops w s of (crc, s1) \<Rightarrow>
        if crc \<noteq> 0 then direct_update ops path values s1
        else case op_rrdc_update ops path [values] (os s1) of (rc, e, m) \<Rightarrow>
          if rc = 0 then (0, s1\<lparr>os := m\<rparr>)
          else direct_update ops path values
                 (log_line (log_err ''writer''
                    (''rrdc_update('' @ path @ ''): '' @ e @ ''; falling back to direct update''))
                    (s1\<lparr>os := m\<rparr>)))"

definition writer_shutdown :: "'w rrd_ops \<Rightarrow> writer \<Rightarrow> 'w wstate \<Rightarrow> 'w wstate" where
  "writer_shutdown ops w s =
     (if rrdcached w \<noteq> [] \<and> op_rrdc_is_connected ops (rrdcached w) (os s)
      then case op_rrdc_flushall ops (os s) of (rc, e, m) \<Rightarrow>
             let s1 = (if rc \<noteq> 0
                       then log_line (log_err ''writer'' (''rrdc_flushall: '' @ e)) (s\<lparr>os := m\<rparr>)
                       else s\<lparr>os := m\<rparr>)
             in s1\<lparr>os := op_rrdc_disconnect ops (os s1)\<rparr>
      else s)"

definition make_dirs :: "'w rrd_ops \<Rightarrow> string \<Rightarrow> 'w wstate \<Rightarrow> 'w wstate" where
  \<comment> \<open>step 3 of \<open>writer_write\<close>\<close>
  "make_dirs ops path s =
     (case strrchr_split path (CHR ''/'') of
        None \<Rightarrow> s
      | Some (dir, _) \<Rightarrow> if dir \<noteq> [] \<and> length dir < 4096 then mkdirp ops dir s else s)"

definition create_rrd ::
  "'w rrd_ops \<Rightarrow> type_def \<Rightarrow> string \<Rightarrow> 'w wstate \<Rightarrow> (int \<times> 'w wstate) option" where
  \<comment> \<open>step 4 of \<open>writer_write\<close>\<close>
  "create_rrd ops td path s =
     (if op_access ops path (os s) then Some (0, s)
      else case rra_args (Some td) 64 of
             None \<Rightarrow> None
           | Some (n, argv) \<Rightarrow>
               if n < 0 then Some (- 1, s)
               else case op_create ops path 5 (op_time ops (os s) - 1) argv (os s) of (rc, e, m) \<Rightarrow>
                      if rc \<noteq> 0
                      then Some (- 1, log_line (log_err ''writer''
                             (''rrd_create_r('' @ path @ ''): '' @ e)) (s\<lparr>os := m\<rparr>))
                      else Some (0, s\<lparr>os := m\<rparr>))"

definition writer_write ::
  "'w rrd_ops \<Rightarrow> writer \<Rightarrow> metric option \<Rightarrow> 'w wstate \<Rightarrow> (int \<times> 'w wstate) option" where
  "writer_write ops w mp s =
     (case mp of
        None \<Rightarrow> Some (- 1, s)
      | Some m \<Rightarrow>
          (case types_lookup (type m) of
             None \<Rightarrow> Some (- 1, log_line (log_err ''writer''
                       (''type '' @ [CHR 0x27] @ fmt_s (type m) @ [CHR 0x27] @ '' ds_count mismatch'')) s)
           | Some td \<Rightarrow>
               if td_ds_count td \<noteq> ds_count m
               then Some (- 1, log_line (log_err ''writer''
                       (''type '' @ [CHR 0x27] @ fmt_s (type m) @ [CHR 0x27] @ '' ds_count mismatch'')) s)
               else case metric_to_path 4096 (Some (datadir w)) (Some (host w)) (Some m) of (prc, path) \<Rightarrow>
                 if prc \<noteq> 0 then Some (- 1, s)
                 else case create_rrd ops td path (make_dirs ops path s) of
                        None \<Rightarrow> None
                      | Some (crc, s1) \<Rightarrow>
                          if crc \<noteq> 0 then Some (- 1, s1)
                          else case fmt_values 256 (Some td) (Some m) of (frc, vbuf) \<Rightarrow>
                                 if frc \<noteq> 0 then Some (- 1, s1)
                                 else Some (writer_update ops w path vbuf s1)))"

section \<open>Rejection and definedness\<close>

lemma direct_update_os: "os (snd (direct_update ops p v s)) = snd (snd (op_update ops p [v] (os s)))"
  by (simp add: direct_update_def split: prod.splits)

lemma create_rrd_defined:
  assumes "types_lookup t = Some td"
  shows "create_rrd ops td path s \<noteq> None"
proof -
  have "rra_args (Some td) 64 = Some (td_ds_count td + 9, map ds_arg (td_ds td) @ rra_spec)"
    using types_lookup_ok [OF assms] by (rule rra_args_ok) simp
  then show ?thesis by (auto simp: create_rrd_def split: prod.splits)
qed

lemma writer_write_defined: "writer_write ops w mp s \<noteq> None"
  by (auto simp: writer_write_def split: option.splits prod.splits
      dest: notE [OF create_rrd_defined])

lemma writer_write_rejected:
  assumes "case mp of None \<Rightarrow> True | Some m \<Rightarrow>
      (case types_lookup (type m) of None \<Rightarrow> True | Some td \<Rightarrow> td_ds_count td \<noteq> ds_count m)"
  shows "\<exists>s'. writer_write ops w mp s = Some (- 1, s') \<and> os s' = os s"
  using assms by (auto simp: writer_write_def split: option.splits)

section \<open>The value string\<close>

definition dst_at :: "type_def \<Rightarrow> nat \<Rightarrow> dst" where
  "dst_at td i = (if int i < td_ds_count td then ds_dst (td_ds td ! i) else DST_GAUGE)"

definition values_text :: "type_def \<Rightarrow> metric \<Rightarrow> nat list \<Rightarrow> string" where
  "values_text td m is = concat (map (\<lambda>i. fmt_ds (dst_at td i) (vals m ! i)) is)"

definition fmt_spec :: "type_def \<Rightarrow> metric \<Rightarrow> string" where
  "fmt_spec td m = ''N'' @ values_text td m [0..<nat (ds_count m)]"

lemma fmt_values_loop_eq:
  "length (out @ values_text td m is) < n \<Longrightarrow>
     fmt_values_loop n td m is out = (0, out @ values_text td m is)"
  by (induction "is" arbitrary: out)
    (auto simp: values_text_def snprintf_at_fits dst_at_def Let_def)

lemma fmt_values_loop_fail:
  "length out \<le> n \<Longrightarrow> is \<noteq> [] \<Longrightarrow> \<not> length (out @ values_text td m is) < n \<Longrightarrow>
     fst (fmt_values_loop n td m is out) = - 1"
proof (induction "is" arbitrary: out)
  case Nil
  then show ?case by simp
next
  case (Cons i "is")
  let ?t = "fmt_ds (dst_at td i) (vals m ! i)"
  show ?case
  proof (cases "length out + length ?t < n")
    case True
    then have "is \<noteq> []" using Cons.prems(3) by (auto simp: values_text_def)
    then show ?thesis using Cons True
      by (simp add: snprintf_at_fits Let_def values_text_def flip: dst_at_def)
  next
    case False
    then show ?thesis
      by (auto simp: snprintf_at_def Let_def simp flip: dst_at_def)
  qed
qed

lemma fmt_values_eq:
  assumes "td_ds_count td = ds_count m" "length (fmt_spec td m) < n"
  shows "fmt_values n (Some td) (Some m) = (0, fmt_spec td m)"
  using assms fmt_values_loop_eq [of "''N''" td m "[0..<nat (ds_count m)]" n]
  by (simp add: fmt_values_def fmt_spec_def)

lemma fmt_values_fail:
  assumes "0 < ds_count m" "\<not> length (fmt_spec td m) < n"
  shows "fst (fmt_values n (Some td) (Some m)) = - 1"
  using assms fmt_values_loop_fail [of "''N''" n "[0..<nat (ds_count m)]" td m]
  by (auto simp: fmt_values_def fmt_spec_def)

section \<open>Every branch of a write\<close>

lemma writer_write_spec:
  "writer_write ops w (Some m) s =
     (let path = path_spec (datadir w) (host w) m;
          refused = log_line (log_err ''writer''
            (''type '' @ [CHR 0x27] @ fmt_s (type m) @ [CHR 0x27] @ '' ds_count mismatch'')) s
      in case types_lookup (type m) of
           None \<Rightarrow> Some (- 1, refused)
         | Some td \<Rightarrow>
             if td_ds_count td \<noteq> ds_count m then Some (- 1, refused)
             else if \<not> (length path < 4096 \<and> length (file_name m) < 256) then Some (- 1, s)
             else case create_rrd ops td path (make_dirs ops path s) of
                    None \<Rightarrow> None
                  | Some (c, s1) \<Rightarrow>
                      if c = 0 \<and> length (fmt_spec td m) < 256
                      then Some (writer_update ops w path (fmt_spec td m) s1) else Some (- 1, s1))"
proof (cases "types_lookup (type m)")
  case None
  then show ?thesis by (simp add: writer_write_def Let_def)
next
  case (Some td)
  let ?p = "path_spec (datadir w) (host w) m"
  consider (mismatch) "td_ds_count td \<noteq> ds_count m"
    | (long) "td_ds_count td = ds_count m" "\<not> (length ?p < 4096 \<and> length (file_name m) < 256)"
    | (fits) "td_ds_count td = ds_count m" "length ?p < 4096" "length (file_name m) < 256" by blast
  then show ?thesis
  proof cases
    case mismatch
    then show ?thesis using Some by (simp add: writer_write_def Let_def)
  next
    case long
    obtain x where "metric_to_path 4096 (Some (datadir w)) (Some (host w)) (Some m) = (- 1, x)"
      using metric_to_path_fail [of "datadir w" "host w" m 4096] long(2)
      by (cases "metric_to_path 4096 (Some (datadir w)) (Some (host w)) (Some m)") auto
    then show ?thesis using Some long by (simp add: writer_write_def Let_def)
  next
    case fits
    note p = metric_to_path_eq [OF fits(2,3)]
    show ?thesis
    proof (cases "length (fmt_spec td m) < 256")
      case True
      with fmt_values_eq [OF fits(1)] p Some fits show ?thesis
        by (simp add: writer_write_def Let_def split: option.splits)
    next
      case False
      have "0 < ds_count m" using types_lookup_ok [OF Some] fits(1) by (auto simp: type_def_ok_def)
      from fmt_values_fail [OF this False] obtain x where "fmt_values 256 (Some td) (Some m) = (- 1, x)"
        by (cases "fmt_values 256 (Some td) (Some m)") auto
      with p Some fits False show ?thesis by (simp add: writer_write_def Let_def split: option.splits)
    qed
  qed
qed

section \<open>Counters are written exactly\<close>

definition is_counter :: "type_def \<Rightarrow> bool" where
  "is_counter td \<longleftrightarrow> (\<forall>x \<in> set (td_ds td). ds_dst x \<noteq> DST_GAUGE)"

lemma dst_at_counter:
  "type_def_ok td \<Longrightarrow> is_counter td \<Longrightarrow> i < length (td_ds td) \<Longrightarrow> dst_at td i \<noteq> DST_GAUGE"
  by (drule type_def_ok_count) (simp add: dst_at_def is_counter_def)

lemma fmt_ds_counter: "d \<noteq> DST_GAUGE \<Longrightarrow> fmt_ds d v = '':'' @ fmt_f0 v"
  by (cases d) (auto simp: fmt_ds_def)

lemma fmt_spec_counters:
  assumes ok: "type_def_ok td" "is_counter td" "td_ds_count td = ds_count m"
    and v: "vals m = map double_of_int cs" "length cs = length (td_ds td)"
      "\<forall>c \<in> set cs. \<bar>c\<bar> \<le> 2 ^ 53"
  shows "fmt_spec td m = ''N'' @ concat (map (\<lambda>c. '':'' @ show_int c) cs)"
proof -
  have n: "nat (ds_count m) = length cs" using ok v(2) by (simp add: type_def_ok_def)
  have "map (\<lambda>i. fmt_ds (dst_at td i) (vals m ! i)) [0..<length cs] = map (\<lambda>c. '':'' @ show_int c) cs"
    using v ok(1,2)
    by (intro nth_equalityI) (auto simp: fmt_ds_counter dst_at_counter fmt_f0_of_int)
  then show ?thesis by (simp add: fmt_spec_def values_text_def n)
qed

lemma length_concat_le:
  "(\<And>x. x \<in> set xs \<Longrightarrow> length (f x) \<le> b) \<Longrightarrow> length (concat (map f xs)) \<le> length xs * b"
proof (induction xs)
  case Nil
  then show ?case by simp
next
  case (Cons x xs)
  then have "length (f x) \<le> b" "length (concat (map f xs)) \<le> length xs * b" by simp_all
  then show ?case by simp
qed

lemma fmt_values_counters:
  assumes ok: "type_def_ok td" "is_counter td" "td_ds_count td = ds_count m"
    and v: "vals m = map double_of_int cs" "length cs = length (td_ds td)"
      "\<forall>c \<in> set cs. \<bar>c\<bar> \<le> 2 ^ 53"
  shows "fmt_values 256 (Some td) (Some m) = (0, ''N'' @ concat (map (\<lambda>c. '':'' @ show_int c) cs))"
proof -
  have "length (concat (map (\<lambda>c. '':'' @ show_int c) cs)) \<le> length cs * 18"
    using v(3) length_show_int by (intro length_concat_le) auto
  also have "length cs \<le> 3" using v(2) ok(1) by (simp add: type_def_ok_def)
  finally have "length (fmt_spec td m) < 256" by (simp add: fmt_spec_counters [OF assms])
  then show ?thesis using fmt_values_eq [OF ok(3)] by (simp add: fmt_spec_counters [OF assms])
qed

section \<open>The daemon and the fallback\<close>

lemma writer_update_cases:
  obtains (daemon) s1 e m where "rrdcached w \<noteq> []" "writer_daemon_connect ops w s = (0, s1)"
      "op_rrdc_update ops path [v] (os s1) = (0, e, m)"
      "writer_update ops w path v s = (0, s1\<lparr>os := m\<rparr>)"
  | (direct) s' where "writer_update ops w path v s = direct_update ops path v s'"
proof (cases "rrdcached w = []")
  case True
  then show thesis by (intro direct [of s]) (simp add: writer_update_def)
next
  case False
  obtain c s1 where c: "writer_daemon_connect ops w s = (c, s1)" by force
  obtain rc e m where u: "op_rrdc_update ops path [v] (os s1) = (rc, e, m)" by (metis prod.exhaust)
  show thesis
  proof (cases "c = 0 \<and> rc = 0")
    case True
    with False c u show thesis by (intro daemon [of s1 e m]) (simp_all add: writer_update_def)
  next
    case no: False
    show thesis
    proof (cases "c = 0")
      case True
      with False no c u have "\<exists>s'. writer_update ops w path v s = direct_update ops path v s'"
        by (auto simp: writer_update_def)
      then show thesis using direct by blast
    next
      case c0: False
      with False c show thesis by (intro direct [of s1]) (simp add: writer_update_def)
    qed
  qed
qed

lemma writer_update_no_daemon:
  "rrdcached w = [] \<Longrightarrow> writer_update ops w path v s = direct_update ops path v s"
  by (simp add: writer_update_def)

section \<open>mkdirp creates every ancestor\<close>

definition parent_of :: "string \<Rightarrow> string option" where
  \<comment> \<open>\<open>None\<close>: the root or the working directory, which exist\<close>
  "parent_of p =
     (case strrchr_split p (CHR ''/'') of
        None \<Rightarrow> None
      | Some (a, _) \<Rightarrow> if a = [] then None else Some a)"

definition mkdir_law :: "'w rrd_ops \<Rightarrow> ('w \<Rightarrow> string set) \<Rightarrow> bool" where
  \<comment> \<open>what \<open>mkdir\<close> promises of the existing directories \<open>dirs\<close> when permissions allow\<close>
  "mkdir_law ops dirs \<longleftrightarrow>
     (\<forall>p m r m'. op_mkdir ops p m = (r, m') \<longrightarrow>
        dirs m \<subseteq> dirs m' \<and> ((\<forall>q. parent_of p = Some q \<longrightarrow> q \<in> dirs m) \<longrightarrow> p \<in> dirs m'))"

lemma mkdir1_law:
  assumes "mkdir_law ops dirs"
  shows "dirs (os s) \<subseteq> dirs (os (mkdir1 ops p s))"
    "(\<And>q. parent_of p = Some q \<Longrightarrow> q \<in> dirs (os s)) \<Longrightarrow> p \<in> dirs (os (mkdir1 ops p s))"
proof -
  obtain r m where rm: "op_mkdir ops p (os s) = (r, m)" by force
  then have "os (mkdir1 ops p s) = m" by (simp add: mkdir1_def split: mkdir_result.splits)
  then show "dirs (os s) \<subseteq> dirs (os (mkdir1 ops p s))"
    "(\<And>q. parent_of p = Some q \<Longrightarrow> q \<in> dirs (os s)) \<Longrightarrow> p \<in> dirs (os (mkdir1 ops p s))"
    using assms rm unfolding mkdir_law_def by blast+
qed

definition slashes_made :: "string \<Rightarrow> nat \<Rightarrow> string set \<Rightarrow> bool" where
  "slashes_made dir i D \<longleftrightarrow> (\<forall>j. 1 \<le> j \<and> j < i \<and> dir ! j = CHR ''/'' \<longrightarrow> take j dir \<in> D)"

lemma parent_of_take:
  assumes "parent_of (take i dir) = Some q" "i \<le> length dir"
  shows "\<exists>j. 1 \<le> j \<and> j < i \<and> dir ! j = CHR ''/'' \<and> q = take j dir"
proof -
  obtain b where b: "strrchr_split (take i dir) (CHR ''/'') = Some (q, b)" and q: "q \<noteq> []"
    using assms(1) by (auto simp: parent_of_def split: option.splits if_splits)
  have eq: "take i dir = q @ CHR ''/'' # b" by (rule strrchr_split_SomeD(1) [OF b])
  then have len: "length q < i" using assms(2) by (metis add_less_cancel_left length_append length_take
      less_add_same_cancel1 list.size(4) min.absorb2 zero_less_Suc add.commute add_Suc_right)
  have "dir ! length q = take i dir ! length q" using len by simp
  also have "\<dots> = CHR ''/''" by (simp add: eq)
  finally have "dir ! length q = CHR ''/''" .
  moreover have "q = take (length q) (take i dir)" by (simp add: eq)
  then have "q = take (length q) dir" using len by (simp add: min_def split: if_splits)
  ultimately show ?thesis using q len by (intro exI [of _ "length q"]) (auto simp: Suc_le_eq)
qed

lemma mkdirp_loop_made:
  assumes law: "mkdir_law ops dirs" and "i \<le> n" "n \<le> length dir"
    and "slashes_made dir i (dirs (os s))"
  shows "slashes_made dir n (dirs (os (mkdirp_loop ops dir [i..<n] s)))"
  using assms(2-4)
proof (induction "n - i" arbitrary: i s)
  case 0
  then show ?case by simp
next
  case (Suc k)
  then have "i < n" by simp
  let ?s = "if dir ! i = CHR ''/'' then mkdir1 ops (take i dir) s else s"
  have mono: "dirs (os s) \<subseteq> dirs (os ?s)" using mkdir1_law(1) [OF law] by simp
  have "take i dir \<in> dirs (os ?s)" if "dir ! i = CHR ''/''"
    using that Suc.prems(3) parent_of_take [of i dir] \<open>i < n\<close> Suc.prems(2)
    by (auto simp: slashes_made_def intro!: mkdir1_law(2) [OF law])
  then have "slashes_made dir (Suc i) (dirs (os ?s))"
    using Suc.prems(3) mono unfolding slashes_made_def by (metis less_Suc_eq subsetD)
  then have "slashes_made dir n (dirs (os (mkdirp_loop ops dir [Suc i..<n] ?s)))"
    using Suc \<open>i < n\<close> by (intro Suc.hyps(1)) auto
  then show ?case using \<open>i < n\<close> by (simp add: upt_conv_Cons)
qed

lemma mkdirp_creates:
  assumes law: "mkdir_law ops dirs" and "dir \<noteq> []" "length dir < 4096"
  shows "dir \<in> dirs (os (mkdirp ops dir s))"
proof -
  let ?s = "mkdirp_loop ops dir [1..<length dir] s"
  have "slashes_made dir (length dir) (dirs (os ?s))"
    using assms(2) by (intro mkdirp_loop_made [OF law]) (auto simp: slashes_made_def Suc_le_eq)
  then have "\<And>q. parent_of dir = Some q \<Longrightarrow> q \<in> dirs (os ?s)"
    using parent_of_take [of "length dir" dir] by (auto simp: slashes_made_def)
  then show ?thesis using assms by (auto simp: mkdirp_def intro: mkdir1_law(2) [OF law])
qed

end
