(* ===== verification/ReaderBase.thy ===== *)
theory ReaderBase
  imports TypeDict
begin

text \<open>
  What the eleven readers share: the operating system they sample, the state they keep
  between samples, the result of a call, and the contract of \<^verbatim>\<open>include/reader.h\<close>.

  The kernel is a parameter (\<open>osenv\<close>): what opening a file, listing a directory and the
  other system calls return at the time of the sample. A reader returns its code, the
  calls it made of \<open>emit\<close> and of the logging functions, in order, and the new state; the
  result \<open>None\<close> stands for undefined behaviour (a signed overflow).
\<close>

record statvfs_t =
  f_frsize :: "64 word"
  f_blocks :: "64 word"
  f_bfree :: "64 word"
  f_bavail :: "64 word"

record osenv =
  os_fopen :: "string \<Rightarrow> string + string"
  os_opendir :: "string \<Rightarrow> string + string list"
  os_statvfs :: "string \<Rightarrow> statvfs_t option"
  os_pagesize :: int
  os_regcomp_ok :: bool

text \<open>The static variables of the readers: \<open>cpu.c\<close> keeps its previous sample (-1 at
  first), \<open>disk.c\<close> whether its filter is compiled.\<close>

record rstate =
  prev_busy :: int
  prev_total :: int
  re_ready :: bool

definition rstate_init :: rstate where
  "rstate_init = \<lparr>prev_busy = - 1, prev_total = - 1, re_ready = False\<rparr>"

type_synonym reader_result = "(int \<times> event list \<times> rstate) option"
type_synonym reader_fn = "osenv \<Rightarrow> string \<Rightarrow> rstate \<Rightarrow> reader_result"

section \<open>Checked signed arithmetic\<close>

definition chk_long :: "int \<Rightarrow> int option" where
  "chk_long i = (if in_long i then Some i else None)"

definition chk_int :: "int \<Rightarrow> int option" where
  "chk_int i = (if - (2 ^ 31) \<le> i \<and> i < 2 ^ 31 then Some i else None)"

fun lsum :: "int \<Rightarrow> int list \<Rightarrow> int option" where
  \<comment> \<open>a left-associated sum of \<open>long\<close> values\<close>
  "lsum a [] = Some a"
| "lsum a (x # xs) = do { b \<leftarrow> chk_long (a + x); lsum b xs }"

lemma chk_long_Some [simp]: "in_long i \<Longrightarrow> chk_long i = Some i"
  by (simp add: chk_long_def)

lemma chk_long_SomeD: "chk_long i = Some j \<Longrightarrow> j = i \<and> in_long i"
  by (auto simp: chk_long_def split: if_splits)

lemma lsum_sum:
  "\<bar>a\<bar> + (\<Sum>x\<leftarrow>xs. \<bar>x\<bar>) \<le> LONG_MAX \<Longrightarrow> lsum a xs = Some (a + sum_list xs)"
proof (induction xs arbitrary: a)
  case Nil
  then show ?case by simp
next
  case (Cons x xs)
  have nn: "0 \<le> (\<Sum>x\<leftarrow>xs. \<bar>x\<bar>)" by (rule sum_list_nonneg) auto
  then have "in_long (a + x)" "\<bar>a + x\<bar> + (\<Sum>x\<leftarrow>xs. \<bar>x\<bar>) \<le> LONG_MAX"
    using Cons.prems by (auto simp: in_long_def LONG_MIN_def LONG_MAX_def)
  then show ?case using Cons.IH [of "a + x"] by simp
qed

lemma lsum_SomeD: "lsum a xs = Some r \<Longrightarrow> r = a + sum_list xs"
  by (induction xs arbitrary: a) (fastforce dest!: chk_long_SomeD simp: bind_eq_Some_conv)+

section \<open>Metrics a reader may emit\<close>

definition instances_ok :: "string \<Rightarrow> metric \<Rightarrow> bool" where
  \<comment> \<open>a plugin that measures one thing sets no instance, or always the same one\<close>
  "instances_ok p m \<longleftrightarrow>
     (p = ''cpu'' \<longrightarrow> plugin_instance m = Some ''total'')
   \<and> (p \<in> {''memory'', ''swap'', ''load'', ''uptime'', ''tcpconns''} \<longrightarrow> plugin_instance m = None)
   \<and> (p \<in> {''load'', ''uptime'', ''interface'', ''disk'', ''processes''} \<longrightarrow> type_instance m = None)"

definition metric_ok :: "(string \<times> string) set \<Rightarrow> metric \<Rightarrow> bool" where
  \<comment> \<open>plugin and type are one of the given pairs, the values are those of the type, and the instances
     those of the plugin\<close>
  "metric_ok pairs m \<longleftrightarrow>
     (\<exists>p t d. plugin m = Some p \<and> type m = Some t \<and> (p, t) \<in> pairs
        \<and> types_lookup (Some t) = Some d \<and> ds_count m = td_ds_count d
        \<and> length (vals m) = length (td_ds d) \<and> instances_ok p m)"

lemmas metric_ok_defs = metric_ok_def instances_ok_def

text \<open>
  The contract of a reader: it returns 0 or -1; an error is logged, emits nothing and
  leaves the state alone; every emitted metric conforms to the type dictionary and has the instances of
  its plugin.
\<close>

locale reader_contract =
  fixes read :: reader_fn and pairs :: "(string \<times> string) set"
  assumes rc_cases: "read env base s = Some (rc, es, s') \<Longrightarrow> rc = 0 \<or> rc = - 1"
    and error_silent: "read env base s = Some (- 1, es, s') \<Longrightarrow>
      emitted es = [] \<and> es \<noteq> [] \<and> s' = s"
    and emits_ok: "read env base s = Some (rc, es, s') \<Longrightarrow> m \<in> set (emitted es) \<Longrightarrow>
      metric_ok pairs m"
begin

lemma emits_dictionary:
  assumes "read env base s = Some (rc, es, s')" "m \<in> set (emitted es)"
  shows "\<exists>d. types_lookup (type m) = Some d \<and> td_ds_count d = ds_count m
    \<and> int (length (vals m)) = ds_count m"
  using emits_ok [OF assms] types_lookup_ok type_def_ok_count
  by (fastforce simp: metric_ok_def)

lemma emits_only_on_success:
  "read env base s = Some (rc, es, s') \<Longrightarrow> emitted es \<noteq> [] \<Longrightarrow> rc = 0"
  using rc_cases error_silent by blast

end

end
