(* ===== verification/ReaderCpu.thy ===== *)
theory ReaderCpu
  imports ReaderBase
begin

text \<open>
  \<^verbatim>\<open>src/readers/cpu.c\<close>: busy percentage between two samples of the aggregate line of
  \<^verbatim>\<open>/proc/stat\<close>.
\<close>

definition cpu_format :: "dir list" where
  "cpu_format = [Lit (CHR ''c''), Lit (CHR ''p''), Lit (CHR ''u'')] @ concat (replicate 10 [Ws, Long])"

fun cpu_scan :: "string list \<Rightarrow> int list option" where
  \<comment> \<open>the ten fields of the first aggregate line, unread ones 0\<close>
  "cpu_scan [] = None"
| "cpu_scan (line # rest) =
     (if starts_with line ''cpu '' then
        (case sscanf cpu_format line of (n, vs) \<Rightarrow>
           if 4 \<le> n then Some (map long_of vs @ replicate (10 - length vs) 0) else None)
      else cpu_scan rest)"

definition cpu_total :: "int list \<Rightarrow> int option" where
  "cpu_total f = lsum (f ! 0) [f ! 1, f ! 2, f ! 3, f ! 4, f ! 5, f ! 6, f ! 7, f ! 8, f ! 9]"

definition cpu_busy :: "int list \<Rightarrow> int \<Rightarrow> int option" where
  "cpu_busy f tot = do { a \<leftarrow> chk_long (tot - f ! 3); chk_long (a - f ! 4) }"

definition percent :: "int \<Rightarrow> int \<Rightarrow> double" where
  \<comment> \<open>\<open>100.0 * (double)a / (double)b\<close>\<close>
  "percent a b = ddiv (dmul (double_of_int 100) (double_of_int a)) (double_of_int b)"

definition cpu_metric :: "double \<Rightarrow> metric" where
  "cpu_metric pct =
     \<lparr>plugin = Some ''cpu'', plugin_instance = Some ''total'', type = Some ''percent'',
      type_instance = Some ''active'', ds_count = 1, vals = [pct]\<rparr>"

definition cpu_emit :: "rstate \<Rightarrow> int \<Rightarrow> int \<Rightarrow> event list option" where
  "cpu_emit s busy tot =
     (if 0 \<le> prev_busy s then
        do { dt \<leftarrow> chk_long (tot - prev_total s);
             if 0 < dt
             then do { db \<leftarrow> chk_long (busy - prev_busy s); Some [Emit (cpu_metric (percent db dt))] }
             else Some [] }
      else Some [])"

definition cpu_read :: reader_fn where
  "cpu_read env base s =
     (let path = snprintf_buf 1024 (base @ ''/stat'')
      in case os_fopen env path of
           Inl e \<Rightarrow> Some (- 1, [Log (log_errno ''cpu'' path e)], s)
         | Inr content \<Rightarrow>
             (case cpu_scan (fgets_lines 512 content) of
                None \<Rightarrow> Some (- 1, [Log (log_err ''cpu''
                  (path @ '': no aggregate '' @ [CHR 0x27] @ ''cpu '' @ [CHR 0x27] @ '' line found''))], s)
              | Some f \<Rightarrow>
                  do { tot \<leftarrow> cpu_total f;
                       busy \<leftarrow> cpu_busy f tot;
                       es \<leftarrow> cpu_emit s busy tot;
                       Some (0, es, s\<lparr>prev_busy := busy, prev_total := tot\<rparr>) }))"

section \<open>Contract\<close>

lemma cpu_emit_emitted: "cpu_emit s b t = Some es \<Longrightarrow> m \<in> set (emitted es) \<Longrightarrow> \<exists>p. m = cpu_metric p"
  by (auto simp: cpu_emit_def bind_eq_Some_conv split: if_splits)

lemma cpu_metric_ok: "metric_ok {(''cpu'', ''percent'')} (cpu_metric p)"
  by (simp add: metric_ok_defs cpu_metric_def ds_tables)

interpretation cpu: reader_contract cpu_read "{(''cpu'', ''percent'')}"
proof unfold_locales
  fix env base s rc es s'
  assume r: "cpu_read env base s = Some (rc, es, s')"
  then show "rc = 0 \<or> rc = - 1"
    by (auto simp: cpu_read_def Let_def bind_eq_Some_conv split: sum.splits option.splits)
next
  fix env base s es s'
  assume "cpu_read env base s = Some (- 1, es, s')"
  then show "emitted es = [] \<and> es \<noteq> [] \<and> s' = s"
    by (auto simp: cpu_read_def Let_def bind_eq_Some_conv split: sum.splits option.splits)
next
  fix env base s rc es s' m
  assume "cpu_read env base s = Some (rc, es, s')" "m \<in> set (emitted es)"
  then obtain p where "m = cpu_metric p"
    by (auto simp: cpu_read_def Let_def bind_eq_Some_conv split: sum.splits option.splits
        dest!: cpu_emit_emitted)
  then show "metric_ok {(''cpu'', ''percent'')} m" by (simp add: cpu_metric_ok)
qed

section \<open>The percentage\<close>

lemma representable_100: "representable 100"
  using representable_nat [of 100] by simp

lemma percent_range:
  assumes "0 \<le> a" "a \<le> b" "0 < b" "100 * b \<le> 2 ^ 53"
  shows "isfinite (percent a b) \<and> 0 \<le> dval (percent a b) \<and> dval (percent a b) \<le> 100"
proof -
  obtain m1 e1 where h: "double_of_int 100 = Finite False m1 e1" "real m1 * 2 powi e1 = 100"
    using double_of_int_exact(1) [of 100] by auto
  obtain m2 e2 where a: "double_of_int a = Finite False m2 e2" "real m2 * 2 powi e2 = real_of_int a"
    using double_of_int_exact(1) [of a] assms by auto
  obtain m3 e3 where b: "double_of_int b = Finite False m3 e3" "real m3 * 2 powi e3 = real_of_int b"
    using double_of_int_exact(1) [of b] assms by auto
  have "representable (real (nat (100 * a)))" using assms by (intro representable_nat) simp
  then have "representable (real m1 * 2 powi e1 * (real m2 * 2 powi e2))"
    using assms(1) by (simp add: h(2) a(2))
  from dmul_exact [OF h(1) a(1) this] obtain m4 e4 where
    p: "dmul (double_of_int 100) (double_of_int a) = Finite False m4 e4"
       "real m4 * 2 powi e4 = 100 * real_of_int a"
    using h(2) a(2) by auto
  have m3: "0 < m3" using b(2) assms(3) by (cases "m3 = 0") auto
  show ?thesis
  proof (cases "a = 0")
    case True
    then have "m4 = 0" using p(2) by simp
    then show ?thesis using m3 by (simp add: percent_def p(1) b(1) round_ratio_def dval_def)
  next
    case False
    then have m4: "0 < m4" using p(2) assms(1) by (cases "m4 = 0") auto
    have "real m4 * 2 powi e4 / (real m3 * 2 powi e3) \<le> 100"
      using assms by (simp add: p(2) b(2) divide_le_eq)
    from ddiv_le [OF p(1) b(1) m4 m3 representable_100 this] m3 show ?thesis
      by (simp add: percent_def b(1) p(1) dval_round_ratio_nonneg)
  qed
qed

text \<open>With fields below \<open>2^59\<close> in magnitude no sum of the reader overflows.\<close>

lemma cpu_scan_length: "cpu_scan ls = Some f \<Longrightarrow> 10 \<le> length f"
  by (induction ls) (auto split: if_splits prod.splits)

lemma cpu_total_defined:
  assumes "length f = 10" "\<forall>x \<in> set f. \<bar>x\<bar> \<le> 2 ^ 59"
  shows "cpu_total f = Some (sum_list f)"
proof -
  obtain a b c d e g h i j k where f: "f = [a, b, c, d, e, g, h, i, j, k]"
    using assms(1) by (auto simp: numeral_eq_Suc length_Suc_conv)
  then show ?thesis
    using assms(2) lsum_sum [of a "[b, c, d, e, g, h, i, j, k]"]
    by (simp add: cpu_total_def LONG_MAX_def)
qed

definition idle_of :: "int list \<Rightarrow> int" where
  "idle_of f = f ! 3 + f ! 4"

definition fields_ok :: "int list \<Rightarrow> bool" where
  \<comment> \<open>ten counters of a plausible size: \<open>2^40\<close> ticks are more than three centuries\<close>
  "fields_ok f \<longleftrightarrow> length f = 10 \<and> list_all (\<lambda>x. 0 \<le> x \<and> x \<le> 2 ^ 40) f"

lemma fields_sum:
  assumes "fields_ok f"
  shows "cpu_total f = Some (sum_list f)" "cpu_busy f (sum_list f) = Some (sum_list f - idle_of f)"
    "0 \<le> idle_of f" "idle_of f \<le> sum_list f" "sum_list f \<le> 10 * 2 ^ 40"
proof -
  obtain a b c d e g h i j k where f: "f = [a, b, c, d, e, g, h, i, j, k]"
    using assms by (auto simp: fields_ok_def numeral_eq_Suc length_Suc_conv)
  show "cpu_total f = Some (sum_list f)"
    using assms by (intro cpu_total_defined) (auto simp: fields_ok_def list_all_iff)
  show "0 \<le> idle_of f" "idle_of f \<le> sum_list f" "sum_list f \<le> 10 * 2 ^ 40"
    using assms by (simp_all add: f fields_ok_def idle_of_def)
  show "cpu_busy f (sum_list f) = Some (sum_list f - idle_of f)"
    using assms by (simp add: f fields_ok_def idle_of_def cpu_busy_def chk_long_def in_long_def LONG_MIN_def LONG_MAX_def)
qed

lemma cpu_read_sample:
  assumes "os_fopen env (snprintf_buf 1024 (base @ ''/stat'')) = Inr c"
    "cpu_scan (fgets_lines 512 c) = Some f" "fields_ok f"
    "cpu_emit s (sum_list f - idle_of f) (sum_list f) = Some es"
  shows "cpu_read env base s =
     Some (0, es, s\<lparr>prev_busy := sum_list f - idle_of f, prev_total := sum_list f\<rparr>)"
  using assms fields_sum [OF assms(3)] by (simp add: cpu_read_def Let_def)

lemma cpu_emit_first: "prev_busy s < 0 \<Longrightarrow> cpu_emit s b t = Some []"
  by (simp add: cpu_emit_def)

lemma cpu_emit_next:
  assumes "0 \<le> prev_busy s" "prev_total s < t" "0 \<le> b" "b \<le> t" "prev_busy s \<le> prev_total s" "t \<le> 10 * 2 ^ 40"
  shows "cpu_emit s b t = Some [Emit (cpu_metric (percent (b - prev_busy s) (t - prev_total s)))]"
  using assms by (simp add: cpu_emit_def chk_long_def in_long_def LONG_MIN_def LONG_MAX_def)

lemma cpu_two_samples:
  assumes "os_fopen env1 (snprintf_buf 1024 (base @ ''/stat'')) = Inr c1"
    "cpu_scan (fgets_lines 512 c1) = Some f1" "fields_ok f1"
    "os_fopen env2 (snprintf_buf 1024 (base @ ''/stat'')) = Inr c2"
    "cpu_scan (fgets_lines 512 c2) = Some f2" "fields_ok f2"
    "sum_list f1 < sum_list f2" "idle_of f1 \<le> idle_of f2"
    "sum_list f1 - idle_of f1 \<le> sum_list f2 - idle_of f2"
  shows "\<exists>s1 s2 p. cpu_read env1 base rstate_init = Some (0, [], s1)
     \<and> cpu_read env2 base s1 = Some (0, [Emit (cpu_metric p)], s2)
     \<and> p = percent ((sum_list f2 - idle_of f2) - (sum_list f1 - idle_of f1)) (sum_list f2 - sum_list f1)
     \<and> isfinite p \<and> 0 \<le> dval p \<and> dval p \<le> 100"
proof -
  let ?b1 = "sum_list f1 - idle_of f1" and ?b2 = "sum_list f2 - idle_of f2"
  let ?s1 = "rstate_init\<lparr>prev_busy := ?b1, prev_total := sum_list f1\<rparr>"
  note f1 = fields_sum [OF assms(3)] and f2 = fields_sum [OF assms(6)]
  have r1: "cpu_read env1 base rstate_init = Some (0, [], ?s1)"
    by (rule cpu_read_sample [OF assms(1-3)]) (simp add: cpu_emit_first rstate_init_def)
  have "cpu_emit ?s1 ?b2 (sum_list f2) =
      Some [Emit (cpu_metric (percent (?b2 - prev_busy ?s1) (sum_list f2 - prev_total ?s1)))]"
    using f1 f2 assms(7) by (intro cpu_emit_next) simp_all
  then have r2: "cpu_read env2 base ?s1 = Some (0, [Emit (cpu_metric (percent (?b2 - ?b1) (sum_list f2 - sum_list f1)))],
      ?s1\<lparr>prev_busy := ?b2, prev_total := sum_list f2\<rparr>)"
    using cpu_read_sample [OF assms(4-6)] by simp
  have "100 * (sum_list f2 - sum_list f1) \<le> 2 ^ 53" using f1 f2 by simp
  then have "isfinite (percent (?b2 - ?b1) (sum_list f2 - sum_list f1))
      \<and> 0 \<le> dval (percent (?b2 - ?b1) (sum_list f2 - sum_list f1))
      \<and> dval (percent (?b2 - ?b1) (sum_list f2 - sum_list f1)) \<le> 100"
    using assms(7-9) by (intro percent_range) simp_all
  with r1 r2 show ?thesis by blast
qed

end
