(* ===== verification/ReaderSys.thy ===== *)
theory ReaderSys
  imports ReaderCpu
begin

text \<open>
  The readers of single files with system-wide values: \<^verbatim>\<open>src/readers/load.c\<close>,
  \<^verbatim>\<open>uptime.c\<close>, \<^verbatim>\<open>memory.c\<close> and \<^verbatim>\<open>swap.c\<close>.
\<close>

section \<open>Load average\<close>

definition load_metric :: "double list \<Rightarrow> metric" where
  "load_metric vs =
     \<lparr>plugin = Some ''load'', plugin_instance = None, type = Some ''load'',
      type_instance = None, ds_count = 3, vals = vs\<rparr>"

fun dbl_of :: "sval \<Rightarrow> double" where
  "dbl_of (SDbl d) = d"
| "dbl_of _ = NaN False"

definition load_read :: reader_fn where
  "load_read env base s =
     (let path = snprintf_buf 1024 (base @ ''/loadavg'')
      in case os_fopen env path of
           Inl e \<Rightarrow> Some (- 1, [Log (log_errno ''load'' path e)], s)
         | Inr content \<Rightarrow>
             (case fscanf [Dbl, Ws, Dbl, Ws, Dbl] content of (n, vs) \<Rightarrow>
                if n \<noteq> 3
                then Some (- 1, [Log (log_err ''load'' (path @ '': expected 3 fields, got '' @ show_int n))], s)
                else Some (0, [Emit (load_metric (map dbl_of vs))], s)))"

section \<open>Uptime\<close>

definition uptime_metric :: "double \<Rightarrow> metric" where
  "uptime_metric up =
     \<lparr>plugin = Some ''uptime'', plugin_instance = None, type = Some ''uptime'',
      type_instance = None, ds_count = 1, vals = [up]\<rparr>"

definition uptime_read :: reader_fn where
  "uptime_read env base s =
     (let path = snprintf_buf 1024 (base @ ''/uptime'')
      in case os_fopen env path of
           Inl e \<Rightarrow> Some (- 1, [Log (log_errno ''uptime'' path e)], s)
         | Inr content \<Rightarrow>
             (case fscanf [Dbl] content of (n, vs) \<Rightarrow>
                if n \<noteq> 1
                then Some (- 1, [Log (log_err ''uptime'' (path @ '': cannot parse uptime seconds''))], s)
                else Some (0, [Emit (uptime_metric (dbl_of (hd vs)))], s)))"

section \<open>Memory\<close>

definition meminfo_val :: "string \<Rightarrow> int option" where
  \<comment> \<open>\<open>sscanf(line, "%*s %ld", &val) == 1\<close>\<close>
  "meminfo_val line =
     (case sscanf [SkipStr, Ws, Long] line of (n, vs) \<Rightarrow> if n = 1 then Some (long_of (hd vs)) else None)"

record meminfo =
  mem_total :: int
  mem_free :: int
  buffers :: int
  cached :: int

definition memory_line :: "string \<Rightarrow> meminfo \<Rightarrow> meminfo" where
  "memory_line line mi =
     (let val = meminfo_val line in
      if starts_with line ''MemTotal:'' \<and> val \<noteq> None then mi\<lparr>mem_total := the val\<rparr>
      else if starts_with line ''MemFree:'' \<and> val \<noteq> None then mi\<lparr>mem_free := the val\<rparr>
      else if starts_with line ''Buffers:'' \<and> val \<noteq> None then mi\<lparr>buffers := the val\<rparr>
      else if starts_with line ''Cached:'' \<and> val \<noteq> None then mi\<lparr>cached := the val\<rparr>
      else mi)"

definition memory_metric :: "string \<Rightarrow> double \<Rightarrow> metric" where
  "memory_metric ti v =
     \<lparr>plugin = Some ''memory'', plugin_instance = None, type = Some ''percent'',
      type_instance = Some ti, ds_count = 1, vals = [v]\<rparr>"

definition memory_read :: reader_fn where
  "memory_read env base s =
     (let path = snprintf_buf 1024 (base @ ''/meminfo'')
      in case os_fopen env path of
           Inl e \<Rightarrow> Some (- 1, [Log (log_errno ''memory'' path e)], s)
         | Inr content \<Rightarrow>
             (let mi = fold memory_line (fgets_lines 256 content)
                         \<lparr>mem_total = - 1, mem_free = 0, buffers = 0, cached = 0\<rparr>
              in if mem_total mi \<le> 0
                 then Some (- 1, [Log (log_err ''memory'' (path @ '': MemTotal missing or non-positive''))], s)
                 else do { a \<leftarrow> chk_long (mem_total mi - mem_free mi);
                           b \<leftarrow> chk_long (a - buffers mi);
                           used \<leftarrow> chk_long (b - cached mi);
                           Some (0,
                             [Emit (memory_metric ''used'' (percent used (mem_total mi))),
                              Emit (memory_metric ''cached'' (percent (cached mi) (mem_total mi))),
                              Emit (memory_metric ''buffered'' (percent (buffers mi) (mem_total mi)))], s) }))"

section \<open>Swap\<close>

record swapinfo =
  swap_total :: int
  swap_free :: int

definition swap_line :: "string \<Rightarrow> swapinfo \<Rightarrow> swapinfo" where
  "swap_line line si =
     (let val = meminfo_val line in
      if starts_with line ''SwapTotal:'' \<and> val \<noteq> None then si\<lparr>swap_total := the val\<rparr>
      else if starts_with line ''SwapFree:'' \<and> val \<noteq> None then si\<lparr>swap_free := the val\<rparr>
      else si)"

definition swap_metric :: "string \<Rightarrow> double \<Rightarrow> metric" where
  "swap_metric ti v =
     \<lparr>plugin = Some ''swap'', plugin_instance = None, type = Some ''swap'',
      type_instance = Some ti, ds_count = 1, vals = [v]\<rparr>"

definition swap_read :: reader_fn where
  "swap_read env base s =
     (let path = snprintf_buf 1024 (base @ ''/meminfo'')
      in case os_fopen env path of
           Inl e \<Rightarrow> Some (- 1, [Log (log_errno ''swap'' path e)], s)
         | Inr content \<Rightarrow>
             (let si = fold swap_line (fgets_lines 256 content) \<lparr>swap_total = - 1, swap_free = 0\<rparr>
              in if swap_total si \<le> 0
                 then Some (- 1, [Log (log_err ''swap'' (path @ '': SwapTotal missing or non-positive''))], s)
                 else do { used \<leftarrow> chk_long (swap_total si - swap_free si);
                           Some (0,
                             [Emit (swap_metric ''used'' (dmul (double_of_int used) (double_of_int 1024))),
                              Emit (swap_metric ''free'' (dmul (double_of_int (swap_free si)) (double_of_int 1024)))], s) }))"

section \<open>Contracts\<close>

text \<open>How many values a successful \<open>scanf\<close> assigns.\<close>

lemma fscanf_length: "fscanf ds s = (n, vs) \<Longrightarrow> 0 \<le> n \<Longrightarrow> length vs = nat n"
  by (auto simp: fscanf_def split: prod.splits if_splits)

lemmas sys_reader_simps = Let_def bind_eq_Some_conv metric_ok_defs ds_tables

interpretation load: reader_contract load_read "{(''load'', ''load'')}"
  by unfold_locales
    (auto simp: load_read_def load_metric_def sys_reader_simps split: sum.splits prod.splits if_splits
      dest: fscanf_length)

interpretation uptime: reader_contract uptime_read "{(''uptime'', ''uptime'')}"
  by unfold_locales
    (auto simp: uptime_read_def uptime_metric_def sys_reader_simps split: sum.splits prod.splits if_splits)

interpretation memory: reader_contract memory_read "{(''memory'', ''percent'')}"
  by unfold_locales
    (auto simp: memory_read_def memory_metric_def sys_reader_simps split: sum.splits if_splits)

interpretation swap: reader_contract swap_read "{(''swap'', ''swap'')}"
  by unfold_locales
    (auto simp: swap_read_def swap_metric_def sys_reader_simps split: sum.splits if_splits)

section \<open>Memory percentages\<close>

definition meminfo_of :: "string \<Rightarrow> meminfo" where
  "meminfo_of content =
     fold memory_line (fgets_lines 256 content) \<lparr>mem_total = - 1, mem_free = 0, buffers = 0, cached = 0\<rparr>"

definition mem_used :: "meminfo \<Rightarrow> int" where
  "mem_used mi = mem_total mi - mem_free mi - buffers mi - cached mi"

definition meminfo_ok :: "meminfo \<Rightarrow> bool" where
  \<comment> \<open>the parts are non-negative, fit the total, and the total is at most \<open>2^46\<close> kB\<close>
  "meminfo_ok mi \<longleftrightarrow> 0 < mem_total mi \<and> mem_total mi \<le> 2 ^ 46 \<and> 0 \<le> mem_free mi \<and> 0 \<le> buffers mi
     \<and> 0 \<le> cached mi \<and> 0 \<le> mem_used mi"

lemma memory_read_ok:
  assumes "os_fopen env (snprintf_buf 1024 (base @ ''/meminfo'')) = Inr content" "meminfo_ok (meminfo_of content)"
  shows "memory_read env base s = Some (0,
     [Emit (memory_metric ''used'' (percent (mem_used (meminfo_of content)) (mem_total (meminfo_of content)))),
      Emit (memory_metric ''cached'' (percent (cached (meminfo_of content)) (mem_total (meminfo_of content)))),
      Emit (memory_metric ''buffered'' (percent (buffers (meminfo_of content)) (mem_total (meminfo_of content))))], s)"
proof -
  let ?m = "meminfo_of content"
  have "chk_long (mem_total ?m - mem_free ?m) = Some (mem_total ?m - mem_free ?m)"
    "chk_long (mem_total ?m - mem_free ?m - buffers ?m) = Some (mem_total ?m - mem_free ?m - buffers ?m)"
    "chk_long (mem_total ?m - mem_free ?m - buffers ?m - cached ?m) = Some (mem_used ?m)"
    using assms(2) by (simp_all add: chk_long_def in_long_def LONG_MIN_def LONG_MAX_def meminfo_ok_def mem_used_def)
  then show ?thesis
    using assms by (simp add: memory_read_def Let_def meminfo_ok_def flip: meminfo_of_def)
qed

end
