(* ===== verification/ReaderNet.thy ===== *)
theory ReaderNet
  imports ReaderBase
begin

text \<open>
  \<^verbatim>\<open>src/readers/interface.c\<close> (counters of the network interfaces) and
  \<^verbatim>\<open>src/readers/tcpconns.c\<close> (TCP sockets by state).
\<close>

section \<open>Interfaces\<close>

definition interface_format :: "dir list" where
  "interface_format = Long # concat (replicate 15 [Ws, Long])"

definition interface_metric :: "string \<Rightarrow> string \<Rightarrow> int \<Rightarrow> int \<Rightarrow> metric" where
  "interface_metric iface t rx tx =
     \<lparr>plugin = Some ''interface'', plugin_instance = Some iface, type = Some t,
      type_instance = None, ds_count = 2, vals = [double_of_int rx, double_of_int tx]\<rparr>"

definition interface_line :: "string \<Rightarrow> metric list" where
  \<comment> \<open>one iteration of the loop, after the two header lines\<close>
  "interface_line line =
     (let p = dropWhile (\<lambda>c. c = CHR '' '' \<or> c = TAB) line
      in case strchr p (CHR '':'') of
           None \<Rightarrow> []
         | Some colon \<Rightarrow>
             (let len = length p - length colon;
                  iface = take len p
              in if len = 0 \<or> 64 \<le> len then []
                 else if iface = ''lo'' then []
                 else case sscanf interface_format (tl colon) of (n, vs) \<Rightarrow>
                   if n < 11 then []
                   else (let fld = map long_of vs
                         in [interface_metric iface ''if_octets'' (fld ! 0) (fld ! 8),
                             interface_metric iface ''if_packets'' (fld ! 1) (fld ! 9),
                             interface_metric iface ''if_errors'' (fld ! 2) (fld ! 10)])))"

definition interface_read :: reader_fn where
  "interface_read env base s =
     (let path = snprintf_buf 1024 (base @ ''/net/dev'')
      in case os_fopen env path of
           Inl e \<Rightarrow> Some (- 1, [Log (log_errno ''interface'' path e)], s)
         | Inr content \<Rightarrow>
             Some (0, map Emit (concat (map interface_line (drop 2 (fgets_lines 512 content)))), s))"

section \<open>TCP connections\<close>

definition TCP_STATE_NAMES :: "string list" where
  "TCP_STATE_NAMES =
     [[], ''ESTABLISHED'', ''SYN_SENT'', ''SYN_RECV'', ''FIN_WAIT1'', ''FIN_WAIT2'',
      ''TIME_WAIT'', ''CLOSE'', ''CLOSE_WAIT'', ''LAST_ACK'', ''LISTEN'', ''CLOSING'']"

definition TCP_STATE_MAX :: nat where
  "TCP_STATE_MAX = length TCP_STATE_NAMES"

fun hex_of :: "sval \<Rightarrow> 32 word" where
  "hex_of (SHex w) = w"
| "hex_of _ = 0"

definition tcp_state :: "string \<Rightarrow> nat option" where
  \<comment> \<open>the state of a socket line, if it parses and is a known state\<close>
  "tcp_state line =
     (case sscanf [Ws, SkipStr, Ws, SkipStr, Ws, SkipStr, Ws, Hex] line of (n, vs) \<Rightarrow>
        if n \<noteq> 1 then None
        else (let st = unat (hex_of (hd vs))
              in if st < 1 \<or> TCP_STATE_MAX \<le> st then None else Some st))"

definition tcp_count_line :: "string \<Rightarrow> int list \<Rightarrow> int list" where
  "tcp_count_line line cnt =
     (case tcp_state line of None \<Rightarrow> cnt | Some st \<Rightarrow> cnt[st := cnt ! st + 1])"

definition tcp_file :: "osenv \<Rightarrow> string \<Rightarrow> string \<Rightarrow> int list \<times> nat \<times> event list \<Rightarrow> int list \<times> nat \<times> event list" where
  "tcp_file env base f acc =
     (case acc of (cnt, opened, es) \<Rightarrow>
        let path = snprintf_buf 1024 (base @ f)
        in case os_fopen env path of
             Inl e \<Rightarrow> (cnt, opened, es @ [Log (log_errno ''tcpconns'' path e)])
           | Inr content \<Rightarrow>
               (fold tcp_count_line (drop 1 (fgets_lines 512 content)) cnt, opened + 1, es))"

definition FILES :: "string list" where
  "FILES = [''/net/tcp'', ''/net/tcp6'']"

definition tcp_scan :: "osenv \<Rightarrow> string \<Rightarrow> int list \<times> nat \<times> event list" where
  "tcp_scan env base = fold (tcp_file env base) FILES (replicate TCP_STATE_MAX 0, 0, [])"

definition tcp_metric :: "string \<Rightarrow> int \<Rightarrow> metric" where
  "tcp_metric st n =
     \<lparr>plugin = Some ''tcpconns'', plugin_instance = None, type = Some ''tcp_connections'',
      type_instance = Some st, ds_count = 1, vals = [double_of_int n]\<rparr>"

definition tcp_emit :: "int list \<Rightarrow> metric list" where
  "tcp_emit cnt =
     concat (map (\<lambda>i. if cnt ! i \<le> 0 then [] else [tcp_metric (TCP_STATE_NAMES ! i) (cnt ! i)])
       [1..<TCP_STATE_MAX])"

definition tcpconns_read :: reader_fn where
  "tcpconns_read env base s =
     (case tcp_scan env base of
        (cnt, opened, es) \<Rightarrow>
          if opened = 0
          then Some (- 1, es @ [Log (log_err ''tcpconns''
                 (''neither '' @ base @ ''/net/tcp nor '' @ base @ ''/net/tcp6 could be opened''))], s)
          else Some (0, es @ map Emit (tcp_emit cnt), s))"

section \<open>Contracts\<close>

definition interface_pairs :: "(string \<times> string) set" where
  "interface_pairs = {(''interface'', ''if_octets''), (''interface'', ''if_packets''), (''interface'', ''if_errors'')}"

lemma interface_line_ok: "m \<in> set (interface_line line) \<Longrightarrow> metric_ok interface_pairs m"
  by (auto simp: interface_line_def interface_metric_def interface_pairs_def metric_ok_defs ds_tables Let_def
      split: option.splits if_splits prod.splits)

interpretation interface: reader_contract interface_read interface_pairs
  by unfold_locales
    (auto simp: interface_read_def Let_def interface_line_ok split: sum.splits)

lemma tcp_file_emitted: "emitted (snd (snd (tcp_file env base f acc))) = emitted (snd (snd acc))"
  by (auto simp: tcp_file_def Let_def split: prod.splits sum.splits)

lemma tcp_emit_ok: "m \<in> set (tcp_emit cnt) \<Longrightarrow> metric_ok {(''tcpconns'', ''tcp_connections'')} m"
  by (auto simp: tcp_emit_def tcp_metric_def metric_ok_defs ds_tables split: if_splits)

lemma tcp_scan_emitted:
  assumes "tcp_scan env base = (cnt, opened, es)"
  shows "emitted es = []"
proof -
  have "emitted (snd (snd (fold (tcp_file env base) fs acc))) = emitted (snd (snd acc))" for fs acc
    by (induction fs arbitrary: acc) (simp_all add: tcp_file_emitted)
  from this [of FILES "(replicate TCP_STATE_MAX 0, 0, [])"] assms show ?thesis
    by (simp add: tcp_scan_def)
qed

interpretation tcpconns: reader_contract tcpconns_read "{(''tcpconns'', ''tcp_connections'')}"
  by unfold_locales
    (auto simp: tcpconns_read_def tcp_emit_ok split: prod.splits if_splits dest!: tcp_scan_emitted)

section \<open>Socket counts\<close>

text \<open>The counters after a file: each known state is counted once per line that has it.\<close>

lemma fold_tcp_count_line:
  assumes "length cnt = TCP_STATE_MAX" "i < TCP_STATE_MAX"
  shows "fold tcp_count_line ls cnt ! i
      = cnt ! i + int (length (filter (\<lambda>l. tcp_state l = Some i) ls))"
    and "length (fold tcp_count_line ls cnt) = TCP_STATE_MAX"
proof -
  have lt: "tcp_state l = Some st \<Longrightarrow> st < TCP_STATE_MAX" for l st
    by (auto simp: tcp_state_def Let_def split: prod.splits if_splits)
  have len: "length (tcp_count_line l c) = length c" for l c
    by (simp add: tcp_count_line_def split: option.splits)
  show "length (fold tcp_count_line ls cnt) = TCP_STATE_MAX"
    using assms(1) by (induction ls arbitrary: cnt) (simp_all add: len)
  show "fold tcp_count_line ls cnt ! i
      = cnt ! i + int (length (filter (\<lambda>l. tcp_state l = Some i) ls))"
    using assms
  proof (induction ls arbitrary: cnt)
    case Nil
    then show ?case by simp
  next
    case (Cons l ls)
    have "tcp_count_line l cnt ! i = cnt ! i + (if tcp_state l = Some i then 1 else 0)"
      using Cons.prems by (auto simp: tcp_count_line_def nth_list_update split: option.splits)
    then show ?case using Cons by (simp add: len)
  qed
qed

definition tcp_lines :: "osenv \<Rightarrow> string \<Rightarrow> string \<Rightarrow> string list" where
  "tcp_lines env base f =
     (case os_fopen env (snprintf_buf 1024 (base @ f)) of
        Inl _ \<Rightarrow> [] | Inr content \<Rightarrow> drop 1 (fgets_lines 512 content))"

definition tcp_sockets :: "osenv \<Rightarrow> string \<Rightarrow> nat \<Rightarrow> nat" where
  \<comment> \<open>the sockets in state \<open>i\<close> listed by both files\<close>
  "tcp_sockets env base i =
     length (filter (\<lambda>l. tcp_state l = Some i)
       (tcp_lines env base ''/net/tcp'' @ tcp_lines env base ''/net/tcp6''))"

lemma tcp_file_cnt:
  assumes "length (fst acc) = TCP_STATE_MAX"
  shows "fst (tcp_file env base f acc) = fold tcp_count_line (tcp_lines env base f) (fst acc)"
  by (auto simp: tcp_file_def tcp_lines_def Let_def split: prod.splits sum.splits)

lemma tcpconns_counts:
  assumes "tcpconns_read env base s = Some (0, es, s')"
  shows "emitted es = concat (map (\<lambda>i. if tcp_sockets env base i = 0 then []
      else [tcp_metric (TCP_STATE_NAMES ! i) (int (tcp_sockets env base i))]) [1..<TCP_STATE_MAX])"
proof -
  let ?z = "replicate TCP_STATE_MAX 0 :: int list"
  let ?c = "fold tcp_count_line (tcp_lines env base ''/net/tcp'' @ tcp_lines env base ''/net/tcp6'') ?z"
  have "length (fold tcp_count_line ls ?z) = TCP_STATE_MAX" for ls
    by (rule fold_tcp_count_line(2) [of _ 0]) (simp_all add: TCP_STATE_MAX_def TCP_STATE_NAMES_def)
  then have c: "fst (tcp_scan env base) = ?c"
    by (simp add: tcp_scan_def FILES_def tcp_file_cnt)
  obtain cnt opened l where acc: "tcp_scan env base = (cnt, opened, l)" by (metis prod.exhaust)
  have em: "emitted es = tcp_emit cnt"
    using assms acc tcp_scan_emitted [OF acc] by (auto simp: tcpconns_read_def split: if_splits)
  have nth: "cnt ! i = int (tcp_sockets env base i)" if "i < TCP_STATE_MAX" for i
  proof -
    have "cnt = ?c" using acc c by simp
    then show ?thesis
      using fold_tcp_count_line(1) [of ?z i "tcp_lines env base ''/net/tcp'' @ tcp_lines env base ''/net/tcp6''"] that
      by (simp add: tcp_sockets_def)
  qed
  have "map (\<lambda>i. if cnt ! i \<le> 0 then [] else [tcp_metric (TCP_STATE_NAMES ! i) (cnt ! i)]) [1..<TCP_STATE_MAX]
      = map (\<lambda>i. if tcp_sockets env base i = 0 then []
          else [tcp_metric (TCP_STATE_NAMES ! i) (int (tcp_sockets env base i))]) [1..<TCP_STATE_MAX]"
    by (rule map_cong [OF refl]) (simp add: nth)
  then show ?thesis by (simp only: em tcp_emit_def)
qed

end
