(* ===== verification/ReaderDisk.thy ===== *)
theory ReaderDisk
  imports ReaderBase
begin

text \<open>
  \<^verbatim>\<open>src/readers/disk.c\<close> (I/O counters of whole disks) and \<^verbatim>\<open>src/readers/df.c\<close> (space of
  mounted file systems). The device filter of \<open>disk.c\<close> is a POSIX extended regular
  expression; it is modelled as a regular expression with its language, matched by
  derivatives.
\<close>

section \<open>Regular expressions\<close>

datatype regex = RNone | REps | RSet "char list" | RSeq regex regex | RAlt regex regex | RStar regex

fun nullable :: "regex \<Rightarrow> bool" where
  "nullable RNone = False"
| "nullable REps = True"
| "nullable (RSet cs) = False"
| "nullable (RSeq r q) = (nullable r \<and> nullable q)"
| "nullable (RAlt r q) = (nullable r \<or> nullable q)"
| "nullable (RStar r) = True"

fun deriv :: "char \<Rightarrow> regex \<Rightarrow> regex" where
  "deriv c RNone = RNone"
| "deriv c REps = RNone"
| "deriv c (RSet cs) = (if c \<in> set cs then REps else RNone)"
| "deriv c (RSeq r q) = (if nullable r then RAlt (RSeq (deriv c r) q) (deriv c q) else RSeq (deriv c r) q)"
| "deriv c (RAlt r q) = RAlt (deriv c r) (deriv c q)"
| "deriv c (RStar r) = RSeq (deriv c r) (RStar r)"

fun rmatches :: "regex \<Rightarrow> string \<Rightarrow> bool" where
  "rmatches r [] = nullable r"
| "rmatches r (c # s) = rmatches (deriv c r) s"

inductive in_lang :: "regex \<Rightarrow> string \<Rightarrow> bool" where
  "in_lang REps []"
| "c \<in> set cs \<Longrightarrow> in_lang (RSet cs) [c]"
| "in_lang r u \<Longrightarrow> in_lang q v \<Longrightarrow> in_lang (RSeq r q) (u @ v)"
| "in_lang r u \<Longrightarrow> in_lang (RAlt r q) u"
| "in_lang q u \<Longrightarrow> in_lang (RAlt r q) u"
| "in_lang (RStar r) []"
| "in_lang r u \<Longrightarrow> in_lang (RStar r) v \<Longrightarrow> in_lang (RStar r) (u @ v)"

inductive_cases RNoneE [elim!]: "in_lang RNone w"
inductive_cases REpsE [elim!]: "in_lang REps w"
inductive_cases RSetE [elim!]: "in_lang (RSet cs) w"
inductive_cases RSeqE [elim!]: "in_lang (RSeq r q) w"
inductive_cases RAltE [elim!]: "in_lang (RAlt r q) w"

lemma nullable_in_lang: "nullable r \<longleftrightarrow> in_lang r []"
proof (induction r)
  case (RSeq r q)
  then show ?case using in_lang.intros(3) [of r "[]" q "[]"] by auto
qed (auto intro: in_lang.intros)

lemma RStar_ConsD:
  "in_lang (RStar r) (c # s) \<Longrightarrow> \<exists>u v. s = u @ v \<and> in_lang r (c # u) \<and> in_lang (RStar r) v"
  by (induction "RStar r" "c # s" rule: in_lang.induct) (auto simp: append_eq_Cons_conv)

lemma deriv_in_lang: "in_lang (deriv c r) s \<longleftrightarrow> in_lang r (c # s)"
proof (induction r arbitrary: s)
  case (RSet cs)
  then show ?case by (auto intro: in_lang.intros)
next
  case (RSeq r q)
  show ?case
  proof
    assume "in_lang (deriv c (RSeq r q)) s"
    then consider u v where "s = u @ v" "in_lang r (c # u)" "in_lang q v"
      | "nullable r" "in_lang q (c # s)"
      by (auto simp: RSeq split: if_splits)
    then show "in_lang (RSeq r q) (c # s)"
      by cases (use in_lang.intros(3) [of r "c # _" q] in_lang.intros(3) [of r "[]" q] in
        \<open>auto simp: nullable_in_lang\<close>)
  next
    assume "in_lang (RSeq r q) (c # s)"
    then obtain u v where uv: "c # s = u @ v" "in_lang r u" "in_lang q v" by auto
    show "in_lang (deriv c (RSeq r q)) s"
    proof (cases u)
      case Nil
      with uv show ?thesis by (auto simp: RSeq nullable_in_lang intro: in_lang.intros)
    next
      case (Cons c' u')
      with uv have "in_lang r (c # u')" "s = u' @ v" by simp_all
      moreover from this have "in_lang (deriv c r) u'" by (simp add: RSeq.IH(1))
      ultimately have "in_lang (RSeq (deriv c r) q) s" using uv(3) by (auto intro: in_lang.intros)
      then show ?thesis by (auto intro: in_lang.intros)
    qed
  qed
next
  case (RStar r)
  then show ?case
    using in_lang.intros(7) [of r "c # _" _] by (auto simp: RStar dest!: RStar_ConsD intro: in_lang.intros)
qed (auto intro: in_lang.intros)

lemma rmatches_in_lang: "rmatches r s \<longleftrightarrow> in_lang r s"
  by (induction s arbitrary: r) (simp_all add: nullable_in_lang deriv_in_lang)

section \<open>The device filter\<close>

definition rlit :: "string \<Rightarrow> regex" where
  "rlit s = foldr (\<lambda>c r. RSeq (RSet [c]) r) s REps"

definition rplus :: "regex \<Rightarrow> regex" where
  "rplus r = RSeq r (RStar r)"

definition AZ :: "char list" where
  "AZ = ''abcdefghijklmnopqrstuvwxyz''"

definition DIG :: "char list" where
  "DIG = ''0123456789''"

definition disk_re :: regex where
  \<comment> \<open>\<^verbatim>\<open>^(sd[a-z]+|nvme[0-9]+n[0-9]+|vd[a-z]+|mmcblk[0-9]+|xvd[a-z]+|dm-[0-9]+|md[0-9]+|loop[0-9]+|sr[0-9]+)$\<close>\<close>
  "disk_re =
     foldr RAlt
       [RSeq (rlit ''sd'') (rplus (RSet AZ)),
        RSeq (rlit ''nvme'') (RSeq (rplus (RSet DIG)) (RSeq (rlit ''n'') (rplus (RSet DIG)))),
        RSeq (rlit ''vd'') (rplus (RSet AZ)),
        RSeq (rlit ''mmcblk'') (rplus (RSet DIG)),
        RSeq (rlit ''xvd'') (rplus (RSet AZ)),
        RSeq (rlit ''dm-'') (rplus (RSet DIG)),
        RSeq (rlit ''md'') (rplus (RSet DIG)),
        RSeq (rlit ''loop'') (rplus (RSet DIG)),
        RSeq (rlit ''sr'') (rplus (RSet DIG))] RNone"

section \<open>Disks\<close>

definition disk_format :: "dir list" where
  "disk_format = [SkipInt, Ws, SkipInt, Ws, Str 63] @ concat (replicate 8 [Ws, Long])"

definition disk_metric :: "string \<Rightarrow> string \<Rightarrow> double \<Rightarrow> double \<Rightarrow> metric" where
  "disk_metric name t r w =
     \<lparr>plugin = Some ''disk'', plugin_instance = Some name, type = Some t,
      type_instance = None, ds_count = 2, vals = [r, w]\<rparr>"

definition disk_line :: "string \<Rightarrow> metric list" where
  "disk_line line =
     (case sscanf disk_format line of (n, vs) \<Rightarrow>
        if n < 9 then []
        else (let name = str_of (hd vs); f = map long_of (tl vs)
              in if \<not> rmatches disk_re name then []
                 else [disk_metric name ''disk_ops'' (double_of_int (f ! 0)) (double_of_int (f ! 4)),
                       disk_metric name ''disk_octets''
                         (dmul (double_of_int (f ! 2)) (double_of_int 512))
                         (dmul (double_of_int (f ! 6)) (double_of_int 512)),
                       disk_metric name ''disk_time'' (double_of_int (f ! 3)) (double_of_int (f ! 7))]))"

definition disk_read :: reader_fn where
  "disk_read env base s =
     (let path = snprintf_buf 1024 (base @ ''/diskstats'')
      in case os_fopen env path of
           Inl e \<Rightarrow> Some (- 1, [Log (log_errno ''disk'' path e)], s)
         | Inr content \<Rightarrow>
             if \<not> re_ready s \<and> \<not> os_regcomp_ok env
             then Some (- 1, [Log (log_err ''disk'' ''regcomp of device-name filter failed'')], s)
             else Some (0, map Emit (concat (map disk_line (fgets_lines 512 content))), s\<lparr>re_ready := True\<rparr>))"

section \<open>Mounted file systems\<close>

definition FSTYPE_DENYLIST :: "string list" where
  "FSTYPE_DENYLIST =
     [''proc'', ''sysfs'', ''tmpfs'', ''devtmpfs'', ''devpts'', ''cgroup'', ''cgroup2'',
      ''mqueue'', ''hugetlbfs'', ''fusectl'', ''debugfs'', ''configfs'', ''pstore'',
      ''bpf'', ''tracefs'']"

definition fstype_denied :: "string \<Rightarrow> bool" where
  "fstype_denied fstype = list_ex (\<lambda>d. fstype = d) FSTYPE_DENYLIST"

definition mount_to_instance :: "string \<Rightarrow> nat \<Rightarrow> string" where
  "mount_to_instance mount outsz =
     (let src = (if starts_with mount ''/'' then tl mount else mount);
          out = map (\<lambda>c. if c = CHR ''/'' then CHR ''-'' else c) (take (outsz - 1) src)
      in if out = [] then take (outsz - 1) ''root'' else out)"

definition df_metric :: "string \<Rightarrow> string \<Rightarrow> 64 word \<Rightarrow> metric" where
  "df_metric inst ti v =
     \<lparr>plugin = Some ''df'', plugin_instance = Some inst, type = Some ''df_complex'',
      type_instance = Some ti, ds_count = 1, vals = [double_of_int (uint v)]\<rparr>"

definition df_line :: "osenv \<Rightarrow> string \<Rightarrow> metric list" where
  "df_line env line =
     (case sscanf [Str 255, Ws, Str 255, Ws, Str 63, Ws, Str 255] line of (n, vs) \<Rightarrow>
        if n < 4 then []
        else if fstype_denied (str_of (vs ! 2)) then []
        else case os_statvfs env (str_of (vs ! 1)) of
               None \<Rightarrow> []
             | Some st \<Rightarrow>
                 (let used = (f_blocks st - f_bfree st) * f_frsize st;
                      freeb = f_bavail st * f_frsize st;
                      inst = mount_to_instance (str_of (vs ! 1)) 256
                  in [df_metric inst ''used'' used, df_metric inst ''free'' freeb]))"

definition df_read :: reader_fn where
  "df_read env base s =
     (let path = snprintf_buf 1024 (base @ ''/mounts'')
      in case os_fopen env path of
           Inl e \<Rightarrow> Some (- 1, [Log (log_errno ''df'' path e)], s)
         | Inr content \<Rightarrow> Some (0, map Emit (concat (map (df_line env) (fgets_lines 512 content))), s))"

section \<open>Contracts\<close>

definition disk_pairs :: "(string \<times> string) set" where
  "disk_pairs = {(''disk'', ''disk_ops''), (''disk'', ''disk_octets''), (''disk'', ''disk_time'')}"

lemma disk_line_ok: "m \<in> set (disk_line line) \<Longrightarrow> metric_ok disk_pairs m"
  by (auto simp: disk_line_def disk_metric_def disk_pairs_def metric_ok_defs ds_tables Let_def
      split: if_splits prod.splits)

interpretation disk: reader_contract disk_read disk_pairs
  by unfold_locales (auto simp: disk_read_def Let_def disk_line_ok split: sum.splits if_splits)

lemma df_line_ok: "m \<in> set (df_line env line) \<Longrightarrow> metric_ok {(''df'', ''df_complex'')} m"
  by (auto simp: df_line_def df_metric_def metric_ok_defs ds_tables Let_def
      split: if_splits prod.splits option.splits)

interpretation df: reader_contract df_read "{(''df'', ''df_complex'')}"
  by unfold_locales (auto simp: df_read_def Let_def df_line_ok split: sum.splits if_splits)

section \<open>What the filter accepts\<close>

lemma in_lang_rlit: "in_lang (rlit l) s \<longleftrightarrow> s = l"
proof (induction l arbitrary: s)
  case Nil
  show ?case by (auto simp: rlit_def intro: in_lang.intros)
next
  case (Cons c l)
  have "in_lang (rlit (c # l)) s \<longleftrightarrow> (\<exists>v. s = c # v \<and> in_lang (rlit l) v)"
    using in_lang.intros(3) [OF in_lang.intros(2) [of c "[c]"], of "rlit l"]
    by (auto simp: rlit_def)
  then show ?case by (simp add: Cons)
qed

lemma in_lang_RStar_RSet: "in_lang (RStar (RSet cs)) s \<longleftrightarrow> set s \<subseteq> set cs"
proof
  show "in_lang (RStar (RSet cs)) s \<Longrightarrow> set s \<subseteq> set cs"
    by (induction "RStar (RSet cs)" s rule: in_lang.induct) auto
  show "set s \<subseteq> set cs \<Longrightarrow> in_lang (RStar (RSet cs)) s"
  proof (induction s)
    case (Cons c s)
    then have "in_lang (RStar (RSet cs)) ([c] @ s)" by (intro in_lang.intros) auto
    then show ?case by simp
  qed (auto intro: in_lang.intros)
qed

lemma in_lang_RSeq_iff: "in_lang (RSeq r q) s \<longleftrightarrow> (\<exists>u v. s = u @ v \<and> in_lang r u \<and> in_lang q v)"
  by (auto intro: in_lang.intros)

lemma in_lang_RAlt_iff: "in_lang (RAlt r q) s \<longleftrightarrow> in_lang r s \<or> in_lang q s"
  by (auto intro: in_lang.intros)

lemma in_lang_rplus: "in_lang (rplus (RSet cs)) s \<longleftrightarrow> s \<noteq> [] \<and> set s \<subseteq> set cs"
proof
  show "in_lang (rplus (RSet cs)) s \<Longrightarrow> s \<noteq> [] \<and> set s \<subseteq> set cs"
    by (auto simp: rplus_def in_lang_RStar_RSet)
  assume "s \<noteq> [] \<and> set s \<subseteq> set cs"
  then obtain c t where "s = [c] @ t" "c \<in> set cs" "set t \<subseteq> set cs" by (cases s) auto
  then show "in_lang (rplus (RSet cs)) s"
    unfolding rplus_def by (auto simp: in_lang_RStar_RSet intro!: in_lang.intros simp del: append.simps)
qed

definition letters :: "string \<Rightarrow> bool" where
  "letters s \<longleftrightarrow> s \<noteq> [] \<and> set s \<subseteq> set AZ"

definition numeral_str :: "string \<Rightarrow> bool" where
  "numeral_str s \<longleftrightarrow> s \<noteq> [] \<and> set s \<subseteq> set DIG"

lemma in_lang_prefixed:
  "in_lang (RSeq (rlit l) (rplus (RSet AZ))) s \<longleftrightarrow> (\<exists>x. letters x \<and> s = l @ x)"
  "in_lang (RSeq (rlit l) (rplus (RSet DIG))) s \<longleftrightarrow> (\<exists>x. numeral_str x \<and> s = l @ x)"
  "in_lang (RSeq (rlit l) (RSeq (rplus (RSet DIG)) (RSeq (rlit l') (rplus (RSet DIG))))) s
     \<longleftrightarrow> (\<exists>x y. numeral_str x \<and> numeral_str y \<and> s = l @ x @ l' @ y)"
  by (auto simp: in_lang_RSeq_iff in_lang_rlit in_lang_rplus letters_def numeral_str_def)

lemma disk_re_iff:
  "rmatches disk_re s \<longleftrightarrow>
     (\<exists>x. letters x \<and> (s = ''sd'' @ x \<or> s = ''vd'' @ x \<or> s = ''xvd'' @ x))
   \<or> (\<exists>x y. numeral_str x \<and> numeral_str y \<and> s = ''nvme'' @ x @ ''n'' @ y)
   \<or> (\<exists>x. numeral_str x \<and> (s = ''mmcblk'' @ x \<or> s = ''dm-'' @ x \<or> s = ''md'' @ x
          \<or> s = ''loop'' @ x \<or> s = ''sr'' @ x))"
proof -
  have f: "foldr RAlt (r # rs) RNone = RAlt r (foldr RAlt rs RNone)" for r rs by simp
  have n: "foldr RAlt [] RNone = RNone" by simp
  have none: "in_lang RNone s \<longleftrightarrow> False" by auto
  show ?thesis
    unfolding rmatches_in_lang disk_re_def f n in_lang_RAlt_iff in_lang_prefixed none
      conj_disj_distribL ex_disj_distrib
    by argo
qed

section \<open>Partitions and mounts\<close>

lemma AZ_not_DIG: "c \<in> set AZ \<Longrightarrow> c \<notin> set DIG"
  by (auto simp: AZ_def DIG_def)

lemma letters_numeral_False: "letters x \<Longrightarrow> numeral_str n \<Longrightarrow> \<not> letters (x @ n)"
  using AZ_not_DIG by (cases n) (auto simp: letters_def numeral_str_def)

lemma partition_rejected:
  assumes "letters x" "numeral_str n"
  shows "\<not> rmatches disk_re (''sd'' @ x @ n)" "\<not> rmatches disk_re (''vd'' @ x @ n)"
    "\<not> rmatches disk_re (''xvd'' @ x @ n)"
  unfolding disk_re_iff using letters_numeral_False [OF assms] by auto

lemma numeral_p_False: "\<not> numeral_str (y @ ''p'' @ n)"
  by (auto simp: numeral_str_def DIG_def)

lemma numeral_prefix_unique:
  assumes "numeral_str x" "numeral_str x'" "x @ c # u = x' @ c' # v" "c \<notin> set DIG" "c' \<notin> set DIG"
  shows "x = x' \<and> u = v"
proof -
  have tw: "takeWhile (\<lambda>z. z \<in> set DIG) (r @ d # w) = r" if "numeral_str r" "d \<notin> set DIG" for r d w
    using that by (subst takeWhile_append2) (auto simp: numeral_str_def)
  have "x = x'" using tw [OF assms(1,4), of u] tw [OF assms(2,5), of v] assms(3) by metis
  with assms(3) show ?thesis by simp
qed

lemma nvme_partition_rejected:
  assumes "numeral_str x"
  shows "\<not> rmatches disk_re (''nvme'' @ x @ ''n'' @ y @ ''p'' @ n)"
proof
  assume "rmatches disk_re (''nvme'' @ x @ ''n'' @ y @ ''p'' @ n)"
  then obtain x' y' where xy: "numeral_str x'" "numeral_str y'"
    "x @ CHR ''n'' # (y @ ''p'' @ n) = x' @ CHR ''n'' # y'"
    unfolding disk_re_iff by auto
  then have "y @ ''p'' @ n = y'" using numeral_prefix_unique [OF assms xy(1,3)] by (simp add: DIG_def)
  with xy(2) numeral_p_False show False by metis
qed

lemma mount_to_instance_props:
  assumes "5 \<le> n"
  shows "CHR ''/'' \<notin> set (mount_to_instance mnt n) \<and> mount_to_instance mnt n \<noteq> []
     \<and> length (mount_to_instance mnt n) < n"
  using assms by (auto simp: mount_to_instance_def Let_def dest: in_set_takeD)

definition plain_mount :: "string \<Rightarrow> bool" where
  \<comment> \<open>a mount point without dashes that fits the buffer\<close>
  "plain_mount d \<longleftrightarrow> starts_with d ''/'' \<and> CHR ''-'' \<notin> set d \<and> length d \<le> 256"

lemma mount_to_instance_inj:
  assumes "plain_mount a" "plain_mount b" "mount_to_instance a 256 = mount_to_instance b 256"
  shows "a = b \<or> {a, b} = {''/'', ''/root''}"
proof -
  let ?g = "\<lambda>c. if c = CHR ''/'' then CHR ''-'' else c" and ?h = "\<lambda>c. if c = CHR ''-'' then CHR ''/'' else c"
  have m: "mount_to_instance d 256 = (if tl d = [] then ''root'' else map ?g (tl d))" "d = CHR ''/'' # tl d"
    if "plain_mount d" for d
    using that by (cases d; simp add: plain_mount_def mount_to_instance_def starts_with_def)+
  have inv: "map ?h (map ?g t) = t" if "CHR ''-'' \<notin> set t" for t
    using that by (induction t) auto
  have "CHR ''-'' \<notin> set (tl d)" if "plain_mount d" for d
    using that by (cases d) (simp_all add: plain_mount_def)
  with m(1) inv have r: "map ?h (mount_to_instance d 256) = (if tl d = [] then ''root'' else tl d)" if "plain_mount d" for d
    using that by (simp del: map_map)
  have "(if tl a = [] then ''root'' else tl a) = (if tl b = [] then ''root'' else tl b)"
    by (rule trans [OF r [OF assms(1), symmetric] trans [OF arg_cong [OF assms(3), of "map ?h"] r [OF assms(2)]]])
  then have "tl a = tl b \<or> (tl a = [] \<and> tl b = ''root'') \<or> (tl a = ''root'' \<and> tl b = [])"
    by (auto split: if_splits)
  with m(2) [OF assms(1)] m(2) [OF assms(2)] show ?thesis by auto
qed

lemma root_mounts_collide: "mount_to_instance ''/'' 256 = mount_to_instance ''/root'' 256"
  by (simp add: mount_to_instance_def starts_with_def)

end
