(* ===== verification/ReaderProc.thy ===== *)
theory ReaderProc
  imports ReaderBase
begin

text \<open>
  \<^verbatim>\<open>src/readers/processes.c\<close> (processes aggregated by name) and
  \<^verbatim>\<open>src/readers/thermal.c\<close> (thermal zones), the readers of directories. Unsigned sums
  wrap at their 64 bits; the two \<open>int\<close> counters of a process group overflow to
  undefined behaviour.
\<close>

section \<open>Processes\<close>

definition MAX_COMMS :: nat where "MAX_COMMS = 256"

definition COMM_LEN :: nat where "COMM_LEN = 32"

record comm_agg =
  comm :: string
  used :: bool
  rss_sum :: "64 word"
  utime_sum :: "64 word"
  stime_sum :: "64 word"
  proc_count :: int
  threads_sum :: int

definition is_numeric :: "string \<Rightarrow> bool" where
  "is_numeric s \<longleftrightarrow> s \<noteq> [] \<and> list_all (\<lambda>c. \<not> (chr_nat c < 48 \<or> chr_nat c > 57)) s"

fun agg_find :: "comm_agg list \<Rightarrow> string \<Rightarrow> nat \<Rightarrow> nat option" where
  "agg_find [] c i = None"
| "agg_find (a # ag) c i = (if used a \<and> comm a = c then Some i else agg_find ag c (Suc i))"

definition agg_lookup :: "comm_agg list \<Rightarrow> string \<Rightarrow> nat option \<times> comm_agg list" where
  \<comment> \<open>the array up to \<open>*count\<close>; \<open>None\<close> is the result -1\<close>
  "agg_lookup ag c =
     (case agg_find ag c 0 of
        Some i \<Rightarrow> (Some i, ag)
      | None \<Rightarrow>
          if MAX_COMMS \<le> length ag then (None, ag)
          else (Some (length ag),
                ag @ [\<lparr>comm = take (COMM_LEN - 1) c, used = True, rss_sum = 0, utime_sum = 0,
                       stime_sum = 0, proc_count = 0, threads_sum = 0\<rparr>]))"

definition strip_eol :: "string \<Rightarrow> string" where
  "strip_eol s = rev (dropWhile (\<lambda>c. c = NL \<or> c = CR) (rev s))"

definition first_line :: "osenv \<Rightarrow> string \<Rightarrow> nat \<Rightarrow> string option" where
  \<comment> \<open>open, one \<open>fgets\<close>, close\<close>
  "first_line env path n =
     (case os_fopen env path of Inl _ \<Rightarrow> None | Inr content \<Rightarrow> fgets n content)"

fun ulong_of :: "sval \<Rightarrow> 64 word" where
  "ulong_of (SULong w) = w"
| "ulong_of _ = 0"

definition stat_format :: "dir list" where
  "stat_format = SkipStr # concat (replicate 17 [Ws, ULong])"

record proc_sample =
  ps_comm :: string
  ps_utime :: "64 word"
  ps_stime :: "64 word"
  ps_threads :: "64 word"
  ps_rss :: "64 word"

definition proc_path :: "string \<Rightarrow> string \<Rightarrow> string \<Rightarrow> string" where
  "proc_path base pid f = snprintf_buf 1024 (base @ ''/'' @ pid @ ''/'' @ f)"

definition read_comm :: "osenv \<Rightarrow> string \<Rightarrow> string \<Rightarrow> string option" where
  "read_comm env base pid =
     (case first_line env (proc_path base pid ''comm'') COMM_LEN of
        None \<Rightarrow> None
      | Some l \<Rightarrow> (let c = strip_eol l in if c = [] then None else Some c))"

definition read_stat :: "osenv \<Rightarrow> string \<Rightarrow> string \<Rightarrow> (64 word \<times> 64 word \<times> 64 word) option" where
  \<comment> \<open>utime, stime, num\_threads, from the text after the last \<open>)\<close>\<close>
  "read_stat env base pid =
     (case first_line env (proc_path base pid ''stat'') 1024 of
        None \<Rightarrow> None
      | Some sbuf \<Rightarrow>
          (case strrchr_split sbuf (CHR '')'') of
             None \<Rightarrow> None
           | Some (_, rp) \<Rightarrow>
               (case sscanf stat_format rp of (n, vs) \<Rightarrow>
                  if n < 17 then None
                  else (let fld = map ulong_of vs in Some (fld ! 10, fld ! 11, fld ! 16)))))"

definition read_statm :: "osenv \<Rightarrow> string \<Rightarrow> string \<Rightarrow> 64 word option" where
  \<comment> \<open>resident pages\<close>
  "read_statm env base pid =
     (case first_line env (proc_path base pid ''statm'') 256 of
        None \<Rightarrow> None
      | Some mbuf \<Rightarrow>
          (case sscanf [ULong, Ws, ULong] mbuf of (n, vs) \<Rightarrow>
             if n < 2 then None else Some (ulong_of (vs ! 1))))"

definition page_size :: "osenv \<Rightarrow> int" where
  "page_size env = (if os_pagesize env \<le> 0 then 4096 else os_pagesize env)"

definition read_pid :: "osenv \<Rightarrow> string \<Rightarrow> string \<Rightarrow> proc_sample option" where
  "read_pid env base pid =
     (if \<not> is_numeric pid then None
      else case read_comm env base pid of
             None \<Rightarrow> None
           | Some c \<Rightarrow>
               (case read_stat env base pid of
                  None \<Rightarrow> None
                | Some (ut, st, th) \<Rightarrow>
                    (case read_statm env base pid of
                       None \<Rightarrow> None
                     | Some pages \<Rightarrow>
                         Some \<lparr>ps_comm = c, ps_utime = ut, ps_stime = st, ps_threads = th,
                               ps_rss = pages * of_int (page_size env)\<rparr>)))"

definition agg_add :: "proc_sample \<Rightarrow> comm_agg list \<Rightarrow> comm_agg list option" where
  "agg_add p ag =
     (case agg_lookup ag (ps_comm p) of
        (None, ag') \<Rightarrow> Some ag'
      | (Some i, ag') \<Rightarrow>
          (let a = ag' ! i in
           do { pc \<leftarrow> chk_int (proc_count a + 1);
                th \<leftarrow> chk_int (threads_sum a + sint (ucast (ps_threads p) :: 32 word));
                Some (ag'[i := a\<lparr>rss_sum := rss_sum a + ps_rss p, utime_sum := utime_sum a + ps_utime p,
                                 stime_sum := stime_sum a + ps_stime p, proc_count := pc,
                                 threads_sum := th\<rparr>]) }))"

fun agg_pids :: "osenv \<Rightarrow> string \<Rightarrow> string list \<Rightarrow> comm_agg list \<Rightarrow> comm_agg list option" where
  "agg_pids env base [] ag = Some ag"
| "agg_pids env base (d # ds) ag =
     (case read_pid env base d of
        None \<Rightarrow> agg_pids env base ds ag
      | Some p \<Rightarrow> do { ag' \<leftarrow> agg_add p ag; agg_pids env base ds ag' })"

definition ps_metric :: "string \<Rightarrow> string \<Rightarrow> int \<Rightarrow> double list \<Rightarrow> metric" where
  "ps_metric c t n vs =
     \<lparr>plugin = Some ''processes'', plugin_instance = Some c, type = Some t,
      type_instance = None, ds_count = n, vals = vs\<rparr>"

definition agg_emit :: "comm_agg \<Rightarrow> metric list" where
  "agg_emit a =
     [ps_metric (comm a) ''ps_rss'' 1 [double_of_int (uint (rss_sum a))],
      ps_metric (comm a) ''ps_cputime'' 2
        [double_of_int (uint (utime_sum a)), double_of_int (uint (stime_sum a))],
      ps_metric (comm a) ''ps_count'' 2
        [double_of_int (proc_count a), double_of_int (threads_sum a)]]"

definition processes_read :: reader_fn where
  "processes_read env base s =
     (case os_opendir env base of
        Inl e \<Rightarrow> Some (- 1, [Log (log_errno ''processes'' base e)], s)
      | Inr names \<Rightarrow>
          do { ag \<leftarrow> agg_pids env base names [];
               Some (0, map Emit (concat (map agg_emit ag)), s) })"

section \<open>Thermal zones\<close>

definition thermal_metric :: "string \<Rightarrow> string \<Rightarrow> double \<Rightarrow> metric" where
  "thermal_metric zone ztype v =
     \<lparr>plugin = Some ''thermal'', plugin_instance = Some zone, type = Some ''temperature'',
      type_instance = (if ztype \<noteq> [] then Some ztype else None), ds_count = 1, vals = [v]\<rparr>"

definition zone_type :: "osenv \<Rightarrow> string \<Rightarrow> string" where
  "zone_type env ypath =
     (case os_fopen env ypath of
        Inl _ \<Rightarrow> []
      | Inr content \<Rightarrow> (case fgets 64 content of None \<Rightarrow> [] | Some l \<Rightarrow> strip_eol l))"

definition thermal_zone :: "osenv \<Rightarrow> string \<Rightarrow> string \<Rightarrow> event list" where
  "thermal_zone env base zone =
     (if \<not> starts_with zone ''thermal_zone'' then []
      else
        (let tpath = snprintf_buf 1024 (base @ ''/class/thermal/'' @ zone @ ''/temp'')
         in case os_fopen env tpath of
              Inl e \<Rightarrow> [Log (log_errno ''thermal'' tpath e)]
            | Inr content \<Rightarrow>
                (case fscanf [Long] content of (nn, vs) \<Rightarrow>
                   if nn \<noteq> 1 then [Log (log_err ''thermal'' (tpath @ '': cannot parse temp''))]
                   else (let ypath = snprintf_buf 1024 (base @ ''/class/thermal/'' @ zone @ ''/type'')
                         in [Emit (thermal_metric zone (zone_type env ypath)
                               (ddiv (double_of_int (long_of (hd vs))) (double_of_int 1000)))]))))"

definition thermal_read :: reader_fn where
  "thermal_read env proc_base s =
     (let base = (if proc_base = ''/proc'' then ''/sys'' else proc_base);
          cdir = snprintf_buf 1024 (base @ ''/class/thermal'')
      in case os_opendir env cdir of
           Inl e \<Rightarrow> Some (- 1, [Log (log_errno ''thermal'' cdir e)], s)
         | Inr names \<Rightarrow> Some (0, concat (map (thermal_zone env base) names), s))"

section \<open>Contracts\<close>

definition ps_pairs :: "(string \<times> string) set" where
  "ps_pairs = {(''processes'', ''ps_rss''), (''processes'', ''ps_cputime''), (''processes'', ''ps_count'')}"

lemma agg_emit_ok: "m \<in> set (agg_emit a) \<Longrightarrow> metric_ok ps_pairs m"
  by (auto simp: agg_emit_def ps_metric_def ps_pairs_def metric_ok_defs ds_tables)

interpretation processes: reader_contract processes_read ps_pairs
  by unfold_locales
    (auto simp: processes_read_def bind_eq_Some_conv agg_emit_ok split: sum.splits)

lemma thermal_zone_ok:
  "m \<in> set (emitted (thermal_zone env base z)) \<Longrightarrow> metric_ok {(''thermal'', ''temperature'')} m"
  by (auto simp: thermal_zone_def thermal_metric_def metric_ok_defs ds_tables Let_def
      split: if_splits sum.splits prod.splits)

interpretation thermal: reader_contract thermal_read "{(''thermal'', ''temperature'')}"
  by unfold_locales
    (auto simp: thermal_read_def Let_def thermal_zone_ok split: sum.splits)

section \<open>Aggregation by name\<close>

text \<open>
  The specification: the groups are the first \<open>MAX_COMMS\<close> distinct names in directory
  order, and the totals of a group are the sums over every sample with its name.
\<close>

definition group :: "string \<Rightarrow> proc_sample list \<Rightarrow> proc_sample list" where
  "group c ps = filter (\<lambda>p. ps_comm p = c) ps"

definition threads_of :: "proc_sample \<Rightarrow> int" where
  "threads_of p = sint (ucast (ps_threads p) :: 32 word)"

definition totals :: "string \<Rightarrow> proc_sample list \<Rightarrow> comm_agg" where
  "totals c ps =
     \<lparr>comm = c, used = True, rss_sum = sum_list (map ps_rss (group c ps)),
      utime_sum = sum_list (map ps_utime (group c ps)),
      stime_sum = sum_list (map ps_stime (group c ps)),
      proc_count = int (length (group c ps)),
      threads_sum = sum_list (map threads_of (group c ps))\<rparr>"

definition agg_spec :: "proc_sample list \<Rightarrow> comm_agg list" where
  "agg_spec ps = map (\<lambda>c. totals c ps) (take MAX_COMMS (firsts (map ps_comm ps)))"

lemma totals_snoc:
  "totals c (ps @ [p]) =
     (if ps_comm p = c
      then (totals c ps)\<lparr>rss_sum := rss_sum (totals c ps) + ps_rss p,
             utime_sum := utime_sum (totals c ps) + ps_utime p,
             stime_sum := stime_sum (totals c ps) + ps_stime p,
             proc_count := proc_count (totals c ps) + 1,
             threads_sum := threads_sum (totals c ps) + threads_of p\<rparr>
      else totals c ps)"
  by (simp add: totals_def group_def)

lemma comm_totals [simp]: "comm (totals c ps) = c" "used (totals c ps)"
  by (simp_all add: totals_def)

lemma agg_find_totals:
  "agg_find (map (\<lambda>c. totals c ps) cs) c k =
     (if c \<in> set cs then Some (k + length (takeWhile (\<lambda>x. x \<noteq> c) cs)) else None)"
  by (induction cs arbitrary: k) auto

lemma take_takeWhile_nth:
  "c \<in> set cs \<Longrightarrow> length (takeWhile (\<lambda>x. x \<noteq> c) cs) < length cs \<and> cs ! length (takeWhile (\<lambda>x. x \<noteq> c) cs) = c"
  by (induction cs) auto

lemma totals_empty:
  "c \<notin> set (map ps_comm ps) \<Longrightarrow> totals c ps =
     \<lparr>comm = c, used = True, rss_sum = 0, utime_sum = 0, stime_sum = 0, proc_count = 0, threads_sum = 0\<rparr>"
proof -
  assume "c \<notin> set (map ps_comm ps)"
  then have "group c ps = []" by (auto simp: group_def filter_empty_conv)
  then show ?thesis by (simp add: totals_def)
qed

text \<open>Looking up a name in the groups of \<open>ps\<close>: found, refused when full, or a new empty
  group; in each case the array then holds the totals of the names kept.\<close>

lemma agg_lookup_spec:
  fixes ps :: "proc_sample list"
  defines "cs \<equiv> take MAX_COMMS (firsts (map ps_comm ps))"
  assumes len: "length c < COMM_LEN"
  defines "cs' \<equiv> take MAX_COMMS (firsts (map ps_comm ps @ [c]))"
  shows "agg_lookup (agg_spec ps) c =
     (if c \<in> set cs' then Some (length (takeWhile (\<lambda>x. x \<noteq> c) cs')) else None,
      map (\<lambda>c. totals c ps) cs')"
proof (cases "c \<in> set cs")
  case True
  then have "c \<in> set (firsts (map ps_comm ps))" unfolding cs_def by (rule in_set_takeD)
  then have "cs' = cs" by (simp add: cs_def cs'_def)
  with True show ?thesis
    by (simp add: agg_lookup_def agg_spec_def agg_find_totals flip: cs_def)
next
  case False
  show ?thesis
  proof (cases "MAX_COMMS \<le> length (firsts (map ps_comm ps))")
    case True
    then have "cs' = cs" "length cs = MAX_COMMS" by (simp_all add: cs_def cs'_def)
    with False show ?thesis
      by (simp add: agg_lookup_def agg_spec_def agg_find_totals flip: cs_def)
  next
    case less: False
    then have cs: "cs = firsts (map ps_comm ps)" by (simp add: cs_def)
    with False have new: "c \<notin> set (map ps_comm ps)" by simp
    with cs less have cs': "cs' = cs @ [c]" by (simp add: cs'_def)
    have tw: "takeWhile (\<lambda>x. x \<noteq> c) (cs @ [c]) = cs"
      using False by (subst takeWhile_append2) auto
    have "take (COMM_LEN - 1) c = c" using len by simp
    then show ?thesis using False less cs cs' tw totals_empty [OF new]
      by (simp add: agg_lookup_def agg_spec_def agg_find_totals)
  qed
qed

lemma agg_add_spec:
  assumes len: "length (ps_comm p) < COMM_LEN" and add: "agg_add p (agg_spec ps) = Some ag'"
  shows "ag' = agg_spec (ps @ [p])"
proof -
  let ?c = "ps_comm p"
  define cs' where "cs' = take MAX_COMMS (firsts (map ps_comm ps @ [?c]))"
  have sp: "agg_spec (ps @ [p]) = map (\<lambda>c. totals c (ps @ [p])) cs'"
    by (simp add: agg_spec_def cs'_def)
  note lk = agg_lookup_spec [OF len, of ps, folded cs'_def]
  show ?thesis
  proof (cases "?c \<in> set cs'")
    case False
    then have "map (\<lambda>c. totals c ps) cs' = map (\<lambda>c. totals c (ps @ [p])) cs'"
      by (auto simp: totals_snoc)
    moreover have "ag' = map (\<lambda>c. totals c ps) cs'" using add False lk by (simp add: agg_add_def)
    ultimately show ?thesis by (simp only: sp)
  next
    case True
    define i where "i = length (takeWhile (\<lambda>x. x \<noteq> ?c) cs')"
    have i: "i < length cs'" "cs' ! i = ?c"
      using take_takeWhile_nth [OF True] by (simp_all add: i_def)
    have dist: "distinct cs'" unfolding cs'_def by (intro distinct_take distinct_firsts)
    have ag': "ag' = (map (\<lambda>c. totals c ps) cs')[i := totals ?c (ps @ [p])]"
      using add True lk i
      by (auto simp: agg_add_def i_def [symmetric] Let_def totals_snoc threads_of_def
          bind_eq_Some_conv chk_int_def split: if_splits)
    have "totals (cs' ! j) (ps @ [p]) = totals (cs' ! j) ps" if "j < length cs'" "j \<noteq> i" for j
      using that i dist by (simp add: totals_snoc nth_eq_iff_index_eq) (metis nth_eq_iff_index_eq)
    then show ?thesis
      unfolding ag' sp using i by (intro nth_equalityI) (auto simp: nth_list_update)
  qed
qed

lemma read_pid_comm: "read_pid env base d = Some p \<Longrightarrow> length (ps_comm p) < COMM_LEN"
proof -
  assume "read_pid env base d = Some p"
  then have "read_comm env base d = Some (ps_comm p)"
    by (auto simp: read_pid_def split: if_splits option.splits prod.splits)
  then obtain s where s: "strip_eol (cstr (fst (fgets_split (COMM_LEN - 1) s))) = ps_comm p"
    by (auto simp: read_comm_def first_line_def fgets_def Let_def split: option.splits sum.splits if_splits)
  have "length (strip_eol x) \<le> length x" for x
    using length_dropWhile_le [of "\<lambda>c. c = NL \<or> c = CR" "rev x"] by (simp add: strip_eol_def)
  moreover have "length (fst (fgets_split (COMM_LEN - 1) s)) < COMM_LEN"
    by (auto simp: fgets_split_def Let_def COMM_LEN_def)
  ultimately show ?thesis
    unfolding s [symmetric] by (meson le_less_trans length_cstr_le)
qed

definition samples :: "osenv \<Rightarrow> string \<Rightarrow> string list \<Rightarrow> proc_sample list" where
  "samples env base names = List.map_filter (read_pid env base) names"

lemma agg_pids_spec:
  "agg_pids env base names (agg_spec ps) = Some ag \<Longrightarrow> ag = agg_spec (ps @ samples env base names)"
proof (induction names arbitrary: ps)
  case Nil
  then show ?case by (simp add: samples_def map_filter_simps)
next
  case (Cons d names)
  show ?case
  proof (cases "read_pid env base d")
    case None
    with Cons show ?thesis by (simp add: samples_def map_filter_simps)
  next
    case (Some p)
    with Cons.prems obtain ag' where a: "agg_add p (agg_spec ps) = Some ag'"
      "agg_pids env base names ag' = Some ag" by (auto simp: bind_eq_Some_conv)
    then have "ag' = agg_spec (ps @ [p])" using agg_add_spec [OF read_pid_comm [OF Some]] by blast
    with a Cons.IH [of "ps @ [p]"] Some show ?thesis by (simp add: samples_def map_filter_simps)
  qed
qed

lemma processes_read_spec:
  assumes "os_opendir env base = Inr names" "processes_read env base s = Some (rc, es, s')"
  shows "emitted es = concat (map agg_emit (agg_spec (samples env base names)))"
proof -
  have "agg_spec [] = []" by (simp add: agg_spec_def firsts_def)
  then show ?thesis
    using assms agg_pids_spec [of env base names "[]"]
    by (auto simp: processes_read_def bind_eq_Some_conv)
qed

section \<open>When the sums are defined\<close>

text \<open>The two \<open>int\<close> counters of a group stay in range when the whole machine has fewer than
  \<open>2^31\<close> processes and threads.\<close>

lemma group_sum_le:
  "list_all (\<lambda>p. 0 \<le> threads_of p) ps \<Longrightarrow>
     0 \<le> sum_list (map threads_of (group c ps)) \<and> sum_list (map threads_of (group c ps)) \<le> sum_list (map threads_of ps)"
  by (induction ps) (auto simp: group_def)

lemma length_group_le: "length (group c ps) \<le> length ps"
  by (simp add: group_def)

lemma agg_add_defined:
  assumes len: "length (ps_comm p) < COMM_LEN" and nn: "list_all (\<lambda>p. 0 \<le> threads_of p) (ps @ [p])"
    and lt: "sum_list (map threads_of (ps @ [p])) < 2 ^ 31" "int (length ps) + 1 < 2 ^ 31"
  shows "agg_add p (agg_spec ps) = Some (agg_spec (ps @ [p]))"
proof -
  let ?c = "ps_comm p"
  define cs' where "cs' = take MAX_COMMS (firsts (map ps_comm ps @ [?c]))"
  note lk = agg_lookup_spec [OF len, of ps, folded cs'_def]
  have "agg_add p (agg_spec ps) \<noteq> None"
  proof (cases "?c \<in> set cs'")
    case False
    then show ?thesis using lk by (simp add: agg_add_def)
  next
    case True
    have i: "length (takeWhile (\<lambda>x. x \<noteq> ?c) cs') < length cs'" "cs' ! length (takeWhile (\<lambda>x. x \<noteq> ?c) cs') = ?c"
      using take_takeWhile_nth [OF True] by simp_all
    have "0 \<le> sum_list (map threads_of (group ?c ps))" "sum_list (map threads_of (group ?c ps)) \<le> sum_list (map threads_of ps)"
      using group_sum_le [of ps ?c] nn by simp_all
    then have th: "chk_int (threads_sum (totals ?c ps) + threads_of p) \<noteq> None"
      using nn lt(1) by (simp add: totals_def chk_int_def)
    have pc: "chk_int (proc_count (totals ?c ps) + 1) \<noteq> None"
      using length_group_le [of ?c ps] lt(2) by (simp add: totals_def chk_int_def)
    show ?thesis
      using lk True i th pc by (auto simp: agg_add_def Let_def threads_of_def)
  qed
  then show ?thesis using agg_add_spec [OF len] by blast
qed

lemma samples_Cons:
  "samples env base (d # ds) = (case read_pid env base d of None \<Rightarrow> samples env base ds | Some p \<Rightarrow> p # samples env base ds)"
  by (simp add: samples_def map_filter_simps split: option.splits)

lemma length_samples: "length (samples env base names) \<le> length names"
  by (induction names) (auto simp: samples_Cons samples_def map_filter_simps split: option.splits)

lemma agg_pids_defined:
  assumes "list_all (\<lambda>p. 0 \<le> threads_of p) (ps @ samples env base names)"
    "sum_list (map threads_of (ps @ samples env base names)) < 2 ^ 31"
    "int (length ps) + int (length names) < 2 ^ 31"
  shows "agg_pids env base names (agg_spec ps) = Some (agg_spec (ps @ samples env base names))"
  using assms
proof (induction names arbitrary: ps)
  case Nil
  then show ?case by (simp add: samples_def map_filter_simps)
next
  case (Cons d names)
  show ?case
  proof (cases "read_pid env base d")
    case None
    with Cons show ?thesis by (simp add: samples_Cons)
  next
    case (Some p)
    have nn: "0 \<le> sum_list (map threads_of (samples env base names))"
      using Cons.prems(1) by (intro sum_list_nonneg) (auto simp: list_all_iff samples_Cons Some)
    have "agg_add p (agg_spec ps) = Some (agg_spec (ps @ [p]))"
      using Cons.prems nn by (intro agg_add_defined read_pid_comm [OF Some]) (simp_all add: samples_Cons Some)
    then show ?thesis using Cons.IH [of "ps @ [p]"] Cons.prems by (simp add: samples_Cons Some)
  qed
qed

lemma processes_read_defined:
  assumes "os_opendir env base = Inr names" "list_all (\<lambda>p. 0 \<le> threads_of p) (samples env base names)"
    "sum_list (map threads_of (samples env base names)) < 2 ^ 31" "int (length names) < 2 ^ 31"
  shows "processes_read env base s =
     Some (0, map Emit (concat (map agg_emit (agg_spec (samples env base names)))), s)"
proof -
  have e: "agg_spec [] = []" by (simp add: agg_spec_def firsts_def)
  show ?thesis using agg_pids_defined [of "[]" env base names, unfolded e] assms by (simp add: processes_read_def)
qed

end
