(* ===== verification/Registry.thy ===== *)
theory Registry
  imports ReaderSys ReaderNet ReaderDisk ReaderProc
begin

text \<open>
  \<^verbatim>\<open>src/registry.c\<close>: the table of readers and the list of readers enabled by the
  configuration. A pointer to one of the eleven static \<open>reader_t\<close> objects is a value of
  the type \<open>reader\<close>; pointer identity is equality.
\<close>

datatype reader = cpu_reader | load_reader | uptime_reader | memory_reader | swap_reader
  | interface_reader | disk_reader | df_reader | processes_reader | thermal_reader | tcpconns_reader

fun reader_read :: "reader \<Rightarrow> reader_fn" where
  "reader_read cpu_reader = cpu_read"
| "reader_read load_reader = load_read"
| "reader_read uptime_reader = uptime_read"
| "reader_read memory_reader = memory_read"
| "reader_read swap_reader = swap_read"
| "reader_read interface_reader = interface_read"
| "reader_read disk_reader = disk_read"
| "reader_read df_reader = df_read"
| "reader_read processes_reader = processes_read"
| "reader_read thermal_reader = thermal_read"
| "reader_read tcpconns_reader = tcpconns_read"

definition REGISTRY :: "(string \<times> reader) list" where
  "REGISTRY =
     [(''cpu'', cpu_reader), (''load'', load_reader), (''uptime'', uptime_reader),
      (''memory'', memory_reader), (''swap'', swap_reader), (''interface'', interface_reader),
      (''disk'', disk_reader), (''df'', df_reader), (''processes'', processes_reader),
      (''thermal'', thermal_reader), (''tcpconns'', tcpconns_reader)]"

definition registry_find :: "cptr \<Rightarrow> reader option" where
  "registry_find name =
     (case name of
        None \<Rightarrow> None
      | Some n \<Rightarrow> (case find (\<lambda>e. fst e = n) REGISTRY of None \<Rightarrow> None | Some e \<Rightarrow> Some (snd e)))"

definition registry_count :: nat where
  "registry_count = length REGISTRY"

fun build_loop :: "cptr list \<Rightarrow> nat \<Rightarrow> reader list \<Rightarrow> event list \<Rightarrow> reader list \<times> event list" where
  \<comment> \<open>the requested names, the bound, the array \<open>out[0..n)\<close>, the log\<close>
  "build_loop [] mx out es = (out, es)"
| "build_loop (want # rest) mx out es =
     (case registry_find want of
        None \<Rightarrow> build_loop rest mx out
                  (es @ [Log (log_err ''registry''
                     (''unknown reader '' @ [DQ] @ fmt_s want @ [DQ] @ ''; skipping''))])
      | Some r \<Rightarrow>
          if r \<in> set out then build_loop rest mx out es
          else if length out < mx then build_loop rest mx (out @ [r]) es
          else build_loop rest mx out es)"

definition collect_build_enabled :: "cptr list option \<Rightarrow> int \<Rightarrow> nat \<Rightarrow> reader list \<times> event list" where
  "collect_build_enabled readers count mx =
     (case readers of
        None \<Rightarrow> (take mx (map snd REGISTRY), [])
      | Some rs \<Rightarrow>
          if count \<le> 0 then (take mx (map snd REGISTRY), [])
          else build_loop (take (nat count) rs) mx [] [])"

section \<open>Lookup\<close>

interpretation registry: keyed_table REGISTRY fst "\<lambda>n. find (\<lambda>e. fst e = n) REGISTRY"
  by unfold_locales (simp_all add: REGISTRY_def)

lemma registry_find_iff: "registry_find (Some n) = Some r \<longleftrightarrow> (n, r) \<in> set REGISTRY"
proof (cases "find (\<lambda>e. fst e = n) REGISTRY")
  case None
  then show ?thesis using registry.lookup_None_iff [of n] by (force simp: registry_find_def)
next
  case (Some e)
  then have "(n, r) \<in> set REGISTRY \<longleftrightarrow> e = (n, r)"
    using registry.lookup_Some_iff [of n e] registry.lookup_Some_iff [of n "(n, r)"] by auto
  with Some show ?thesis using registry.lookup_Some_iff [of n e]
    by (cases e) (auto simp: registry_find_def)
qed

lemma distinct_registry: "distinct (map snd REGISTRY)"
  by (simp add: REGISTRY_def)

lemma registry_complete: "r \<in> set (map snd REGISTRY)"
  by (cases r) (simp_all add: REGISTRY_def)

lemma card_readers: "distinct (rs :: reader list) \<Longrightarrow> length rs \<le> registry_count"
proof -
  assume "distinct rs"
  then have "length rs = card (set rs)" by (simp add: distinct_card)
  also have "\<dots> \<le> card (set (map snd REGISTRY))"
    by (intro card_mono) (use registry_complete in auto)
  also have "\<dots> \<le> length (map snd REGISTRY)" by (rule card_length)
  finally show ?thesis by (simp add: registry_count_def)
qed

section \<open>The enabled list\<close>

lemma fold_firsts_distinct:
  "distinct acc \<Longrightarrow> distinct (fold (\<lambda>x acc. if x \<in> set acc then acc else acc @ [x]) xs acc)"
  by (induction xs arbitrary: acc) auto

lemma build_loop_fst:
  assumes "registry_count \<le> mx" "distinct out"
  shows "fst (build_loop names mx out es) =
     fold (\<lambda>x acc. if x \<in> set acc then acc else acc @ [x]) (List.map_filter registry_find names) out"
  using assms(2)
proof (induction names arbitrary: out es)
  case Nil
  then show ?case by (simp add: map_filter_simps)
next
  case (Cons n names)
  show ?case
  proof (cases "registry_find n")
    case None
    with Cons show ?thesis by (simp add: map_filter_simps)
  next
    case (Some r)
    show ?thesis
    proof (cases "r \<in> set out")
      case True
      with Some Cons show ?thesis by (simp add: map_filter_simps)
    next
      case False
      then have "length (out @ [r]) \<le> registry_count" using Cons.prems by (intro card_readers) simp
      then have "length out < mx" using assms(1) by simp
      with Some False Cons show ?thesis by (simp add: map_filter_simps)
    qed
  qed
qed

lemma build_loop_bounds:
  assumes "distinct out" "length out \<le> mx"
  shows "distinct (fst (build_loop names mx out es)) \<and> length (fst (build_loop names mx out es)) \<le> mx"
  using assms
  by (induction names arbitrary: out es) (auto split: option.splits)

lemma build_loop_log:
  "snd (build_loop names mx out es) = es @
     map (\<lambda>n. Log (log_err ''registry'' (''unknown reader '' @ [DQ] @ fmt_s n @ [DQ] @ ''; skipping'')))
       (filter (\<lambda>n. registry_find n = None) names)"
  by (induction names arbitrary: out es) (auto split: option.splits)

section \<open>Every reader keeps the contract\<close>

definition reader_pairs :: "(string \<times> string) set" where
  "reader_pairs =
     {(''cpu'', ''percent''), (''load'', ''load''), (''uptime'', ''uptime''),
      (''memory'', ''percent''), (''swap'', ''swap''), (''df'', ''df_complex''),
      (''thermal'', ''temperature''), (''tcpconns'', ''tcp_connections'')}
     \<union> interface_pairs \<union> disk_pairs \<union> ps_pairs"

lemma reader_pairs_sub:
  "interface_pairs \<subseteq> reader_pairs" "disk_pairs \<subseteq> reader_pairs" "ps_pairs \<subseteq> reader_pairs"
  "{(''cpu'', ''percent'')} \<subseteq> reader_pairs" "{(''load'', ''load'')} \<subseteq> reader_pairs"
  "{(''uptime'', ''uptime'')} \<subseteq> reader_pairs" "{(''memory'', ''percent'')} \<subseteq> reader_pairs"
  "{(''swap'', ''swap'')} \<subseteq> reader_pairs" "{(''df'', ''df_complex'')} \<subseteq> reader_pairs"
  "{(''thermal'', ''temperature'')} \<subseteq> reader_pairs"
  "{(''tcpconns'', ''tcp_connections'')} \<subseteq> reader_pairs"
  by (auto simp: reader_pairs_def)

lemma metric_ok_mono: "metric_ok P m \<Longrightarrow> P \<subseteq> Q \<Longrightarrow> metric_ok Q m"
  by (auto simp: metric_ok_def)

lemma reader_contract_mono: "reader_contract f P \<Longrightarrow> P \<subseteq> Q \<Longrightarrow> reader_contract f Q"
  unfolding reader_contract_def by (blast intro: metric_ok_mono)

lemmas reader_contracts = cpu.reader_contract_axioms load.reader_contract_axioms
  uptime.reader_contract_axioms memory.reader_contract_axioms swap.reader_contract_axioms
  interface.reader_contract_axioms disk.reader_contract_axioms df.reader_contract_axioms
  processes.reader_contract_axioms thermal.reader_contract_axioms tcpconns.reader_contract_axioms

lemma reader_contract_all: "reader_contract (reader_read r) reader_pairs"
  by (cases r) (simp_all only: reader_read.simps reader_contracts [THEN reader_contract_mono] reader_pairs_sub)

interpretation readers: reader_contract "reader_read r" reader_pairs for r
  by (rule reader_contract_all)

end
