(* ===== verification/DString.thy ===== *)
theory DString
  imports Metric
begin

text \<open>
  The growable string of \<^verbatim>\<open>src/prom.c\<close> (\<open>dstring_t\<close>) and the escaping of label values.

  \<open>dbuf\<close> is the text up to \<open>len\<close> (\<open>None\<close>: the null pointer), \<open>dterm\<close> whether the byte at
  \<open>len\<close> has been set to the terminator, and \<open>dcap\<close> the capacity: \<open>realloc\<close> of the null pointer
  gives uninitialised memory, and reallocating a string keeps its terminator.
  Sizes are natural numbers: \<open>size_t\<close> cannot wrap here, since an object of the program
  is smaller than \<open>2^63\<close> bytes. A failed \<open>realloc\<close> leaves the string as it was and
  drops the text of that append.
\<close>

record dstring =
  dbuf :: "string option"
  dterm :: bool
  dcap :: nat

definition ds_empty :: dstring where
  "ds_empty = \<lparr>dbuf = None, dterm = False, dcap = 0\<rparr>"

definition dtxt :: "dstring \<Rightarrow> string" where
  "dtxt d = (case dbuf d of None \<Rightarrow> [] | Some s \<Rightarrow> s)"

function grow_cap :: "nat \<Rightarrow> nat \<Rightarrow> nat" where
  \<comment> \<open>\<open>while (nc < need) nc *= 2;\<close>\<close>
  "grow_cap nc need = (if nc < need \<and> 0 < nc then grow_cap (nc * 2) need else nc)"
  by pat_completeness auto
termination
  by (relation "measure (\<lambda>(nc, need). need - nc)") auto

declare grow_cap.simps [simp del]

lemma grow_cap_rec:
  "need \<le> nc \<Longrightarrow> grow_cap nc need = nc"
  "nc < need \<Longrightarrow> 0 < nc \<Longrightarrow> grow_cap nc need = grow_cap (nc * 2) need"
  by (subst grow_cap.simps, simp)+

lemma grow_cap_ge: "0 < nc \<Longrightarrow> need \<le> grow_cap nc need"
proof (induction nc need rule: grow_cap.induct)
  case (1 nc need)
  then show ?case by (cases "nc < need") (simp_all add: grow_cap_rec)
qed

lemma grow_cap_less: "0 < nc \<Longrightarrow> nc < need \<Longrightarrow> grow_cap nc need < 2 * need"
proof (induction nc need rule: grow_cap.induct)
  case (1 nc need)
  then show ?case by (cases "nc * 2 < need") (simp_all add: grow_cap_rec)
qed

definition ds_reserve :: "dstring \<Rightarrow> nat \<Rightarrow> mem \<Rightarrow> dstring \<times> mem" where
  "ds_reserve d extra h =
     (if length (dtxt d) + extra + 1 \<le> dcap d then (d, h)
      else case alloc h of (ok, h') \<Rightarrow>
        if ok
        then (\<lparr>dbuf = Some (dtxt d), dterm = (dbuf d \<noteq> None \<and> dterm d),
               dcap = grow_cap (if dcap d \<noteq> 0 then dcap d else 512) (length (dtxt d) + extra + 1)\<rparr>, h')
        else (d, h'))"

definition ds_append :: "dstring \<Rightarrow> string \<Rightarrow> mem \<Rightarrow> dstring \<times> mem" where
  "ds_append d s h =
     (case ds_reserve d (length s) h of (d, h) \<Rightarrow>
        if length (dtxt d) + length s + 1 > dcap d then (d, h)
        else (d\<lparr>dbuf := Some (dtxt d @ s), dterm := True\<rparr>, h))"

definition ds_appendf :: "dstring \<Rightarrow> string \<Rightarrow> mem \<Rightarrow> dstring \<times> mem" where
  \<comment> \<open>\<open>s\<close> is the formatted text, \<open>need\<close> its length\<close>
  "ds_appendf d s h =
     (let need = length s in
      case ds_reserve d need h of (d, h) \<Rightarrow>
        if length (dtxt d) + need + 1 > dcap d then (d, h)
        else (d\<lparr>dbuf := Some (dtxt d @ snprintf_buf (dcap d - length (dtxt d)) s), dterm := True\<rparr>, h))"

definition esc_char :: "char \<Rightarrow> string" where
  "esc_char c =
     (if c = BSL \<or> c = DQ \<or> c = NL then [BSL, if c = NL then CHR ''n'' else c] else [c])"

fun append_all :: "('d \<Rightarrow> string \<Rightarrow> mem \<Rightarrow> 'd \<times> mem) \<Rightarrow> 'd \<Rightarrow> string list \<Rightarrow> mem \<Rightarrow> 'd \<times> mem" where
  \<comment> \<open>a sequence of appends\<close>
  "append_all app d [] h = (d, h)"
| "append_all app d (s # ss) h = (case app d s h of (d', h') \<Rightarrow> append_all app d' ss h')"

definition append_escaped :: "dstring \<Rightarrow> string \<Rightarrow> mem \<Rightarrow> dstring \<times> mem" where
  "append_escaped d s h = append_all ds_append d (map esc_char s) h"

definition ds_append_label :: "dstring \<Rightarrow> string \<Rightarrow> string \<Rightarrow> mem \<Rightarrow> dstring \<times> mem" where
  "ds_append_label d key val h =
     (case (if length (dtxt d) > 0 then ds_append d '','' h else (d, h)) of (d, h) \<Rightarrow>
      case ds_append d key h of (d, h) \<Rightarrow>
      case ds_append d [CHR ''='', DQ] h of (d, h) \<Rightarrow>
      case append_escaped d val h of (d, h) \<Rightarrow>
        ds_append d [DQ] h)"

section \<open>The contract of an append\<close>

text \<open>
  An append either adds its whole text or, when the allocator refuses, nothing; it never
  fails while the allocator succeeds; it keeps the buffer well formed.
\<close>

locale text_buffer =
  fixes app :: "'d \<Rightarrow> string \<Rightarrow> mem \<Rightarrow> 'd \<times> mem" and tx :: "'d \<Rightarrow> string" and wf :: "'d \<Rightarrow> bool"
  assumes app_inv: "wf d \<Longrightarrow> wf (fst (app d s h))"
    and app_ok: "mem_ok h \<Longrightarrow> tx (fst (app d s h)) = tx d @ s \<and> mem_ok (snd (app d s h))"
    and app_whole: "tx (fst (app d s h)) = tx d \<or> tx (fst (app d s h)) = tx d @ s"
begin

lemma all_inv: "wf d \<Longrightarrow> wf (fst (append_all app d ss h))"
proof (induction ss arbitrary: d h)
  case (Cons s ss)
  then show ?case using app_inv [of d s h] by (auto split: prod.splits)
qed simp

lemma all_ok:
  "mem_ok h \<Longrightarrow> tx (fst (append_all app d ss h)) = tx d @ concat ss
     \<and> mem_ok (snd (append_all app d ss h))"
proof (induction ss arbitrary: d h)
  case (Cons s ss)
  obtain d' h' where a: "app d s h = (d', h')" by force
  then have "tx d' = tx d @ s" "mem_ok h'" using app_ok [OF Cons.prems, of d s] by simp_all
  with a Cons.IH [of h' d'] show ?case by simp
qed simp

lemma all_prefix: "\<exists>ts. tx (fst (append_all app d ss h)) = tx d @ concat ts \<and> set ts \<subseteq> set ss"
proof (induction ss arbitrary: d h)
  case Nil
  then show ?case by (auto intro: exI [of _ "[]"])
next
  case (Cons s ss)
  obtain d' h' where a: "app d s h = (d', h')" by force
  obtain ts where ts: "tx (fst (append_all app d' ss h')) = tx d' @ concat ts" "set ts \<subseteq> set ss"
    using Cons.IH by blast
  consider "tx d' = tx d" | "tx d' = tx d @ s" using app_whole [of d s h] a by auto
  then show ?case
  proof cases
    case 1
    then show ?thesis using a ts by auto
  next
    case 2
    then show ?thesis using a ts by (intro exI [of _ "s # ts"]) auto
  qed
qed

end

definition ds_inv :: "dstring \<Rightarrow> bool" where
  \<comment> \<open>the null pointer without capacity, or a terminated text that fits the capacity\<close>
  "ds_inv d \<longleftrightarrow>
     (case dbuf d of None \<Rightarrow> dcap d = 0 | Some s \<Rightarrow> dterm d \<and> length s < dcap d)"

lemma ds_inv_empty [simp]: "ds_inv ds_empty"
  by (simp add: ds_inv_def ds_empty_def)

lemma dtxt_empty [simp]: "dtxt ds_empty = []"
  by (simp add: dtxt_def ds_empty_def)

lemma ds_reserve_cases:
  assumes "ds_reserve d n h = (d', h')"
  obtains "d' = d" "mem_ok h \<longrightarrow> length (dtxt d) + n + 1 \<le> dcap d \<and> mem_ok h'"
  | "dtxt d' = dtxt d" "length (dtxt d) + n + 1 \<le> dcap d'" "mem_ok h \<longrightarrow> mem_ok h'"
proof (cases "length (dtxt d) + n + 1 \<le> dcap d")
  case True
  with assms have "d' = d" "h' = h" by (simp_all add: ds_reserve_def)
  with True that(1) show thesis by simp
next
  case False
  obtain ok h2 where a: "alloc h = (ok, h2)" by force
  have m: "mem_ok h \<longrightarrow> ok \<and> mem_ok h2" using alloc_ok [OF _ a] by blast
  show thesis
  proof (cases ok)
    case True
    then have d': "d' = \<lparr>dbuf = Some (dtxt d), dterm = (dbuf d \<noteq> None \<and> dterm d),
        dcap = grow_cap (if dcap d \<noteq> 0 then dcap d else 512) (length (dtxt d) + n + 1)\<rparr>" "h' = h2"
      using False assms a by (simp_all add: ds_reserve_def)
    have "dtxt d' = dtxt d" by (simp add: d' dtxt_def)
    moreover have "length (dtxt d) + n + 1 \<le> dcap d'" unfolding d' by (simp add: grow_cap_ge)
    ultimately show thesis using that(2) m d'(2) by blast
  next
    case False
    with m assms a \<open>\<not> length (dtxt d) + n + 1 \<le> dcap d\<close> that(1) show thesis
      by (simp add: ds_reserve_def)
  qed
qed

lemma ds_reserve_txt [simp]: "ds_reserve d n h = (d', h') \<Longrightarrow> dtxt d' = dtxt d"
  by (erule ds_reserve_cases) simp_all

lemma ds_reserve_ok:
  "mem_ok h \<Longrightarrow> ds_reserve d n h = (d', h') \<Longrightarrow> length (dtxt d) + n + 1 \<le> dcap d' \<and> mem_ok h'"
  by (erule ds_reserve_cases) simp_all

lemma dtxt_set_buf [simp]: "dtxt (d\<lparr>dbuf := Some s, dterm := b\<rparr>) = s"
  by (simp add: dtxt_def)

lemma ds_append_inv: "ds_inv d \<Longrightarrow> ds_inv (fst (ds_append d s h))"
proof -
  assume d: "ds_inv d"
  obtain d' h' where r: "ds_reserve d (length s) h = (d', h')" by force
  have t: "dtxt d' = dtxt d" using r by simp
  show ?thesis
  proof (cases "length (dtxt d') + length s + 1 > dcap d'")
    case True
    with r have "fst (ds_append d s h) = d'" by (simp add: ds_append_def)
    moreover have "d' = d" using r by (cases rule: ds_reserve_cases) (use True t in simp_all)
    ultimately show ?thesis using d by simp
  next
    case False
    with r show ?thesis by (simp add: ds_append_def ds_inv_def)
  qed
qed

lemma ds_append_appendf: "ds_appendf d s h = ds_append d s h"
  by (auto simp: ds_appendf_def ds_append_def Let_def snprintf_buf_def split: prod.splits)

interpretation dstr: text_buffer ds_append dtxt ds_inv
proof unfold_locales
  fix d :: dstring and s :: string and h :: mem
  obtain d' h' where r: "ds_reserve d (length s) h = (d', h')" by force
  show "ds_inv d \<Longrightarrow> ds_inv (fst (ds_append d s h))"
    by (rule ds_append_inv)
  show "mem_ok h \<Longrightarrow> dtxt (fst (ds_append d s h)) = dtxt d @ s \<and> mem_ok (snd (ds_append d s h))"
    using ds_reserve_ok [OF _ r] r by (auto simp: ds_append_def)
  show "dtxt (fst (ds_append d s h)) = dtxt d \<or> dtxt (fst (ds_append d s h)) = dtxt d @ s"
    using r by (auto simp: ds_append_def)
qed

section \<open>Escaping\<close>

definition escape :: "string \<Rightarrow> string" where
  "escape s = concat (map esc_char s)"

fun unescape :: "string \<Rightarrow> string" where
  \<comment> \<open>how a scraper reads a label value\<close>
  "unescape [] = []"
| "unescape [c] = [c]"
| "unescape (c # c' # s) =
     (if c = BSL then (if c' = CHR ''n'' then NL else c') # unescape s else c # unescape (c' # s))"

lemma unescape_esc_char: "unescape (esc_char c @ s) = c # unescape s"
  by (cases s) (auto simp: esc_char_def)

lemma unescape_escape: "unescape (escape s) = s"
  by (induction s) (simp_all add: escape_def unescape_esc_char)

lemma NL_notin_escape: "NL \<notin> set (escape s)"
  by (auto simp: escape_def esc_char_def split: if_splits)

fun closes_early :: "string \<Rightarrow> bool" where
  \<comment> \<open>a scraper reading the quoted value meets an unescaped quote\<close>
  "closes_early [] = False"
| "closes_early (c # s) =
     (if c = DQ then True
      else if c = BSL then (case s of [] \<Rightarrow> False | _ # t \<Rightarrow> closes_early t) else closes_early s)"

lemma escape_not_closed: "\<not> closes_early (escape s)"
  by (induction s) (auto simp: escape_def esc_char_def)

definition label_text :: "string \<Rightarrow> string \<Rightarrow> string" where
  "label_text key val = key @ [CHR ''='', DQ] @ escape val @ [DQ]"

lemma append_escaped_ok:
  "mem_ok h \<Longrightarrow> dtxt (fst (append_escaped d s h)) = dtxt d @ escape s \<and> mem_ok (snd (append_escaped d s h))"
  unfolding append_escaped_def escape_def by (rule dstr.all_ok)

lemma ds_append_label_all:
  "ds_append_label d key val h =
     append_all ds_append d
       ((if dtxt d = [] then [] else ['','']) @ [key, [CHR ''='', DQ]] @ map esc_char val @ [[DQ]]) h"
proof -
  have app: "append_all a d (xs @ ys) h = (case append_all a d xs h of (d', h') \<Rightarrow> append_all a d' ys h')"
    for a and d :: dstring and xs ys h
    by (induction xs arbitrary: d h) (auto split: prod.splits)
  show ?thesis
    by (auto simp: ds_append_label_def append_escaped_def app split: prod.splits)
qed

lemma ds_append_label_ok:
  assumes "mem_ok h"
  shows "dtxt (fst (ds_append_label d key val h))
      = dtxt d @ (if dtxt d = [] then [] else '','') @ label_text key val"
    "mem_ok (snd (ds_append_label d key val h))"
  using dstr.all_ok [OF assms, of d "(if dtxt d = [] then [] else ['','']) @ [key, [CHR ''='', DQ]] @ map esc_char val @ [[DQ]]"]
  by (auto simp: ds_append_label_all label_text_def escape_def)

lemma ds_append_label_inv: "ds_inv d \<Longrightarrow> ds_inv (fst (ds_append_label d key val h))"
  unfolding ds_append_label_all by (rule dstr.all_inv)

end
