(* ===== verification/Prom.thy ===== *)
theory Prom
  imports DString TypeDict "HOL-Library.Multiset"
begin

text \<open>
  The exposition formatter of \<^verbatim>\<open>src/prom.c\<close>: the rule table, the fixed-size metric copies,
  number formatting and the rendering of an array of metrics.

  The order in which \<open>qsort\<close> leaves equal elements is unspecified, so the sort is a parameter
  \<open>qs\<close> of the renderer; what the code relies on is the contract of \<open>qsort\<close>.
\<close>

section \<open>The rule table\<close>

record prom_rule =
  r_plugin :: string
  r_type :: string
  r_family :: string
  r_pi_label :: cptr
  r_ti_label :: cptr
  r_ds_label :: cptr
  r_ds_values :: "cptr list"
  r_help :: string

definition mk_rule ::
  "string \<Rightarrow> string \<Rightarrow> string \<Rightarrow> cptr \<Rightarrow> cptr \<Rightarrow> cptr \<Rightarrow> cptr list \<Rightarrow> string \<Rightarrow> prom_rule" where
  "mk_rule p t f pil til dsl dsv hlp =
     \<lparr>r_plugin = p, r_type = t, r_family = f, r_pi_label = pil, r_ti_label = til,
      r_ds_label = dsl, r_ds_values = dsv, r_help = hlp\<rparr>"

definition no_ds :: "cptr list" where
  "no_ds = [None, None, None, None]"

definition RULES :: "prom_rule list" where
  "RULES =
    [mk_rule ''cpu'' ''percent'' ''svgd_cpu_percent'' None (Some ''mode'') None no_ds
       ''CPU busy percentage (delta between samples).'',
     mk_rule ''memory'' ''percent'' ''svgd_memory_percent'' None (Some ''type'') None no_ds
       ''Memory utilization percentage by category.'',
     mk_rule ''swap'' ''swap'' ''svgd_swap_bytes'' None (Some ''state'') None no_ds
       ''Swap usage in bytes.'',
     mk_rule ''load'' ''load'' ''svgd_load'' None None (Some ''interval'')
       [Some ''1m'', Some ''5m'', Some ''15m'', None]
       ''System load average (1/5/15-minute).'',
     mk_rule ''uptime'' ''uptime'' ''svgd_uptime_seconds'' None None None no_ds
       ''System uptime in seconds.'',
     mk_rule ''interface'' ''if_octets'' ''svgd_network_bytes_total'' (Some ''device'') None (Some ''direction'')
       [Some ''receive'', Some ''transmit'', None, None] ''Network bytes transferred.'',
     mk_rule ''interface'' ''if_packets'' ''svgd_network_packets_total'' (Some ''device'') None (Some ''direction'')
       [Some ''receive'', Some ''transmit'', None, None] ''Network packets transferred.'',
     mk_rule ''interface'' ''if_errors'' ''svgd_network_errors_total'' (Some ''device'') None (Some ''direction'')
       [Some ''receive'', Some ''transmit'', None, None] ''Network receive/transmit errors.'',
     mk_rule ''disk'' ''disk_ops'' ''svgd_disk_ops_total'' (Some ''device'') None (Some ''operation'')
       [Some ''read'', Some ''write'', None, None] ''Disk I/O operations completed.'',
     mk_rule ''disk'' ''disk_octets'' ''svgd_disk_bytes_total'' (Some ''device'') None (Some ''operation'')
       [Some ''read'', Some ''write'', None, None] ''Disk bytes read/written.'',
     mk_rule ''disk'' ''disk_time'' ''svgd_disk_io_time_ms_total'' (Some ''device'') None (Some ''operation'')
       [Some ''read'', Some ''write'', None, None] ''Cumulative disk I/O time in milliseconds.'',
     mk_rule ''df'' ''df_complex'' ''svgd_filesystem_bytes'' (Some ''fs'') (Some ''state'') None no_ds
       ''Filesystem used/free bytes.'',
     mk_rule ''processes'' ''ps_rss'' ''svgd_process_rss_bytes'' (Some ''process'') None None no_ds
       ''Per-process-group resident set size (bytes).'',
     mk_rule ''processes'' ''ps_cputime'' ''svgd_process_cpu_jiffies_total'' (Some ''process'') None (Some ''mode'')
       [Some ''user'', Some ''system'', None, None] ''Per-process-group cumulative CPU time (jiffies).'',
     mk_rule ''processes'' ''ps_count'' ''svgd_process_count'' (Some ''process'') None (Some ''kind'')
       [Some ''processes'', Some ''threads'', None, None] ''Per-process-group instance and thread counts.'',
     mk_rule ''thermal'' ''temperature'' ''svgd_thermal_celsius'' (Some ''thermal_zone'') (Some ''type'') None no_ds
       ''Thermal zone temperature (degrees Celsius).'',
     mk_rule ''tcpconns'' ''tcp_connections'' ''svgd_tcp_connections'' None (Some ''state'') None no_ds
       ''TCP socket count by connection state.'']"

definition find_rule :: "string \<Rightarrow> string \<Rightarrow> prom_rule option" where
  "find_rule p t = find (\<lambda>r. r_plugin r = p \<and> r_type r = t) RULES"

definition prom_type_for :: "string \<Rightarrow> string" where
  "prom_type_for t =
     (case types_lookup (Some t) of
        None \<Rightarrow> ''untyped''
      | Some td \<Rightarrow>
          if td_ds_count td \<le> 0 then ''untyped''
          else if ds_dst (td_ds td ! 0) = DST_GAUGE then ''gauge'' else ''counter'')"

section \<open>Metric copies\<close>

record snap_metric =
  sm_plugin :: string
  sm_plugin_instance :: string
  sm_type :: string
  sm_type_instance :: string
  sm_ds_count :: int
  sm_values :: "double list"

definition copy_str :: "nat \<Rightarrow> cptr \<Rightarrow> string" where
  \<comment> \<open>the string left in a destination of \<open>n > 0\<close> bytes\<close>
  "copy_str n src = (case src of None \<Rightarrow> [] | Some s \<Rightarrow> take (n - 1) s)"

definition copy_metric :: "metric \<Rightarrow> snap_metric" where
  \<comment> \<open>the values beyond \<open>ds_count\<close> are never read\<close>
  "copy_metric src =
     (let n = (if ds_count src > int METRIC_MAX_DS then int METRIC_MAX_DS else ds_count src)
      in \<lparr>sm_plugin = copy_str 48 (plugin src), sm_plugin_instance = copy_str 256 (plugin_instance src),
          sm_type = copy_str 48 (type src), sm_type_instance = copy_str 128 (type_instance src),
          sm_ds_count = n, sm_values = take (nat n) (vals src)\<rparr>)"

section \<open>Number formatting\<close>

fun dabs_le :: "double \<Rightarrow> nat \<Rightarrow> bool" where
  \<comment> \<open>\<open>-k <= v && v <= k\<close> for a finite \<open>v\<close> and an integer \<open>k\<close>\<close>
  "dabs_le (Finite s m e) k = (m * 2 ^ nat e \<le> k * 2 ^ nat (- e))"
| "dabs_le _ k = False"

fun is_integral :: "double \<Rightarrow> bool" where
  \<comment> \<open>\<open>v == floor(v)\<close> for a finite \<open>v\<close>\<close>
  "is_integral (Finite s m e) = ((m * 2 ^ nat e) mod 2 ^ nat (- e) = 0)"
| "is_integral _ = True"

definition fmt_val :: "nat \<Rightarrow> double \<Rightarrow> string" where
  "fmt_val n v =
     (if \<not> isfinite v then snprintf_buf n ''0''
      else if dabs_le v (10 ^ 15) \<and> is_integral v then snprintf_buf n (fmt_f0 v)
      else snprintf_buf n (fmt_g 10 v))"

section \<open>Rendering\<close>

type_synonym entry = "prom_rule \<times> nat"

fun strcmp :: "string \<Rightarrow> string \<Rightarrow> int" where
  "strcmp [] [] = 0"
| "strcmp [] (y # ys) = - 1"
| "strcmp (x # xs) [] = 1"
| "strcmp (x # xs) (y # ys) =
     (if x = y then strcmp xs ys else if (of_char x :: nat) < of_char y then - 1 else 1)"

definition cmp_family :: "entry \<Rightarrow> entry \<Rightarrow> int" where
  "cmp_family x y = strcmp (r_family (fst x)) (r_family (fst y))"

definition add_label :: "cptr \<Rightarrow> string \<Rightarrow> dstring \<times> mem \<Rightarrow> dstring \<times> mem" where
  \<comment> \<open>\<open>if (label != NULL && value[0] != 0) ds_append_label(&labels, label, value)\<close>\<close>
  "add_label key val dh =
     (case key of None \<Rightarrow> dh
      | Some k \<Rightarrow> if val \<noteq> [] then ds_append_label (fst dh) k val (snd dh) else dh)"

definition ds_value :: "prom_rule \<Rightarrow> nat \<Rightarrow> cptr" where
  "ds_value r di = (if di < METRIC_MAX_DS then r_ds_values r ! di else None)"

definition add_ds_label :: "prom_rule \<Rightarrow> nat \<Rightarrow> dstring \<times> mem \<Rightarrow> dstring \<times> mem" where
  "add_ds_label r di dh =
     (case (r_ds_label r, ds_value r di) of
        (Some k, Some v) \<Rightarrow> ds_append_label (fst dh) k v (snd dh)
      | _ \<Rightarrow> dh)"

definition sample_labels :: "prom_rule \<Rightarrow> snap_metric \<Rightarrow> nat \<Rightarrow> mem \<Rightarrow> dstring \<times> mem" where
  "sample_labels r sm di h =
     add_ds_label r di
       (add_label (r_ti_label r) (sm_type_instance sm)
         (add_label (r_pi_label r) (sm_plugin_instance sm) (ds_empty, h)))"

definition render_sample :: "prom_rule \<Rightarrow> snap_metric \<Rightarrow> nat \<Rightarrow> dstring \<Rightarrow> mem \<Rightarrow> dstring \<times> mem" where
  "render_sample r sm di d h =
     (case sample_labels r sm di h of (labels, h) \<Rightarrow>
        let valbuf = fmt_val 64 (sm_values sm ! di)
        in if length (dtxt labels) > 0
           then ds_appendf d (r_family r @ ''{'' @ dtxt labels @ ''} '' @ valbuf @ [NL]) h
           else ds_appendf d (r_family r @ '' '' @ valbuf @ [NL]) h)"

fun render_samples :: "prom_rule \<Rightarrow> snap_metric \<Rightarrow> nat list \<Rightarrow> dstring \<Rightarrow> mem \<Rightarrow> dstring \<times> mem" where
  "render_samples r sm [] d h = (d, h)"
| "render_samples r sm (di # dis) d h =
     (case render_sample r sm di d h of (d', h') \<Rightarrow> render_samples r sm dis d' h')"

definition render_header :: "prom_rule \<Rightarrow> snap_metric \<Rightarrow> dstring \<Rightarrow> mem \<Rightarrow> dstring \<times> mem" where
  "render_header r sm d h =
     (case ds_appendf d (''# HELP '' @ r_family r @ '' '' @ r_help r @ [NL]) h of (d, h) \<Rightarrow>
        ds_appendf d (''# TYPE '' @ r_family r @ '' '' @ prom_type_for (sm_type sm) @ [NL]) h)"

fun render_loop :: "snap_metric list \<Rightarrow> entry list \<Rightarrow> cptr \<Rightarrow> dstring \<Rightarrow> mem \<Rightarrow> dstring \<times> mem" where
  "render_loop ms [] cur_family d h = (d, h)"
| "render_loop ms ((r, i) # es) cur_family d h =
     (let sm = ms ! i
      in case (if cur_family \<noteq> Some (r_family r) then render_header r sm d h else (d, h)) of (d, h) \<Rightarrow>
         case render_samples r sm [0..<nat (sm_ds_count sm)] d h of (d, h) \<Rightarrow>
           render_loop ms es (Some (r_family r)) d h)"

definition entries :: "snap_metric list \<Rightarrow> entry list" where
  \<comment> \<open>the pairs with a rule, in source order\<close>
  "entries ms =
     List.map_filter (\<lambda>i. map_option (\<lambda>r. (r, i)) (find_rule (sm_plugin (ms ! i)) (sm_type (ms ! i))))
       [0..<length ms]"

definition render_to_dstring ::
  "(entry list \<Rightarrow> entry list) \<Rightarrow> dstring \<Rightarrow> snap_metric list \<Rightarrow> mem \<Rightarrow> dstring \<times> mem" where
  "render_to_dstring qs d ms h =
     (if ms = [] then
        (case ds_reserve d 0 h of (d, h) \<Rightarrow>
           if dbuf d = None
           then (case alloc h of (ok, h) \<Rightarrow> (if ok then d\<lparr>dbuf := Some [], dterm := True\<rparr> else d, h))
           else (d, h))
      else case alloc h of (ok, h) \<Rightarrow>
        if \<not> ok then (d, h) else render_loop ms (qs (entries ms)) None d h)"

text \<open>A returned \<open>char *\<close>: null, or a text and whether it is terminated.\<close>

type_synonym cbuf = "(string \<times> bool) option"

definition empty_string :: "mem \<Rightarrow> cbuf \<times> mem" where
  \<comment> \<open>\<open>out = malloc(1); if (out != NULL) out[0] = 0; return out;\<close>\<close>
  "empty_string h = (case alloc h of (ok, h) \<Rightarrow> (if ok then Some ([], True) else None, h))"

definition render_copy :: "(entry list \<Rightarrow> entry list) \<Rightarrow> snap_metric list \<Rightarrow> mem \<Rightarrow> cbuf \<times> mem" where
  \<comment> \<open>the common end of \<open>prom_render\<close> and \<open>prom_render_metrics\<close>\<close>
  "render_copy qs ms h =
     (case render_to_dstring qs ds_empty ms h of (d, h) \<Rightarrow>
        case dbuf d of None \<Rightarrow> empty_string h | Some s \<Rightarrow> (Some (s, dterm d), h))"

definition prom_render_metrics :: "(entry list \<Rightarrow> entry list) \<Rightarrow> metric list \<Rightarrow> mem \<Rightarrow> cbuf \<times> mem" where
  "prom_render_metrics qs metrics h =
     (if metrics \<noteq> [] then
        (case alloc h of (ok, h) \<Rightarrow>
           if \<not> ok then empty_string h else render_copy qs (map copy_metric metrics) h)
      else render_copy qs [] h)"

section \<open>The table\<close>

lemmas rule_tables = mk_rule_def no_ds_def

interpretation rules: keyed_table RULES "\<lambda>r. (r_plugin r, r_type r)" "\<lambda>(p, t). find_rule p t"
proof unfold_locales
  show "(case k of (p, t) \<Rightarrow> find_rule p t) = find (\<lambda>e. (r_plugin e, r_type e) = k) RULES" for k
    by (cases k) (simp add: find_rule_def)
  show "distinct (map (\<lambda>r. (r_plugin r, r_type r)) RULES)"
    by (simp add: RULES_def mk_rule_def)
qed

lemma families_distinct: "distinct (map r_family RULES)"
  by (simp add: RULES_def mk_rule_def)

lemma family_inj: "r \<in> set RULES \<Longrightarrow> r' \<in> set RULES \<Longrightarrow> r_family r = r_family r' \<Longrightarrow> r = r'"
  using families_distinct by (auto simp: distinct_map inj_on_def)

lemma find_rule_SomeD: "find_rule p t = Some r \<Longrightarrow> r \<in> set RULES \<and> r_plugin r = p \<and> r_type r = t"
  using rules.lookup_Some_iff [of "(p, t)" r] by simp

text \<open>Each rule labels exactly the data sources its type has.\<close>

definition rule_ok :: "prom_rule \<Rightarrow> bool" where
  "rule_ok r \<longleftrightarrow>
     (case types_lookup (Some (r_type r)) of
        None \<Rightarrow> False
      | Some td \<Rightarrow>
          length (r_ds_values r) = METRIC_MAX_DS \<and> length (r_family r) \<le> 32
          \<and> (if td_ds_count td = 1 then r_ds_label r = None
             else r_ds_label r \<noteq> None
               \<and> (\<forall>i < METRIC_MAX_DS. r_ds_values r ! i \<noteq> None \<longleftrightarrow> int i < td_ds_count td)
               \<and> distinct (take (nat (td_ds_count td)) (r_ds_values r))))"

lemma rules_ok: "list_all rule_ok RULES"
  by (simp add: RULES_def mk_rule_def no_ds_def rule_ok_def METRIC_MAX_DS_def
      All_less_Suc numeral_eq_Suc)

section \<open>The text of a sample\<close>

definition add_comma :: "string \<Rightarrow> string \<Rightarrow> string" where
  "add_comma t l = (if t = [] then l else t @ '','' @ l)"

definition label_list :: "prom_rule \<Rightarrow> snap_metric \<Rightarrow> nat \<Rightarrow> (string \<times> string) list" where
  \<comment> \<open>the labels of a sample and their values\<close>
  "label_list r sm di =
     (case r_pi_label r of Some k \<Rightarrow> if sm_plugin_instance sm = [] then [] else [(k, sm_plugin_instance sm)] | None \<Rightarrow> [])
   @ (case r_ti_label r of Some k \<Rightarrow> if sm_type_instance sm = [] then [] else [(k, sm_type_instance sm)] | None \<Rightarrow> [])
   @ (case (r_ds_label r, ds_value r di) of (Some k, Some v) \<Rightarrow> [(k, v)] | _ \<Rightarrow> [])"

definition labels_text :: "(string \<times> string) list \<Rightarrow> string" where
  "labels_text ls = foldl add_comma [] (map (\<lambda>(k, v). label_text k v) ls)"

definition sample_text :: "prom_rule \<Rightarrow> snap_metric \<Rightarrow> nat \<Rightarrow> string" where
  "sample_text r sm di =
     (let ls = label_list r sm di
      in r_family r @ (if ls = [] then [] else ''{'' @ labels_text ls @ ''}'') @ '' ''
         @ fmt_val 64 (sm_values sm ! di) @ [NL])"

definition metric_text :: "prom_rule \<Rightarrow> snap_metric \<Rightarrow> string" where
  "metric_text r sm = concat (map (sample_text r sm) [0..<nat (sm_ds_count sm)])"

definition header_text :: "prom_rule \<Rightarrow> string \<Rightarrow> string" where
  "header_text r t =
     ''# HELP '' @ r_family r @ '' '' @ r_help r @ [NL]
   @ ''# TYPE '' @ r_family r @ '' '' @ prom_type_for t @ [NL]"

fun loop_text :: "snap_metric list \<Rightarrow> entry list \<Rightarrow> cptr \<Rightarrow> string" where
  "loop_text ms [] cur = []"
| "loop_text ms ((r, i) # es) cur =
     (if cur \<noteq> Some (r_family r) then header_text r (sm_type (ms ! i)) else [])
   @ metric_text r (ms ! i) @ loop_text ms es (Some (r_family r))"

lemma label_text_nonempty [simp]: "label_text k v \<noteq> []"
  by (simp add: label_text_def)

lemma labels_text_snoc: "labels_text (ls @ [(k, v)]) = add_comma (labels_text ls) (label_text k v)"
  by (simp add: labels_text_def)

lemma labels_text_empty_iff: "labels_text ls = [] \<longleftrightarrow> ls = []"
  by (cases ls rule: rev_cases) (auto simp: labels_text_def add_comma_def)

definition label_state :: "(string \<times> string) list \<Rightarrow> dstring \<times> mem \<Rightarrow> bool" where
  "label_state ls dh \<longleftrightarrow> dtxt (fst dh) = labels_text ls \<and> mem_ok (snd dh)"

lemma label_state_add:
  "label_state ls dh \<Longrightarrow> label_state (ls @ [(k, v)]) (ds_append_label (fst dh) k v (snd dh))"
  by (auto simp: label_state_def labels_text_snoc add_comma_def ds_append_label_ok)

lemma sample_labels_ok:
  assumes "mem_ok h"
  shows "label_state (label_list r sm di) (sample_labels r sm di h)"
proof -
  have 0: "label_state [] (ds_empty, h)" using assms by (simp add: label_state_def labels_text_def)
  have 1: "label_state (ls @ (case key of Some k \<Rightarrow> if val = [] then [] else [(k, val)] | None \<Rightarrow> []))
      (add_label key val dh)" if "label_state ls dh" for ls key val dh
    using that label_state_add by (auto simp: add_label_def split: option.splits)
  have 2: "label_state (ls @ (case (r_ds_label r, ds_value r di) of (Some k, Some v) \<Rightarrow> [(k, v)] | _ \<Rightarrow> []))
      (add_ds_label r di dh)" if "label_state ls dh" for ls dh
    using that label_state_add by (auto simp: add_ds_label_def split: option.splits)
  show ?thesis
    using 2 [OF 1 [OF 1 [OF 0]]] unfolding sample_labels_def label_list_def by simp
qed

section \<open>What the renderer writes\<close>

definition writes :: "string \<Rightarrow> (dstring \<Rightarrow> mem \<Rightarrow> dstring \<times> mem) \<Rightarrow> bool" where
  \<comment> \<open>while no allocation fails, exactly this text is appended\<close>
  "writes s f \<longleftrightarrow> (\<forall>d h. mem_ok h \<longrightarrow> dtxt (fst (f d h)) = dtxt d @ s \<and> mem_ok (snd (f d h)))"

lemma writes_seq:
  "writes s f \<Longrightarrow> writes t g \<Longrightarrow> writes (s @ t) (\<lambda>d h. case f d h of (d', h') \<Rightarrow> g d' h')"
  by (simp add: writes_def case_prod_beta)

lemma writes_skip: "writes [] (\<lambda>d h. (d, h))"
  by (simp add: writes_def)

lemma writes_appendf: "writes s (\<lambda>d h. ds_appendf d s h)"
  using dstr.app_ok by (simp add: writes_def ds_append_appendf)

lemma writes_header: "writes (header_text r (sm_type sm)) (render_header r sm)"
  using writes_seq [OF writes_appendf writes_appendf,
      of "''# HELP '' @ r_family r @ '' '' @ r_help r @ [NL]"
         "''# TYPE '' @ r_family r @ '' '' @ prom_type_for (sm_type sm) @ [NL]"]
  by (simp add: header_text_def render_header_def [abs_def] eta_contract_eq)

lemma writes_sample: "writes (sample_text r sm di) (render_sample r sm di)"
proof -
  have "dtxt (fst (render_sample r sm di d h)) = dtxt d @ sample_text r sm di
      \<and> mem_ok (snd (render_sample r sm di d h))" if h: "mem_ok h" for d h
  proof -
    obtain l h1 where l: "sample_labels r sm di h = (l, h1)" by force
    have l1: "dtxt l = labels_text (label_list r sm di)" "mem_ok h1"
      using sample_labels_ok [OF h, of r sm di] by (simp_all add: l label_state_def)
    show ?thesis
      using dstr.app_ok [OF l1(2)]
      by (auto simp: render_sample_def l l1(1) Let_def ds_append_appendf sample_text_def
          labels_text_empty_iff)
  qed
  then show ?thesis by (simp add: writes_def)
qed

lemma writes_samples: "writes (concat (map (sample_text r sm) dis)) (render_samples r sm dis)"
proof (induction dis)
  case Nil
  show ?case using writes_skip by (simp add: writes_def)
next
  case (Cons di dis)
  from writes_seq [OF writes_sample Cons.IH] show ?case by (simp add: writes_def)
qed

lemma writes_loop: "writes (loop_text ms es cur) (render_loop ms es cur)"
proof (induction es arbitrary: cur)
  case Nil
  show ?case by (simp add: writes_def)
next
  case (Cons e es)
  obtain r i where e: "e = (r, i)" by force
  let ?hd = "\<lambda>d h. if cur \<noteq> Some (r_family r) then render_header r (ms ! i) d h else (d, h)"
  have hd: "writes (if cur \<noteq> Some (r_family r) then header_text r (sm_type (ms ! i)) else []) ?hd"
    using writes_header writes_skip by simp
  from writes_seq [OF hd writes_seq [OF writes_samples Cons.IH [of "Some (r_family r)"]]]
  show ?case unfolding e writes_def by (simp add: Let_def metric_text_def case_prod_beta)
qed

text \<open>Whatever the allocator does, the string stays well formed.\<close>

definition keeps :: "(dstring \<Rightarrow> mem \<Rightarrow> dstring \<times> mem) \<Rightarrow> bool" where
  "keeps f \<longleftrightarrow> (\<forall>d h. ds_inv d \<longrightarrow> ds_inv (fst (f d h)))"

lemma keeps_appendf: "keeps (\<lambda>d. ds_appendf d s)"
  using ds_append_inv by (simp add: keeps_def ds_append_appendf)

lemma keeps_header: "keeps (render_header r sm)"
  using keeps_appendf by (simp add: keeps_def render_header_def case_prod_beta)

lemma keeps_sample: "keeps (render_sample r sm di)"
  using keeps_appendf by (simp add: keeps_def render_sample_def Let_def case_prod_beta)

lemma keeps_samples: "keeps (render_samples r sm dis)"
proof (induction dis)
  case (Cons di dis)
  then show ?case using keeps_sample [of r sm di] by (simp add: keeps_def case_prod_beta)
qed (simp add: keeps_def)

lemma keeps_loop: "keeps (render_loop ms es cur)"
proof (induction es arbitrary: cur)
  case Nil
  show ?case by (simp add: keeps_def)
next
  case (Cons e es)
  obtain r i where e: "e = (r, i)" by force
  show ?case
    using Cons.IH [of "Some (r_family r)"] keeps_samples [of r "ms ! i" "[0..<nat (sm_ds_count (ms ! i))]"]
      keeps_header [of r "ms ! i"]
    unfolding e by (simp add: keeps_def Let_def case_prod_beta)
qed

section \<open>One block per family\<close>

definition block :: "snap_metric list \<Rightarrow> entry list \<Rightarrow> prom_rule \<Rightarrow> string" where
  \<comment> \<open>header of a family, then the samples of every metric of the family\<close>
  "block ms es r =
     header_text r (r_type r)
   @ concat (map (\<lambda>e. metric_text r (ms ! snd e)) (filter (\<lambda>e. fst e = r) es))"

definition exposition :: "snap_metric list \<Rightarrow> entry list \<Rightarrow> string" where
  "exposition ms es = concat (map (block ms es) (firsts (map fst es)))"

definition entries_ok :: "snap_metric list \<Rightarrow> entry list \<Rightarrow> bool" where
  "entries_ok ms es \<longleftrightarrow> (\<forall>(r, i) \<in> set es. r \<in> set RULES \<and> sm_type (ms ! i) = r_type r)"

lemma entries_ok_entries: "entries_ok ms (entries ms)"
  using find_rule_SomeD by (fastforce simp: entries_ok_def entries_def map_filter_def)

lemma strcmp_antisym: "strcmp a b \<le> 0 \<Longrightarrow> strcmp b a \<le> 0 \<Longrightarrow> a = b"
  by (induction a b rule: strcmp.induct) (auto split: if_splits)

definition sorted_families :: "entry list \<Rightarrow> bool" where
  "sorted_families es \<longleftrightarrow> sorted_wrt (\<lambda>x y. cmp_family x y \<le> 0) es"

lemma exposition_split:
  "exposition ms ((r, i) # es) = header_text r (r_type r) @ metric_text r (ms ! i)
     @ concat (map (\<lambda>e. metric_text r (ms ! snd e)) (filter (\<lambda>e. fst e = r) es))
     @ exposition ms (filter (\<lambda>e. fst e \<noteq> r) es)"
proof -
  have f: "filter (\<lambda>x. x \<noteq> r) (map fst es) = map fst (filter (\<lambda>e. fst e \<noteq> r) es)"
    by (induction es) auto
  have "block ms ((r, i) # es) x = block ms (filter (\<lambda>e. fst e \<noteq> r) es) x" if "x \<noteq> r" for x
  proof -
    have "filter (\<lambda>e. fst e = x) (filter (\<lambda>e. fst e \<noteq> r) es) = filter (\<lambda>e. fst e = x) es"
      using that by (induction es) auto
    then show ?thesis using that by (simp add: block_def)
  qed
  then have "map (block ms ((r, i) # es)) (firsts (map fst (filter (\<lambda>e. fst e \<noteq> r) es)))
      = map (block ms (filter (\<lambda>e. fst e \<noteq> r) es)) (firsts (map fst (filter (\<lambda>e. fst e \<noteq> r) es)))"
    by (intro map_cong) auto
  note m = this
  have "exposition ms ((r, i) # es)
      = block ms ((r, i) # es) r @ exposition ms (filter (\<lambda>e. fst e \<noteq> r) es)"
    unfolding exposition_def list.map firsts_Cons fst_conv f concat.simps m ..
  then show ?thesis by (simp add: block_def)
qed

text \<open>In a sorted list the loop finishes a family before it starts the next one.\<close>

lemma loop_text_sorted:
  assumes "sorted_families es" "entries_ok ms es" "r0 \<in> set RULES"
    "\<forall>e \<in> set es. strcmp (r_family r0) (r_family (fst e)) \<le> 0"
  shows "loop_text ms es (Some (r_family r0)) =
     concat (map (\<lambda>e. metric_text r0 (ms ! snd e)) (filter (\<lambda>e. fst e = r0) es))
     @ exposition ms (filter (\<lambda>e. fst e \<noteq> r0) es)"
  using assms
proof (induction es arbitrary: r0)
  case Nil
  then show ?case by (simp add: exposition_def firsts_def)
next
  case (Cons e es)
  obtain r i where e: "e = (r, i)" by force
  have r: "r \<in> set RULES" "sm_type (ms ! i) = r_type r" "entries_ok ms es" "sorted_families es"
    and rs: "\<forall>e \<in> set es. strcmp (r_family r) (r_family (fst e)) \<le> 0"
    using Cons.prems by (auto simp: e entries_ok_def sorted_families_def cmp_family_def)
  note IH = Cons.IH [OF r(4) r(3)]
  show ?case
  proof (cases "r = r0")
    case True
    with IH [of r0] Cons.prems show ?thesis by (simp add: e)
  next
    case False
    then have fam: "r_family r \<noteq> r_family r0" using family_inj [OF r(1) Cons.prems(3)] by blast
    have "fst x \<noteq> r0" if x: "x \<in> set es" for x
    proof
      assume "fst x = r0"
      with rs x have "strcmp (r_family r) (r_family r0) \<le> 0" by blast
      moreover have "strcmp (r_family r0) (r_family r) \<le> 0" using Cons.prems(4) by (simp add: e)
      ultimately show False using fam strcmp_antisym by blast
    qed
    then have no: "filter (\<lambda>e. fst e = r0) es = []" "filter (\<lambda>e. fst e \<noteq> r0) es = es"
      by (auto simp: filter_empty_conv filter_id_conv)
    have "exposition ms ((r, i) # es) = header_text r (r_type r) @ metric_text r (ms ! i)
        @ concat (map (\<lambda>e. metric_text r (ms ! snd e)) (filter (\<lambda>e. fst e = r) es))
        @ exposition ms (filter (\<lambda>e. fst e \<noteq> r) es)"
      by (rule exposition_split)
    with IH [OF r(1) rs] False fam no r(2) show ?thesis by (simp add: e)
  qed
qed

lemma loop_text_exposition:
  assumes "sorted_families es" "entries_ok ms es"
  shows "loop_text ms es None = exposition ms es"
proof (cases es)
  case Nil
  then show ?thesis by (simp add: exposition_def firsts_def)
next
  case (Cons e es')
  obtain r i where e: "e = (r, i)" by force
  have "loop_text ms es' (Some (r_family r)) =
     concat (map (\<lambda>e. metric_text r (ms ! snd e)) (filter (\<lambda>e. fst e = r) es'))
     @ exposition ms (filter (\<lambda>e. fst e \<noteq> r) es')"
    using assms Cons by (intro loop_text_sorted) (auto simp: e entries_ok_def sorted_families_def cmp_family_def)
  moreover have "sm_type (ms ! i) = r_type r" using assms Cons by (simp add: e entries_ok_def)
  ultimately show ?thesis using exposition_split [of ms r i es'] by (simp add: Cons e)
qed

section \<open>The sort\<close>

text \<open>The documented behaviour of \<open>qsort\<close> with \<open>cmp_family\<close>, and what the renderer does with
  any such sort.\<close>

locale family_sorter =
  fixes qs :: "entry list \<Rightarrow> entry list"
  assumes qs_mset: "mset (qs es) = mset es"
    and qs_sorted: "sorted_families (qs es)"
begin

lemma qs_entries_ok: "entries_ok ms (qs (entries ms))"
  using entries_ok_entries [of ms] mset_eq_setD [OF qs_mset, of "entries ms"] by (simp add: entries_ok_def)

lemma loop_text_qs: "loop_text ms (qs (entries ms)) None = exposition ms (qs (entries ms))"
  by (rule loop_text_exposition [OF qs_sorted qs_entries_ok])

lemma render_copy_ok:
  assumes "mem_ok h" "ms \<noteq> []"
  shows "fst (render_copy qs ms h) = Some (exposition ms (qs (entries ms)), True)"
proof -
  obtain ok h1 where a: "alloc h = (ok, h1)" by force
  have ok: "ok" "mem_ok h1" using alloc_ok [OF assms(1) a] by simp_all
  obtain d h2 where r: "render_loop ms (qs (entries ms)) None ds_empty h1 = (d, h2)" by force
  have d: "dtxt d = exposition ms (qs (entries ms))" "mem_ok h2"
    using writes_loop [of ms "qs (entries ms)" None, unfolded writes_def loop_text_qs, rule_format, OF ok(2), of ds_empty] r
    by simp_all
  have inv: "ds_inv d"
    using keeps_loop [of ms "qs (entries ms)" None, unfolded keeps_def, rule_format, of ds_empty h1] r by simp
  obtain ok3 h3 where e: "alloc h2 = (ok3, h3)" by force
  have ok3: ok3 using alloc_ok [OF d(2) e] by simp
  show ?thesis
    using assms(2) ok a r inv d(1) e ok3
    by (auto simp: render_copy_def render_to_dstring_def ds_inv_def dtxt_def empty_string_def
        split: option.splits)
qed

lemma render_copy_terminated:
  assumes "ms \<noteq> []" "fst (render_copy qs ms h) = Some (t, b)"
  shows b
proof -
  have "ds_inv (fst (render_loop ms es None ds_empty h'))" for es h'
    using keeps_loop by (simp add: keeps_def)
  moreover have "ds_inv (fst (render_to_dstring qs ds_empty ms h))"
    using assms(1) calculation by (simp add: render_to_dstring_def case_prod_beta)
  ultimately show ?thesis
    using assms(2)
    by (auto simp: render_copy_def empty_string_def ds_inv_def case_prod_beta split: option.splits if_splits)
qed

end

text \<open>The sort of the C library is stable in practice (a merge sort); insertion is its
  simplest description.\<close>

fun insert_family :: "entry \<Rightarrow> entry list \<Rightarrow> entry list" where
  "insert_family e [] = [e]"
| "insert_family e (x # xs) = (if cmp_family e x \<le> 0 then e # x # xs else x # insert_family e xs)"

definition sort_family :: "entry list \<Rightarrow> entry list" where
  "sort_family es = foldr insert_family es []"

lemma char_code_linear: "x \<noteq> y \<Longrightarrow> \<not> (of_char x :: nat) < of_char y \<Longrightarrow> (of_char y :: nat) < of_char x"
  by (metis linorder_less_linear of_char_eq_iff)

lemma strcmp_total: "\<not> strcmp a b \<le> 0 \<Longrightarrow> strcmp b a \<le> 0"
  by (induction a b rule: strcmp.induct) (auto split: if_splits dest: char_code_linear)

lemma strcmp_trans: "strcmp a b \<le> 0 \<Longrightarrow> strcmp b c \<le> 0 \<Longrightarrow> strcmp a c \<le> 0"
proof (induction a b arbitrary: c rule: strcmp.induct)
  case (1 c)
  then show ?case by simp
next
  case (2 y ys c)
  then show ?case by (cases c) auto
next
  case (3 x xs c)
  then show ?case by simp
next
  case (4 x xs y ys c)
  then show ?case by (cases c) (auto split: if_splits)
qed

lemma set_insert_family [simp]: "set (insert_family e xs) = insert e (set xs)"
  by (induction xs) auto

lemma mset_insert_family [simp]: "mset (insert_family e xs) = add_mset e (mset xs)"
  by (induction xs) auto

lemma sorted_insert_family: "sorted_families xs \<Longrightarrow> sorted_families (insert_family e xs)"
proof (induction xs)
  case Nil
  show ?case by (simp add: sorted_families_def)
next
  case (Cons x xs)
  show ?case
  proof (cases "cmp_family e x \<le> 0")
    case True
    with Cons.prems strcmp_trans show ?thesis
      by (auto simp: sorted_families_def cmp_family_def)
  next
    case False
    then have "cmp_family x e \<le> 0" unfolding cmp_family_def by (rule strcmp_total)
    with False Cons show ?thesis by (auto simp: sorted_families_def)
  qed
qed

interpretation sort_family: family_sorter sort_family
proof unfold_locales
  show "mset (sort_family es) = mset es" for es by (induction es) (simp_all add: sort_family_def)
  show "sorted_families (sort_family es)" for es
    by (induction es) (simp add: sort_family_def sorted_families_def, simp add: sort_family_def sorted_insert_family)
qed

section \<open>Values\<close>

lemma fmt_val_of_int:
  assumes "\<bar>i\<bar> \<le> 10 ^ 15"
  shows "fmt_val 64 (double_of_int i) = show_int i"
proof -
  have b: "\<bar>i\<bar> \<le> 2 ^ 53" using assms by simp
  obtain m e where me: "double_of_int i = Finite (i < 0) m e" "m * 2 ^ nat e = nat \<bar>i\<bar> * 2 ^ nat (- e)"
    using double_of_int_scaled [OF b] by blast
  have "length (show_int i) < 64" using length_show_int [OF b] by simp
  moreover have "nat \<bar>i\<bar> \<le> 10 ^ 15" using assms by (simp add: nat_le_iff)
  ultimately show ?thesis
    using me fmt_f0_of_int [OF b] by (simp add: fmt_val_def snprintf_buf_fits)
qed

end
