(* ===== verification/Snapshot.thy ===== *)
theory Snapshot
  imports Prom "HOL-Library.Sublist"
begin

text \<open>
  The snapshot store of \<^verbatim>\<open>src/prom.c\<close>: two growable buffers behind the pointers
  \<open>g_staged\<close> and \<open>g_published\<close>, filled by the collection thread, swapped when a cycle ends and
  copied by the HTTP thread.

  The buffers live in an explicit heap, because the swap makes the two pointers exchange
  their targets. \<open>sb_items\<close> holds the entries written so far; the rest of the \<open>sb_cap\<close> slots is
  uninitialised.
\<close>

record snap_buf =
  sb_items :: "snap_metric list"
  sb_count :: nat
  sb_cap :: nat

record snap_state =
  sn_heap :: "nat \<Rightarrow> snap_buf option"
  sn_next :: nat
  g_staged :: "nat option"
  g_published :: "nat option"

definition snap_init :: snap_state where
  "snap_init = \<lparr>sn_heap = Map.empty, sn_next = 0, g_staged = None, g_published = None\<rparr>"

section \<open>Operations\<close>

definition sb_new :: "snap_state \<Rightarrow> mem \<Rightarrow> nat option \<times> snap_state \<times> mem" where
  "sb_new s h =
     (case alloc h of (ok, h) \<Rightarrow>
        if ok
        then (Some (sn_next s),
              s\<lparr>sn_heap := (sn_heap s)(sn_next s \<mapsto> \<lparr>sb_items = [], sb_count = 0, sb_cap = 0\<rparr>),
                sn_next := sn_next s + 1\<rparr>, h)
        else (None, s, h))"

definition sb_reserve :: "snap_buf \<Rightarrow> nat \<Rightarrow> mem \<Rightarrow> snap_buf \<times> mem" where
  "sb_reserve sb need h =
     (if need \<le> sb_cap sb then (sb, h)
      else case alloc h of (ok, h) \<Rightarrow>
        (if ok then sb\<lparr>sb_cap := grow_cap (if sb_cap sb \<noteq> 0 then sb_cap sb else 32) need\<rparr> else sb, h))"

definition ensure_staged :: "snap_state \<Rightarrow> mem \<Rightarrow> snap_state \<times> mem" where
  \<comment> \<open>\<open>if (g_staged == NULL) g_staged = sb_new();\<close>\<close>
  "ensure_staged s h =
     (case g_staged s of
        Some p \<Rightarrow> (s, h)
      | None \<Rightarrow> (case sb_new s h of (p, s, h) \<Rightarrow> (s\<lparr>g_staged := p\<rparr>, h)))"

definition set_buf :: "nat \<Rightarrow> snap_buf \<Rightarrow> snap_state \<Rightarrow> snap_state" where
  "set_buf p b s = s\<lparr>sn_heap := (sn_heap s)(p \<mapsto> b)\<rparr>"

definition buf :: "snap_state \<Rightarrow> nat \<Rightarrow> snap_buf" where
  "buf s p = the (sn_heap s p)"

definition prom_snapshot_begin :: "snap_state \<Rightarrow> mem \<Rightarrow> snap_state \<times> mem" where
  "prom_snapshot_begin s h =
     (case ensure_staged s h of (s, h) \<Rightarrow>
        case g_staged s of
          None \<Rightarrow> (s, h)
        | Some p \<Rightarrow> (set_buf p ((buf s p)\<lparr>sb_count := 0\<rparr>) s, h))"

definition put_item :: "snap_buf \<Rightarrow> snap_metric \<Rightarrow> snap_buf" where
  \<comment> \<open>\<open>copy_metric(&items[count], m); count++;\<close>\<close>
  "put_item b x =
     b\<lparr>sb_items := (if sb_count b < length (sb_items b) then (sb_items b)[sb_count b := x]
                     else sb_items b @ [x]),
       sb_count := sb_count b + 1\<rparr>"

definition prom_snapshot_add :: "metric \<Rightarrow> snap_state \<Rightarrow> mem \<Rightarrow> snap_state \<times> mem" where
  "prom_snapshot_add m s h =
     (case ensure_staged s h of (s, h) \<Rightarrow>
        case g_staged s of
          None \<Rightarrow> (s, h)
        | Some p \<Rightarrow>
            (let b = buf s p
             in case (if sb_cap b \<le> sb_count b then sb_reserve b (sb_count b + 1) h else (b, h)) of (b, h) \<Rightarrow>
                  if sb_count b < sb_cap b
                  then (set_buf p (put_item b (copy_metric m)) s, h)
                  else (set_buf p b s, h)))"

definition prom_snapshot_publish :: "snap_state \<Rightarrow> snap_state" where
  "prom_snapshot_publish s = s\<lparr>g_published := g_staged s, g_staged := g_published s\<rparr>"

definition prom_render :: "(entry list \<Rightarrow> entry list) \<Rightarrow> snap_state \<Rightarrow> mem \<Rightarrow> cbuf \<times> mem" where
  "prom_render qs s h =
     (case g_published s of
        None \<Rightarrow> empty_string h
      | Some p \<Rightarrow>
          (let b = buf s p
           in if sb_count b = 0 then empty_string h
              else case alloc h of (ok, h) \<Rightarrow>
                if \<not> ok then empty_string h
                else render_copy qs (take (sb_count b) (sb_items b)) h))"

section \<open>The abstract store\<close>

definition contents :: "snap_state \<Rightarrow> nat option \<Rightarrow> snap_metric list" where
  "contents s q = (case q of None \<Rightarrow> [] | Some p \<Rightarrow> take (sb_count (buf s p)) (sb_items (buf s p)))"

definition staged :: "snap_state \<Rightarrow> snap_metric list" where
  "staged s = contents s (g_staged s)"

definition published :: "snap_state \<Rightarrow> snap_metric list" where
  "published s = contents s (g_published s)"

definition buf_ok :: "snap_buf \<Rightarrow> bool" where
  "buf_ok b \<longleftrightarrow> sb_count b \<le> length (sb_items b) \<and> length (sb_items b) \<le> sb_cap b"

definition ptr_ok :: "snap_state \<Rightarrow> nat option \<Rightarrow> bool" where
  "ptr_ok s q \<longleftrightarrow> (\<forall>p. q = Some p \<longrightarrow> p < sn_next s \<and> (\<exists>b. sn_heap s p = Some b \<and> buf_ok b))"

definition snap_inv :: "snap_state \<Rightarrow> bool" where
  \<comment> \<open>the pointers are valid and never the same buffer\<close>
  "snap_inv s \<longleftrightarrow> ptr_ok s (g_staged s) \<and> ptr_ok s (g_published s)
     \<and> (g_staged s \<noteq> None \<longrightarrow> g_staged s \<noteq> g_published s)"

text \<open>A run of \<open>add\<close>s, and a whole cycle of the collection loop.\<close>

fun snap_adds :: "(metric \<Rightarrow> 's \<Rightarrow> mem \<Rightarrow> 's \<times> mem) \<Rightarrow> metric list \<Rightarrow> 's \<Rightarrow> mem \<Rightarrow> 's \<times> mem" where
  "snap_adds add [] s h = (s, h)"
| "snap_adds add (m # ms) s h = (case add m s h of (s', h') \<Rightarrow> snap_adds add ms s' h')"

definition snap_cycle ::
  "('s \<Rightarrow> mem \<Rightarrow> 's \<times> mem) \<Rightarrow> (metric \<Rightarrow> 's \<Rightarrow> mem \<Rightarrow> 's \<times> mem) \<Rightarrow> ('s \<Rightarrow> 's)
     \<Rightarrow> metric list \<Rightarrow> 's \<Rightarrow> mem \<Rightarrow> 's \<times> mem" where
  "snap_cycle begn add publish ms s h =
     (case begn s h of (s, h) \<Rightarrow> case snap_adds add ms s h of (s, h) \<Rightarrow> (publish s, h))"

text \<open>
  What the collection loop relies on: an empty staging area after \<open>begin\<close>, an append per \<open>add\<close>,
  an exchange at \<open>publish\<close>, and that filling the staging area never touches what is published.
\<close>

locale snapshot_store =
  fixes begn :: "'s \<Rightarrow> mem \<Rightarrow> 's \<times> mem"
    and add :: "metric \<Rightarrow> 's \<Rightarrow> mem \<Rightarrow> 's \<times> mem"
    and publish :: "'s \<Rightarrow> 's"
    and stg pub :: "'s \<Rightarrow> snap_metric list"
    and wf :: "'s \<Rightarrow> bool"
  assumes begn_wf: "wf s \<Longrightarrow> wf (fst (begn s h))"
    and begn_stg: "wf s \<Longrightarrow> stg (fst (begn s h)) = []"
    and begn_pub: "wf s \<Longrightarrow> pub (fst (begn s h)) = pub s"
    and begn_mem: "mem_ok h \<Longrightarrow> mem_ok (snd (begn s h))"
    and add_wf: "wf s \<Longrightarrow> wf (fst (add m s h))"
    and add_stg: "wf s \<Longrightarrow> stg (fst (add m s h)) = stg s @ [copy_metric m]
        \<or> (\<not> mem_ok h \<and> stg (fst (add m s h)) = stg s)"
    and add_pub: "wf s \<Longrightarrow> pub (fst (add m s h)) = pub s"
    and add_mem: "mem_ok h \<Longrightarrow> mem_ok (snd (add m s h))"
    and publish_wf: "wf s \<Longrightarrow> wf (publish s)"
    and publish_pub: "wf s \<Longrightarrow> pub (publish s) = stg s"
    and publish_stg: "wf s \<Longrightarrow> stg (publish s) = pub s"
begin

lemma adds_wf: "wf s \<Longrightarrow> wf (fst (snap_adds add ms s h)) \<and> pub (fst (snap_adds add ms s h)) = pub s"
proof (induction ms arbitrary: s h)
  case (Cons m ms)
  then show ?case
    using add_wf [OF Cons.prems, of m h] add_pub [OF Cons.prems, of m h] by (auto simp: case_prod_beta)
qed simp

lemma adds_stg_ok:
  "wf s \<Longrightarrow> mem_ok h \<Longrightarrow> stg (fst (snap_adds add ms s h)) = stg s @ map copy_metric ms \<and> mem_ok (snd (snap_adds add ms s h))"
proof (induction ms arbitrary: s h)
  case (Cons m ms)
  have "stg (fst (add m s h)) = stg s @ [copy_metric m]"
    using add_stg [OF Cons.prems(1), of m h] Cons.prems(2) by blast
  then show ?case
    by (simp add: case_prod_beta Cons.IH [OF add_wf [OF Cons.prems(1)] add_mem [OF Cons.prems(2)]])
qed simp

lemma adds_stg_subseq:
  "wf s \<Longrightarrow> \<exists>ts. stg (fst (snap_adds add ms s h)) = stg s @ ts \<and> subseq ts (map copy_metric ms)"
proof (induction ms arbitrary: s h)
  case (Cons m ms)
  obtain ts where ts: "stg (fst (snap_adds add ms (fst (add m s h)) (snd (add m s h)))) = stg (fst (add m s h)) @ ts"
    "subseq ts (map copy_metric ms)"
    using Cons.IH [OF add_wf [OF Cons.prems]] by blast
  consider "stg (fst (add m s h)) = stg s @ [copy_metric m]" | "stg (fst (add m s h)) = stg s"
    using add_stg [OF Cons.prems] by blast
  then show ?case
  proof cases
    case 1
    with ts show ?thesis by (intro exI [of _ "copy_metric m # ts"]) (simp add: case_prod_beta)
  next
    case 2
    with ts show ?thesis by (intro exI [of _ ts]) (auto simp: case_prod_beta intro: list_emb_Cons)
  qed
qed simp

lemma cycle_wf: "wf s \<Longrightarrow> wf (fst (snap_cycle begn add publish ms s h))"
  using adds_wf begn_wf publish_wf by (simp add: snap_cycle_def case_prod_beta)

lemma cycle_publishes:
  "wf s \<Longrightarrow> mem_ok h \<Longrightarrow> pub (fst (snap_cycle begn add publish ms s h)) = map copy_metric ms"
  using adds_stg_ok adds_wf begn_wf begn_stg begn_mem publish_pub by (simp add: snap_cycle_def case_prod_beta)

lemma cycle_subseq: "wf s \<Longrightarrow> subseq (pub (fst (snap_cycle begn add publish ms s h))) (map copy_metric ms)"
proof -
  assume s: "wf s"
  let ?b = "begn s h"
  obtain ts where "stg (fst (snap_adds add ms (fst ?b) (snd ?b))) = stg (fst ?b) @ ts" "subseq ts (map copy_metric ms)"
    using adds_stg_subseq [OF begn_wf [OF s]] by blast
  moreover have "pub (fst (snap_cycle begn add publish ms s h)) = stg (fst (snap_adds add ms (fst ?b) (snd ?b)))"
    using publish_pub adds_wf begn_wf [OF s] by (simp add: snap_cycle_def case_prod_beta)
  ultimately show ?thesis using begn_stg [OF s] by simp
qed

end

section \<open>The program's store implements it\<close>

lemma grow_cap_pos: "need \<le> grow_cap (if c \<noteq> 0 then c else 32) need"
  by (rule grow_cap_ge) simp

lemma sb_reserve_props:
  "sb_items (fst (sb_reserve b n h)) = sb_items b"
  "sb_count (fst (sb_reserve b n h)) = sb_count b"
  "mem_ok h \<Longrightarrow> n \<le> sb_cap (fst (sb_reserve b n h)) \<and> mem_ok (snd (sb_reserve b n h))"
  "buf_ok b \<Longrightarrow> sb_cap b < n \<Longrightarrow> buf_ok (fst (sb_reserve b n h))"
proof -
  obtain ok h' where a: "alloc h = (ok, h')" by force
  show "sb_items (fst (sb_reserve b n h)) = sb_items b" "sb_count (fst (sb_reserve b n h)) = sb_count b"
    by (simp_all add: sb_reserve_def a)
  show "mem_ok h \<Longrightarrow> n \<le> sb_cap (fst (sb_reserve b n h)) \<and> mem_ok (snd (sb_reserve b n h))"
    using alloc_ok [OF _ a] grow_cap_pos [of n "sb_cap b"] by (auto simp: sb_reserve_def a)
  show "buf_ok (fst (sb_reserve b n h))" if "buf_ok b" "sb_cap b < n"
    using that grow_cap_pos [of n "sb_cap b"] by (auto simp: sb_reserve_def a buf_ok_def)
qed

lemma put_item_props:
  assumes "buf_ok b" "sb_count b < sb_cap b"
  shows "buf_ok (put_item b x)"
    "take (sb_count (put_item b x)) (sb_items (put_item b x)) = take (sb_count b) (sb_items b) @ [x]"
  using assms by (auto simp: put_item_def buf_ok_def take_Suc_conv_app_nth)

lemma contents_set_buf:
  "contents (set_buf p b s) q = (if q = Some p then take (sb_count b) (sb_items b) else contents s q)"
  by (auto simp: contents_def set_buf_def buf_def split: option.splits)

lemma contents_None [simp]: "contents s None = []"
  by (simp add: contents_def)

lemma contents_publish: "contents (prom_snapshot_publish s) q = contents s q"
  by (simp add: contents_def prom_snapshot_publish_def buf_def split: option.splits)

lemma publish_props:
  "snap_inv s \<Longrightarrow> snap_inv (prom_snapshot_publish s)"
  "published (prom_snapshot_publish s) = staged s"
  "staged (prom_snapshot_publish s) = published s"
  by (auto simp: snap_inv_def ptr_ok_def staged_def published_def contents_publish)
    (auto simp: prom_snapshot_publish_def)

lemma set_buf_ptrs [simp]:
  "g_staged (set_buf p b s) = g_staged s" "g_published (set_buf p b s) = g_published s"
  by (simp_all add: set_buf_def)

lemma snap_inv_set_buf: "snap_inv s \<Longrightarrow> g_staged s = Some p \<Longrightarrow> buf_ok b \<Longrightarrow> snap_inv (set_buf p b s)"
  by (auto simp: snap_inv_def ptr_ok_def set_buf_def)

lemma snap_inv_buf: "snap_inv s \<Longrightarrow> g_staged s = Some p \<Longrightarrow> buf_ok (buf s p)"
  by (auto simp: snap_inv_def ptr_ok_def buf_def)

lemma ensure_staged_props:
  assumes "snap_inv s"
  shows "snap_inv (fst (ensure_staged s h))"
    "g_published (fst (ensure_staged s h)) = g_published s"
    "published (fst (ensure_staged s h)) = published s"
    "staged (fst (ensure_staged s h)) = staged s"
proof -
  obtain ok h' where a: "alloc h = (ok, h')" by force
  let ?s = "fst (ensure_staged s h)"
  have fresh: "g_published s \<noteq> Some (sn_next s)"
    using assms by (auto simp: snap_inv_def ptr_ok_def)
  show "snap_inv ?s"
    using assms fresh by (auto simp: ensure_staged_def sb_new_def a snap_inv_def ptr_ok_def buf_ok_def split: option.splits)
  show "g_published ?s = g_published s"
    by (simp add: ensure_staged_def sb_new_def a split: option.splits)
  show "published ?s = published s"
    using fresh by (auto simp: ensure_staged_def sb_new_def a published_def contents_def buf_def split: option.splits)
  show "staged ?s = staged s"
    by (auto simp: ensure_staged_def sb_new_def a staged_def contents_def buf_def split: option.splits)
qed

lemma ensure_staged_ok:
  "mem_ok h \<Longrightarrow> mem_ok (snd (ensure_staged s h)) \<and> g_staged (fst (ensure_staged s h)) \<noteq> None"
  using alloc_ok [of h] by (auto simp: ensure_staged_def sb_new_def split: option.splits prod.splits)

lemma snapshot_begin_props:
  assumes "snap_inv s"
  shows "snap_inv (fst (prom_snapshot_begin s h))"
    "staged (fst (prom_snapshot_begin s h)) = []"
    "published (fst (prom_snapshot_begin s h)) = published s"
proof -
  obtain s1 h1 where e: "ensure_staged s h = (s1, h1)" by force
  note p = ensure_staged_props [OF assms, of h, unfolded e fst_conv]
  have "snap_inv (set_buf q ((buf s1 q)\<lparr>sb_count := 0\<rparr>) s1)" if "g_staged s1 = Some q" for q
    using snap_inv_set_buf [OF p(1) that] snap_inv_buf [OF p(1) that] by (simp add: buf_ok_def)
  then show "snap_inv (fst (prom_snapshot_begin s h))"
    using p(1) by (simp add: prom_snapshot_begin_def e split: option.splits)
  show "staged (fst (prom_snapshot_begin s h)) = []"
    by (simp add: prom_snapshot_begin_def e staged_def contents_set_buf contents_None split: option.splits)
  show "published (fst (prom_snapshot_begin s h)) = published s"
    using p by (auto simp: prom_snapshot_begin_def e published_def contents_set_buf snap_inv_def split: option.splits)
qed

definition room :: "snap_buf \<Rightarrow> mem \<Rightarrow> snap_buf \<times> mem" where
  "room b h = (if sb_cap b \<le> sb_count b then sb_reserve b (sb_count b + 1) h else (b, h))"

lemma room_props:
  "sb_items (fst (room b h)) = sb_items b" "sb_count (fst (room b h)) = sb_count b"
  "buf_ok b \<Longrightarrow> buf_ok (fst (room b h))"
  "mem_ok h \<Longrightarrow> sb_count b < sb_cap (fst (room b h)) \<and> mem_ok (snd (room b h))"
  using sb_reserve_props(3) [of h "sb_count b + 1" b] by (simp_all add: room_def sb_reserve_props Suc_le_eq)

lemma snapshot_add_cases:
  assumes "snap_inv s"
  shows "snap_inv (fst (prom_snapshot_add m s h))"
    "published (fst (prom_snapshot_add m s h)) = published s"
    "staged (fst (prom_snapshot_add m s h)) = staged s @ [copy_metric m]
       \<or> (\<not> mem_ok h \<and> staged (fst (prom_snapshot_add m s h)) = staged s)"
proof -
  obtain s1 h1 where e: "ensure_staged s h = (s1, h1)" by force
  note p = ensure_staged_props [OF assms, of h, unfolded e fst_conv]
  have ok: "mem_ok h \<Longrightarrow> mem_ok h1 \<and> g_staged s1 \<noteq> None" using ensure_staged_ok [of h s] e by simp
  have "snap_inv (fst (prom_snapshot_add m s h))
      \<and> published (fst (prom_snapshot_add m s h)) = published s
      \<and> (staged (fst (prom_snapshot_add m s h)) = staged s @ [copy_metric m]
         \<or> (\<not> mem_ok h \<and> staged (fst (prom_snapshot_add m s h)) = staged s))"
  proof (cases "g_staged s1")
    case None
    then have "prom_snapshot_add m s h = (s1, h1)" by (simp add: prom_snapshot_add_def e)
    with p ok None show ?thesis by auto
  next
    case (Some q)
    obtain b h2 where r: "room (buf s1 q) h1 = (b, h2)" by force
    have b: "sb_items b = sb_items (buf s1 q)" "sb_count b = sb_count (buf s1 q)" "buf_ok b"
      "mem_ok h1 \<Longrightarrow> sb_count b < sb_cap b"
      using room_props(1-3) [of "buf s1 q" h1] room_props(4) [of h1 "buf s1 q"] snap_inv_buf [OF p(1) Some] by (simp_all add: r)
    have st: "staged s = take (sb_count b) (sb_items b)"
      using p(4) Some b by (simp add: staged_def contents_def)
    have ne: "g_published s1 \<noteq> Some q" using p(1) Some by (auto simp: snap_inv_def)
    show ?thesis
    proof (cases "sb_count b < sb_cap b")
      case True
      then have "fst (prom_snapshot_add m s h) = set_buf q (put_item b (copy_metric m)) s1"
        using r by (simp add: prom_snapshot_add_def e Some Let_def room_def)
      then show ?thesis
        using put_item_props [OF b(3) True] snap_inv_set_buf [OF p(1) Some] st ne p(2,3) Some
        by (simp add: staged_def published_def contents_set_buf)
    next
      case False
      then have "fst (prom_snapshot_add m s h) = set_buf q b s1"
        using r by (simp add: prom_snapshot_add_def e Some Let_def room_def)
      then show ?thesis
        using False ok b(3,4) snap_inv_set_buf [OF p(1) Some] st ne p(2,3) Some
        by (auto simp: staged_def published_def contents_set_buf)
    qed
  qed
  then show "snap_inv (fst (prom_snapshot_add m s h))"
    "published (fst (prom_snapshot_add m s h)) = published s"
    "staged (fst (prom_snapshot_add m s h)) = staged s @ [copy_metric m]
       \<or> (\<not> mem_ok h \<and> staged (fst (prom_snapshot_add m s h)) = staged s)" by blast+
qed

lemma snapshot_mem_ok:
  assumes "mem_ok h"
  shows "mem_ok (snd (prom_snapshot_begin s h))" "mem_ok (snd (prom_snapshot_add m s h))"
proof -
  obtain s1 h1 where e: "ensure_staged s h = (s1, h1)" by force
  then have h1: "mem_ok h1" using ensure_staged_ok [OF assms, of s] by simp
  show "mem_ok (snd (prom_snapshot_begin s h))"
    using h1 by (simp add: prom_snapshot_begin_def e split: option.splits)
  show "mem_ok (snd (prom_snapshot_add m s h))"
    using h1 room_props(4) [OF h1]
    by (simp add: prom_snapshot_add_def e Let_def room_def [symmetric] case_prod_beta split: option.splits)
qed

interpretation snap: snapshot_store prom_snapshot_begin prom_snapshot_add prom_snapshot_publish
  staged published snap_inv
  by unfold_locales
    (simp_all add: snapshot_begin_props snapshot_add_cases snapshot_mem_ok publish_props)

lemma snap_inv_init [simp]: "snap_inv snap_init"
  by (simp add: snap_inv_def snap_init_def ptr_ok_def)

section \<open>Rendering what is published\<close>

lemma empty_string_ok: "mem_ok h \<Longrightarrow> fst (empty_string h) = Some ([], True)"
  using alloc_ok [of h] by (auto simp: empty_string_def split: prod.splits)

lemma published_buf:
  "snap_inv s \<Longrightarrow> g_published s = Some p \<Longrightarrow>
     published s = take (sb_count (buf s p)) (sb_items (buf s p)) \<and> length (published s) = sb_count (buf s p)"
  by (auto simp: published_def contents_def snap_inv_def ptr_ok_def buf_ok_def buf_def)

context family_sorter
begin

lemma prom_render_ok:
  assumes "snap_inv s" "mem_ok h"
  shows "fst (prom_render qs s h) = Some (exposition (published s) (qs (entries (published s))), True)"
proof -
  have "entries [] = []" by (simp add: entries_def map_filter_simps)
  moreover have "qs [] = []" using qs_mset [of "[]"] by simp
  ultimately have nil: "exposition [] (qs (entries [])) = []"
    by (simp add: exposition_def firsts_def)
  show ?thesis
  proof (cases "g_published s")
    case None
    with nil assms(2) show ?thesis by (simp add: prom_render_def published_def empty_string_ok)
  next
    case (Some p)
    note pb = published_buf [OF assms(1) Some]
    obtain ok h' where a: "alloc h = (ok, h')" by force
    have ok: "ok" "mem_ok h'" using alloc_ok [OF assms(2) a] by simp_all
    show ?thesis
    proof (cases "sb_count (buf s p) = 0")
      case True
      with pb have "published s = []" by simp
      with nil True Some assms(2) show ?thesis by (simp add: prom_render_def empty_string_ok)
    next
      case False
      with pb have "published s \<noteq> []" by auto
      from render_copy_ok [OF ok(2) this] pb Some False a ok(1) show ?thesis
        by (simp add: prom_render_def Let_def)
    qed
  qed
qed

lemma prom_render_terminated:
  assumes "snap_inv s" "fst (prom_render qs s h) = Some (t, b)"
  shows b
proof (cases "g_published s")
  case None
  with assms(2) show ?thesis by (auto simp: prom_render_def empty_string_def split: prod.splits if_splits)
next
  case (Some p)
  note pb = published_buf [OF assms(1) Some]
  have "take (sb_count (buf s p)) (sb_items (buf s p)) \<noteq> []" if "sb_count (buf s p) \<noteq> 0"
    using pb that by auto
  with assms(2) Some show ?thesis
    by (auto simp: prom_render_def Let_def empty_string_def split: prod.splits if_splits
        dest: render_copy_terminated [rotated])
qed

end

end
