(* ===== verification/Http.thy ===== *)
theory Http
  imports Snapshot
begin

text \<open>
  \<^verbatim>\<open>src/http.c\<close>: the listener of the exposition endpoint.

  What the socket calls return is a parameter: the outcome of each call, in order. The state is
  the open descriptors and the lines written to the standard error stream. A result \<open>None\<close> of
  a connection stands for a read outside a buffer.
\<close>

section \<open>The address\<close>

definition strip_brackets :: "string \<Rightarrow> string" where
  "strip_brackets host =
     (if host ! 0 = CHR ''['' \<and> host ! (length host - 1) = CHR '']''
      then take (length host - 2) (drop 1 host) else host)"

definition parse_addr :: "string \<Rightarrow> nat \<Rightarrow> nat \<Rightarrow> (string \<times> string) option" where
  \<comment> \<open>host and port, for buffers of the given sizes\<close>
  "parse_addr addr hsz psz =
     (case strrchr_split addr (CHR '':'') of
        None \<Rightarrow> None
      | Some (h, pp) \<Rightarrow>
          if pp = [] then None
          else if \<not> list_all isdigit pp then None
          else if psz \<le> length pp then None
          else if h = [] then Some ([], snprintf_buf psz pp)
          else if hsz \<le> length h then None
          else Some (strip_brackets h, snprintf_buf psz pp))"

section \<open>The listener\<close>

record net =
  n_open :: "int list"
  n_err :: "string list"

definition n_log :: "string \<Rightarrow> net \<Rightarrow> net" where
  "n_log l s = s\<lparr>n_err := n_err s @ [l]\<rparr>"

definition fd_open :: "int \<Rightarrow> net \<Rightarrow> net" where
  "fd_open fd s = s\<lparr>n_open := fd # n_open s\<rparr>"

definition fd_close :: "int \<Rightarrow> net \<Rightarrow> net" where
  "fd_close fd s = s\<lparr>n_open := remove1 fd (n_open s)\<rparr>"

text \<open>For each address \<open>getaddrinfo\<close> returns: what \<open>socket\<close> returns, and the error of \<open>bind\<close>, if any.\<close>

record sock_try =
  t_fd :: int
  t_bind_err :: "string option"

record net_env =
  e_gai :: "cptr \<Rightarrow> string \<Rightarrow> string + sock_try list"
  e_listen_err :: "string option"

fun bind_loop :: "int \<Rightarrow> sock_try list \<Rightarrow> net \<Rightarrow> int \<times> net" where
  "bind_loop sfd [] s = (sfd, s)"
| "bind_loop sfd (t # ts) s =
     (if t_fd t < 0 then bind_loop (t_fd t) ts s
      else case t_bind_err t of
             None \<Rightarrow> (t_fd t, fd_open (t_fd t) s)
           | Some e \<Rightarrow>
               bind_loop (- 1) ts
                 (fd_close (t_fd t) (n_log (log_errno ''metrics'' ''bind'' e) (fd_open (t_fd t) s))))"

definition make_listener :: "net_env \<Rightarrow> string \<Rightarrow> net \<Rightarrow> int \<times> net" where
  "make_listener env addr s =
     (case parse_addr addr 256 16 of
        None \<Rightarrow> (- 1, n_log (log_err ''metrics'' (''bad metrics_addr '' @ [DQ] @ addr @ [DQ]
                   @ '' (expected '' @ [DQ] @ ''host:port'' @ [DQ] @ '')'')) s)
      | Some (host, port) \<Rightarrow>
          (case e_gai env (if host \<noteq> [] then Some host else None) port of
             Inl e \<Rightarrow> (- 1, n_log (log_err ''metrics'' (''getaddrinfo('' @ [DQ] @ host @ [DQ] @ '','' @ [DQ]
                        @ port @ [DQ] @ ''): '' @ e)) s)
           | Inr tries \<Rightarrow>
               (case bind_loop (- 1) tries s of (sfd, s) \<Rightarrow>
                  if sfd < 0
                  then (- 1, n_log (log_err ''metrics'' (''no usable address to bind on '' @ [DQ] @ addr @ [DQ])) s)
                  else case e_listen_err env of
                         Some e \<Rightarrow> (- 1, fd_close sfd (n_log (log_errno ''metrics'' ''listen'' e) s))
                       | None \<Rightarrow> (sfd, s))))"

section \<open>Sending\<close>

text \<open>The outcomes of the \<open>send\<close> calls to come: some bytes accepted (at most those offered), an
  interruption, or another error. When the script is exhausted the kernel takes everything.\<close>

datatype send_res = Sent nat | SendIntr | SendErr

fun send_all :: "send_res list \<Rightarrow> string \<Rightarrow> int \<times> string \<times> send_res list" where
  \<comment> \<open>the code, the bytes that went out and the rest of the script\<close>
  "send_all ss [] = (0, [], ss)"
| "send_all [] (c # cs) = (0, c # cs, [])"
| "send_all (SendIntr # ss) (c # cs) = send_all ss (c # cs)"
| "send_all (SendErr # ss) (c # cs) = (- 1, [], ss)"
| "send_all (Sent w # ss) (c # cs) =
     (if w = 0 then (- 1, [], ss)
      else case send_all ss (drop w (c # cs)) of (rc, out, ss') \<Rightarrow> (rc, take w (c # cs) @ out, ss'))"

definition CRLF :: string where
  "CRLF = [CR, NL]"

definition http_header :: "int \<Rightarrow> string \<Rightarrow> string \<Rightarrow> nat \<Rightarrow> string" where
  "http_header code reason ctype blen =
     ''HTTP/1.1 '' @ show_int code @ '' '' @ reason @ CRLF
   @ ''Content-Type: '' @ ctype @ CRLF
   @ ''Content-Length: '' @ show_nat blen @ CRLF
   @ ''Connection: close'' @ CRLF @ CRLF"

definition send_hdr :: "send_res list \<Rightarrow> string \<Rightarrow> (string \<times> send_res list) option" where
  \<comment> \<open>print into \<open>hdr[256]\<close> and send as many bytes as the untruncated text has\<close>
  "send_hdr ss hdr =
     (if length hdr < 256 then (case send_all ss (snprintf_buf 256 hdr) of (_, out, ss) \<Rightarrow> Some (out, ss)) else None)"

definition send_simple :: "send_res list \<Rightarrow> int \<Rightarrow> string \<Rightarrow> string \<Rightarrow> string option" where
  "send_simple ss code reason body =
     (case send_hdr ss (http_header code reason ''text/plain; charset=utf-8'' (length body)) of
        None \<Rightarrow> None
      | Some (out1, ss) \<Rightarrow> (case send_all ss body of (_, out2, _) \<Rightarrow> Some (out1 @ out2)))"

section \<open>A connection\<close>

definition send_metrics :: "send_res list \<Rightarrow> cbuf \<Rightarrow> string option" where
  \<comment> \<open>the response to \<open>GET /metrics\<close> with the rendered body\<close>
  "send_metrics ss body =
     (case (case body of None \<Rightarrow> Some [] | Some (t, term) \<Rightarrow> if term then Some t else None) of
        None \<Rightarrow> None
      | Some t \<Rightarrow>
          (case send_hdr ss (http_header 200 ''OK'' ''text/plain; version=0.0.4; charset=utf-8'' (length t)) of
             None \<Rightarrow> None
           | Some (out1, ss) \<Rightarrow>
               if length t > 0 then (case send_all ss t of (_, out2, _) \<Rightarrow> Some (out1 @ out2))
               else Some out1))"

definition handle_conn ::
  "(entry list \<Rightarrow> entry list) \<Rightarrow> string option \<Rightarrow> send_res list \<Rightarrow> snap_state \<Rightarrow> mem \<Rightarrow> string option" where
  \<comment> \<open>what \<open>recv\<close> gives (\<open>None\<close>: an error), and the bytes sent in reply\<close>
  "handle_conn qs rcv ss snp h =
     (case rcv of
        None \<Rightarrow> Some []
      | Some bytes \<Rightarrow>
          if bytes = [] then Some []
          else case sscanf [Str 15, Ws, Str 511] (take 1023 bytes) of (n, vs) \<Rightarrow>
            if n < 2 then send_simple ss 400 ''Bad Request'' (''bad request'' @ [NL])
            else (let method = str_of (vs ! 0); path = str_of (vs ! 1)
                  in if method \<noteq> ''GET''
                     then send_simple ss 405 ''Method Not Allowed'' (''method not allowed'' @ [NL])
                     else if path = ''/metrics'' then send_metrics ss (fst (prom_render qs snp h))
                     else if path = ''/'' \<or> path = ''/health''
                     then send_simple ss 200 ''OK'' (''svgd-collect'' @ [NL])
                     else send_simple ss 404 ''Not Found'' (''not found'' @ [NL])))"

section \<open>The thread\<close>

text \<open>One iteration of the loop: what \<open>poll\<close> and \<open>accept\<close> return, and for a connection the request,
  the outcomes of the calls and the store at that moment. The script is the iterations until
  \<open>g_running\<close> is found cleared.\<close>

datatype poll_ev =
  PollNone
| PollNoIn
| AcceptErr bool string
| Conn int "string option" "send_res list" snap_state mem

fun metrics_iter ::
  "(entry list \<Rightarrow> entry list) \<Rightarrow> poll_ev \<Rightarrow> net \<Rightarrow> (string list \<times> net) option" where
  "metrics_iter qs PollNone s = Some ([], s)"
| "metrics_iter qs PollNoIn s = Some ([], s)"
| "metrics_iter qs (AcceptErr transient e) s =
     Some ([], if transient then s else n_log (log_errno ''metrics'' ''accept'' e) s)"
| "metrics_iter qs (Conn cfd rcv ss snp h) s =
     (case handle_conn qs rcv ss snp h of
        None \<Rightarrow> None
      | Some out \<Rightarrow> Some ([out], fd_close cfd (fd_open cfd s)))"

fun metrics_thread ::
  "(entry list \<Rightarrow> entry list) \<Rightarrow> int \<Rightarrow> poll_ev list \<Rightarrow> net \<Rightarrow> (string list \<times> net) option" where
  "metrics_thread qs sfd [] s = Some ([], fd_close sfd s)"
| "metrics_thread qs sfd (ev # evs) s =
     (case metrics_iter qs ev s of
        None \<Rightarrow> None
      | Some (outs, s) \<Rightarrow>
          (case metrics_thread qs sfd evs s of
             None \<Rightarrow> None
           | Some (outs', s) \<Rightarrow> Some (outs @ outs', s)))"

definition http_metrics_start ::
  "net_env \<Rightarrow> cptr \<Rightarrow> bool \<Rightarrow> mem \<Rightarrow> bool \<Rightarrow> net \<Rightarrow> int \<times> int option \<times> net" where
  \<comment> \<open>arguments: the address, whether \<open>tid\<close> is non-null, the allocations and whether
     \<open>pthread_create\<close> succeeds; result: the code and the descriptor given to the thread\<close>
  "http_metrics_start env addr tid h created s =
     (case addr of
        None \<Rightarrow> (- 1, None, s)
      | Some a \<Rightarrow>
          if a = [] \<or> \<not> tid then (- 1, None, s)
          else case make_listener env a s of (sfd, s) \<Rightarrow>
            if sfd < 0 then (- 1, None, s)
            else case alloc h of (ok, _) \<Rightarrow>
              if \<not> ok then (- 1, None, fd_close sfd s)
              else if \<not> created
              then (- 1, None, fd_close sfd (n_log (log_err ''metrics'' ''pthread_create failed'') s))
              else (0, Some sfd, s))"

section \<open>Addresses\<close>

lemma isdigit_not_colon: "list_all isdigit p \<Longrightarrow> CHR '':'' \<notin> set p"
  by (auto simp: list_all_iff isdigit_def)

lemma parse_addr_host:
  assumes "list_all isdigit p" "p \<noteq> []" "length p < psz" "h \<noteq> []" "length h < hsz"
  shows "parse_addr (h @ '':'' @ p) hsz psz = Some (strip_brackets h, p)"
  using assms strrchr_split_append [OF isdigit_not_colon [OF assms(1)], of h]
  by (simp add: parse_addr_def snprintf_buf_fits)

lemma parse_addr_wildcard:
  assumes "list_all isdigit p" "p \<noteq> []" "length p < psz"
  shows "parse_addr ('':'' @ p) hsz psz = Some ([], p)"
  using assms strrchr_split_append [OF isdigit_not_colon [OF assms(1)], of "[]"]
  by (simp add: parse_addr_def snprintf_buf_fits)

lemma strip_brackets_v6: "strip_brackets (''['' @ h @ '']'') = h"
  by (simp add: strip_brackets_def nth_append)

lemma bracketed_iff:
  assumes "g \<noteq> []"
  shows "g ! 0 = CHR ''['' \<and> g ! (length g - 1) = CHR '']'' \<longleftrightarrow> (\<exists>x. g = ''['' @ x @ '']'')"
proof
  assume b: "g ! 0 = CHR ''['' \<and> g ! (length g - 1) = CHR '']''"
  obtain t where t: "g = CHR ''['' # t" using assms b by (cases g) auto
  with b have "t \<noteq> []" by auto
  then have "last t = CHR '']''" using b t by (simp add: last_conv_nth nth_Cons')
  then have "t = butlast t @ '']''" using append_butlast_last_id [OF \<open>t \<noteq> []\<close>] by simp
  with t show "\<exists>x. g = ''['' @ x @ '']''" by (intro exI [of _ "butlast t"]) simp
qed (auto simp: nth_append)

lemma strip_brackets_iff:
  assumes "g \<noteq> []"
  shows "strip_brackets g = h \<longleftrightarrow> g = ''['' @ h @ '']'' \<or> g = h \<and> (\<nexists>x. g = ''['' @ x @ '']'')"
proof (cases "\<exists>x. g = ''['' @ x @ '']''")
  case True
  then obtain x where g: "g = ''['' @ x @ '']''" by blast
  show ?thesis unfolding g strip_brackets_v6 by auto
next
  case False
  then have "strip_brackets g = g" using bracketed_iff [OF assms] by (auto simp: strip_brackets_def)
  with False show ?thesis by auto
qed

lemma parse_addr_iff:
  "parse_addr addr hsz psz = Some (h, p) \<longleftrightarrow>
     p \<noteq> [] \<and> list_all isdigit p \<and> length p < psz
   \<and> (addr = '':'' @ p \<and> h = [] \<or> (\<exists>g. addr = g @ '':'' @ p \<and> g \<noteq> [] \<and> length g < hsz \<and> strip_brackets g = h))"
  (is "_ \<longleftrightarrow> ?R")
proof
  assume a: "parse_addr addr hsz psz = Some (h, p)"
  then obtain g pp where s: "strrchr_split addr (CHR '':'') = Some (g, pp)"
    by (cases "strrchr_split addr (CHR '':'')") (auto simp: parse_addr_def)
  have "addr = g @ '':'' @ pp" using strrchr_split_SomeD(1) [OF s] by simp
  moreover have "pp \<noteq> []" "list_all isdigit pp" "length pp < psz" "snprintf_buf psz pp = p"
    "g = [] \<and> h = [] \<or> g \<noteq> [] \<and> length g < hsz \<and> strip_brackets g = h"
    using a by (auto simp: parse_addr_def s split: if_splits)
  moreover from this have "pp = p" by (simp add: snprintf_buf_fits)
  ultimately show ?R by auto
next
  assume ?R
  then show "parse_addr addr hsz psz = Some (h, p)"
    using parse_addr_host [of p psz _ hsz] parse_addr_wildcard [of p psz hsz] by auto
qed

section \<open>Descriptors\<close>

lemma n_log_open [simp]: "n_open (n_log l s) = n_open s"
  by (simp add: n_log_def)

lemma fd_close_open [simp]: "n_open (fd_close fd (fd_open fd s)) = n_open s"
  by (simp add: fd_close_def fd_open_def)

lemma bind_loop_open:
  assumes "sfd < 0" "bind_loop sfd ts s = (r, s')"
  shows "n_open s' = (if r < 0 then n_open s else r # n_open s)"
  using assms
proof (induction ts arbitrary: sfd s)
  case (Cons t ts)
  show ?case
  proof (cases "t_fd t < 0")
    case True
    with Cons show ?thesis by simp
  next
    case False
    show ?thesis
    proof (cases "t_bind_err t")
      case None
      with False Cons.prems show ?thesis by (auto simp: fd_open_def)
    next
      case (Some e)
      with False Cons.prems Cons.IH [of "- 1"] show ?thesis
        by (auto simp: fd_close_def fd_open_def n_log_def split: if_splits)
    qed
  qed
qed simp

lemma fd_close_head: "n_open s1 = fd # xs \<Longrightarrow> n_open (fd_close fd s1) = xs"
  by (simp add: fd_close_def)

lemma make_listener_open:
  assumes m: "make_listener env addr s = (r, s')"
  shows "n_open s' = (if r < 0 then n_open s else r # n_open s)"
proof (cases "parse_addr addr 256 16")
  case None
  with m show ?thesis by (auto simp: make_listener_def)
next
  case (Some hp)
  obtain host port where hp: "hp = (host, port)" by force
  show ?thesis
  proof (cases "e_gai env (if host \<noteq> [] then Some host else None) port")
    case (Inl e)
    with m Some hp show ?thesis by (auto simp: make_listener_def)
  next
    case (Inr tries)
    obtain sfd s1 where b: "bind_loop (- 1) tries s = (sfd, s1)" by force
    note o = bind_loop_open [OF _ b]
    show ?thesis
    proof (cases "sfd < 0")
      case True
      with m Some hp Inr b o show ?thesis by (auto simp: make_listener_def)
    next
      case False
      with m Some hp Inr b o show ?thesis
        by (cases "e_listen_err env") (auto simp: make_listener_def intro: fd_close_head)
    qed
  qed
qed

lemma http_metrics_start_open:
  assumes st: "http_metrics_start env addr tid h created s = (rc, fdo, s')"
  shows "(rc = 0 \<and> (\<exists>fd. fdo = Some fd \<and> 0 \<le> fd \<and> n_open s' = fd # n_open s))
       \<or> (rc = - 1 \<and> fdo = None \<and> n_open s' = n_open s)"
proof (cases "addr = None \<or> addr = Some [] \<or> \<not> tid")
  case True
  with st show ?thesis by (auto simp: http_metrics_start_def split: option.splits)
next
  case False
  then obtain a where a: "addr = Some a" "a \<noteq> []" tid by auto
  obtain sfd s1 where l: "make_listener env a s = (sfd, s1)" by force
  note o = make_listener_open [OF l]
  obtain ok h' where al: "alloc h = (ok, h')" by force
  show ?thesis
  proof (cases "sfd < 0 \<or> (ok \<and> created)")
    case True
    with st a l o al show ?thesis by (cases "sfd < 0") (auto simp: http_metrics_start_def)
  next
    case False
    then have "n_open (fd_close sfd s1) = n_open s"
      "n_open (fd_close sfd (n_log (log_err ''metrics'' ''pthread_create failed'') s1)) = n_open s"
      using o by (auto intro: fd_close_head)
    with False st a l al show ?thesis by (auto simp: http_metrics_start_def split: if_splits)
  qed
qed

section \<open>What is sent\<close>

lemma send_all_prefix: "send_all ss b = (rc, out, ss') \<Longrightarrow> \<exists>rest. b = out @ rest"
proof (induction ss b arbitrary: rc out ss' rule: send_all.induct)
  case (5 w ss c cs)
  show ?case
  proof (cases "w = 0")
    case False
    obtain rc2 out2 ss2 where r: "send_all ss (drop w (c # cs)) = (rc2, out2, ss2)" by (metis prod_cases3)
    then obtain rest where "drop w (c # cs) = out2 @ rest" using 5(1) False by blast
    then have "c # cs = (take w (c # cs) @ out2) @ rest" by (metis append_assoc append_take_drop_id)
    with False r 5(2) show ?thesis by auto
  qed (use 5 in auto)
qed auto

lemma send_all_code:
  "send_all ss b = (rc, out, ss') \<Longrightarrow> (rc = 0 \<and> out = b) \<or> rc = - 1"
proof (induction ss b arbitrary: rc out ss' rule: send_all.induct)
  case (5 w ss c cs)
  show ?case
  proof (cases "w = 0")
    case False
    obtain rc2 out2 ss2 where r: "send_all ss (drop w (c # cs)) = (rc2, out2, ss2)" by (metis prod_cases3)
    with 5(1) [OF False r] False 5(2) show ?thesis by (auto simp: append_take_drop_id)
  qed (use 5 in auto)
qed auto

lemma send_all_calls:
  \<comment> \<open>every call but the interrupted ones sends a byte or is the last\<close>
  "send_all ss b = (rc, out, ss') \<Longrightarrow> \<exists>used. ss = used @ ss' \<and> length used \<le> length b + count_list used SendIntr"
proof (induction ss b arbitrary: rc out ss' rule: send_all.induct)
  case (3 ss c cs)
  then obtain used where "ss = used @ ss'" "length used \<le> length (c # cs) + count_list used SendIntr" by auto
  then show ?case by (intro exI [of _ "SendIntr # used"]) simp
next
  case (5 w ss c cs)
  show ?case
  proof (cases "w = 0")
    case False
    obtain rc2 out2 ss2 where r: "send_all ss (drop w (c # cs)) = (rc2, out2, ss2)" by (metis prod_cases3)
    from 5(1) [OF False r] obtain used where u: "ss = used @ ss2"
      "length used \<le> length (drop w (c # cs)) + count_list used SendIntr" by blast
    have "ss' = ss2" using 5(2) False r by simp
    with u False show ?thesis by (intro exI [of _ "Sent w # used"]) auto
  qed (use 5 in \<open>auto intro!: exI [of _ "[Sent w]"]\<close>)
qed (auto intro!: exI [of _ "[SendErr]"])

definition no_send_error :: "send_res list \<Rightarrow> bool" where
  "no_send_error ss \<longleftrightarrow> SendErr \<notin> set ss \<and> Sent 0 \<notin> set ss"

lemma send_all_complete:
  "no_send_error ss \<Longrightarrow> \<exists>ss'. send_all ss b = (0, b, ss') \<and> no_send_error ss'"
proof (induction ss b rule: send_all.induct)
  case (5 w ss c cs)
  then have "w \<noteq> 0" "no_send_error ss" by (auto simp: no_send_error_def)
  with 5(1) obtain ss' where r: "send_all ss (drop w (c # cs)) = (0, drop w (c # cs), ss')" "no_send_error ss'"
    by blast
  then show ?case using \<open>w \<noteq> 0\<close>
    by (intro exI [of _ ss']) (simp del: take_Cons' drop_Cons' add: append_take_drop_id)
qed (auto simp: no_send_error_def)

definition response :: "int \<Rightarrow> string \<Rightarrow> string \<Rightarrow> string \<Rightarrow> string" where
  "response code reason ctype body = http_header code reason ctype (length body) @ body"

lemma http_header_length:
  assumes "length (show_int code) + length reason + length ctype \<le> 100" "blen < 10 ^ 20"
  shows "length (http_header code reason ctype blen) < 256"
proof -
  have "length (show_nat blen) \<le> 20" by (rule length_show_nat [OF assms(2)]) simp
  with assms(1) show ?thesis by (simp add: http_header_def CRLF_def)
qed

lemma send_hdr_ok:
  "length hdr < 256 \<Longrightarrow> \<exists>out ss'. send_hdr ss hdr = Some (out, ss')"
  by (auto simp: send_hdr_def split: prod.splits)

lemma send_simple_defined:
  assumes "length (show_int code) + length reason \<le> 60" "length body < 10 ^ 20"
  shows "send_simple ss code reason body \<noteq> None"
  using send_hdr_ok [OF http_header_length, of code reason "''text/plain; charset=utf-8''" "length body" ss] assms
  by (auto simp: send_simple_def split: prod.splits)

lemma send_simple_ok:
  assumes "length (show_int code) + length reason \<le> 60" "length body < 10 ^ 20" "no_send_error ss"
  shows "send_simple ss code reason body = Some (response code reason ''text/plain; charset=utf-8'' body)"
proof -
  let ?h = "http_header code reason ''text/plain; charset=utf-8'' (length body)"
  have h: "length ?h < 256" using assms(1,2) by (intro http_header_length) simp_all
  obtain ss1 where 1: "send_all ss ?h = (0, ?h, ss1)" "no_send_error ss1"
    using send_all_complete [OF assms(3)] by blast
  obtain ss2 where 2: "send_all ss1 body = (0, body, ss2)"
    using send_all_complete [OF 1(2)] by blast
  show ?thesis using h 1(1) 2 by (simp add: send_simple_def send_hdr_def snprintf_buf_fits response_def)
qed

lemma send_metrics_ok:
  assumes "length t < 10 ^ 20" "no_send_error ss"
  shows "send_metrics ss (Some (t, True)) =
     Some (response 200 ''OK'' ''text/plain; version=0.0.4; charset=utf-8'' t)"
proof -
  let ?h = "http_header 200 ''OK'' ''text/plain; version=0.0.4; charset=utf-8'' (length t)"
  have h: "length ?h < 256"
    using assms(1) by (intro http_header_length) (simp_all add: show_int_def show_nat_rec)
  obtain ss1 where 1: "send_all ss ?h = (0, ?h, ss1)" "no_send_error ss1"
    using send_all_complete [OF assms(2)] by blast
  obtain ss2 where 2: "send_all ss1 t = (0, t, ss2)"
    using send_all_complete [OF 1(2)] by blast
  show ?thesis using h 1(1) 2 by (simp add: send_metrics_def send_hdr_def snprintf_buf_fits response_def)
qed

lemma send_metrics_defined:
  assumes "\<And>t b. body = Some (t, b) \<Longrightarrow> b \<and> length t < 10 ^ 20"
  shows "send_metrics ss body \<noteq> None"
proof -
  have h: "\<exists>out ss'. send_hdr ss (http_header 200 ''OK'' ''text/plain; version=0.0.4; charset=utf-8'' n) = Some (out, ss')"
    if "n < 10 ^ 20" for n
    using that by (intro send_hdr_ok http_header_length) (simp_all add: show_int_def show_nat_rec)
  show ?thesis
  proof (cases body)
    case None
    then show ?thesis using h [of 0] by (auto simp: send_metrics_def)
  next
    case (Some tb)
    obtain t b where tb: "tb = (t, b)" by force
    with assms Some have b: b "length t < 10 ^ 20" by simp_all
    from h [OF b(2)] show ?thesis using Some tb b(1) by (auto simp: send_metrics_def split: prod.splits)
  qed
qed

section \<open>Requests\<close>

definition token :: "nat \<Rightarrow> string \<Rightarrow> bool" where
  \<comment> \<open>a word a request line may have at that place\<close>
  "token n w \<longleftrightarrow> w \<noteq> [] \<and> length w \<le> n \<and> list_all (\<lambda>c. \<not> isspace c \<and> c \<noteq> NUL) w"

lemma scan_token:
  assumes "token n w" "isspace sp"
  shows "scan1 (Str n) (w @ sp # t) = Match (Some (SStr w)) (sp # t)"
proof -
  obtain c v where w: "w = c # v" "\<not> isspace c" using assms(1) by (cases w) (auto simp: token_def)
  have "dropWhile isspace (w @ sp # t) = w @ sp # t" using w by simp
  moreover have "takeWhile (\<lambda>c. \<not> isspace c) (w @ sp # t) = w"
    using assms by (subst takeWhile_append2) (auto simp: token_def list_all_iff)
  ultimately show ?thesis
    using assms(1) w(1) by (simp add: scan_tok_def word_tok_max_def Let_def token_def)
qed

lemma cstr_append: "NUL \<notin> set a \<Longrightarrow> cstr (a @ b) = a @ cstr b"
  unfolding cstr_def by (subst takeWhile_append2) auto

lemma token_noNUL: "token n w \<Longrightarrow> NUL \<notin> set w"
  by (auto simp: token_def list_all_iff)

lemma request_line:
  assumes m: "token 15 m" and p: "token 511 p"
  shows "sscanf [Str 15, Ws, Str 511] (take 1023 (m @ '' '' @ p @ '' '' @ rest)) = (2, [SStr m, SStr p])"
proof -
  have "length m \<le> 15" "length p \<le> 511" using m p by (simp_all add: token_def)
  then obtain r where t: "take 1023 (m @ '' '' @ p @ '' '' @ rest) = m @ '' '' @ p @ '' '' @ r"
    by (simp add: take_Cons')
  have c: "cstr (m @ '' '' @ p @ '' '' @ r) = m @ CHR '' '' # p @ CHR '' '' # cstr r"
    using cstr_append [OF token_noNUL [OF m]] cstr_append [OF token_noNUL [OF p]]
    by (simp add: cstr_def)
  have sp: "isspace (CHR '' '')" by (simp add: isspace_def)
  obtain x v where x: "p = x # v" "\<not> isspace x" using p by (cases p) (auto simp: token_def)
  have d: "dropWhile isspace (CHR '' '' # p @ CHR '' '' # cstr r) = p @ CHR '' '' # cstr r"
    using sp x by simp
  have "scan_dirs [Str 511] (p @ CHR '' '' # cstr r) = ([SStr p], False)"
    by (simp only: scan_dirs.simps scan_token [OF p sp] scan_res.case option.case prod.case)
  then have "scan_dirs [Ws, Str 511] (CHR '' '' # p @ CHR '' '' # cstr r) = ([SStr p], False)"
    by (simp only: scan_dirs.simps(2) [of Ws] scan1.simps(1) d scan_res.case option.case prod.case)
  then have "scan_dirs [Str 15, Ws, Str 511] (m @ CHR '' '' # p @ CHR '' '' # cstr r) = ([SStr m, SStr p], False)"
    by (simp only: scan_dirs.simps(2) [of "Str 15"] scan_token [OF m sp] scan_res.case option.case prod.case)
  note all = this
  show ?thesis unfolding sscanf_def fscanf_def t c all by simp
qed

text \<open>The response a request gets.\<close>

definition reply :: "string \<Rightarrow> string \<Rightarrow> string \<Rightarrow> string" where
  "reply method path metrics =
     (if method \<noteq> ''GET''
      then response 405 ''Method Not Allowed'' ''text/plain; charset=utf-8'' (''method not allowed'' @ [NL])
      else if path = ''/metrics''
      then response 200 ''OK'' ''text/plain; version=0.0.4; charset=utf-8'' metrics
      else if path = ''/'' \<or> path = ''/health''
      then response 200 ''OK'' ''text/plain; charset=utf-8'' (''svgd-collect'' @ [NL])
      else response 404 ''Not Found'' ''text/plain; charset=utf-8'' (''not found'' @ [NL]))"

lemmas show_codes = show_int_def show_nat_rec

definition page :: "(entry list \<Rightarrow> entry list) \<Rightarrow> snap_state \<Rightarrow> string" where
  \<comment> \<open>the exposition of the published snapshot\<close>
  "page qs snp = exposition (published snp) (qs (entries (published snp)))"

context family_sorter
begin

lemma handle_conn_reply:
  assumes "token 15 m" "token 511 p" "snap_inv snp" "mem_ok h" "no_send_error ss"
    "length (page qs snp) < 10 ^ 20"
  shows "handle_conn qs (Some (m @ '' '' @ p @ '' '' @ rest)) ss snp h = Some (reply m p (page qs snp))"
proof -
  have ne: "m @ '' '' @ p @ '' '' @ rest \<noteq> []" by simp
  note s = request_line [OF assms(1,2), of rest]
  have b: "fst (prom_render qs snp h) = Some (page qs snp, True)"
    using prom_render_ok [OF assms(3,4)] by (simp add: page_def)
  show ?thesis
    unfolding handle_conn_def option.case if_not_P [OF ne] s prod.case
    using send_simple_ok [OF _ _ assms(5)] send_metrics_ok [OF assms(6,5)]
    by (simp add: b reply_def show_codes)
qed

lemma handle_conn_defined:
  assumes "snap_inv snp" "\<And>t b. fst (prom_render qs snp h) = Some (t, b) \<Longrightarrow> length t < 10 ^ 20"
  shows "handle_conn qs rcv ss snp h \<noteq> None"
proof -
  have "send_metrics ss (fst (prom_render qs snp h)) \<noteq> None"
    using send_metrics_defined [of "fst (prom_render qs snp h)" ss] prom_render_terminated [OF assms(1)] assms(2)
    by blast
  then show ?thesis
    using send_simple_defined
    by (simp add: handle_conn_def Let_def show_codes split: option.splits prod.splits)
qed

end

section \<open>The life of the thread\<close>

lemma metrics_iter_open: "metrics_iter qs ev s = Some (outs, s') \<Longrightarrow> n_open s' = n_open s"
  by (cases ev) (auto split: option.splits)

lemma metrics_thread_open:
  "metrics_thread qs sfd evs s = Some (outs, s') \<Longrightarrow> n_open s' = remove1 sfd (n_open s)"
proof (induction evs arbitrary: s outs)
  case Nil
  then show ?case by (auto simp: fd_close_def)
next
  case (Cons ev evs)
  then obtain o1 s1 o2 where "metrics_iter qs ev s = Some (o1, s1)" "metrics_thread qs sfd evs s1 = Some (o2, s')"
    by (auto split: option.splits)
  with Cons.IH metrics_iter_open show ?case by metis
qed

definition ev_ok :: "(entry list \<Rightarrow> entry list) \<Rightarrow> poll_ev \<Rightarrow> bool" where
  \<comment> \<open>a store the collection thread produces, and a page that fits the address space\<close>
  "ev_ok qs ev \<longleftrightarrow>
     (case ev of Conn cfd rcv ss snp h \<Rightarrow> snap_inv snp
        \<and> (\<forall>t b. fst (prom_render qs snp h) = Some (t, b) \<longrightarrow> length t < 10 ^ 20)
      | _ \<Rightarrow> True)"

context family_sorter
begin

lemma metrics_iter_defined: "ev_ok qs ev \<Longrightarrow> metrics_iter qs ev s \<noteq> None"
  using handle_conn_defined by (cases ev) (auto simp: ev_ok_def split: option.splits)

lemma metrics_thread_defined: "list_all (ev_ok qs) evs \<Longrightarrow> metrics_thread qs sfd evs s \<noteq> None"
proof (induction evs arbitrary: s)
  case (Cons ev evs)
  then obtain o1 s1 where "metrics_iter qs ev s = Some (o1, s1)"
    using metrics_iter_defined [of ev s] by auto
  with Cons show ?case by (auto split: option.splits)
qed simp

end

end
