(* ===== verification/Config.thy ===== *)
theory Config
  imports CLib
begin

text \<open>
  \<^verbatim>\<open>src/config.c\<close>: the scanner of \<^verbatim>\<open>collect.json\<close>. A pointer into the text is the suffix it
  points to; of two pointers the one with the shorter suffix is the greater.
\<close>

record collect_config =
  interval :: int
  c_datadir :: string
  c_host :: string
  c_rrdcached :: string
  c_readers :: "string list"
  c_metrics_addr :: string

definition quoted :: "string \<Rightarrow> string" where
  "quoted s = DQ # s @ [DQ]"

definition extract_string :: "string \<Rightarrow> string \<Rightarrow> string \<Rightarrow> nat \<Rightarrow> string" where
  \<comment> \<open>the third argument is the previous contents of the destination of \<open>n\<close> bytes\<close>
  "extract_string json key out n =
     (case strstr json key of None \<Rightarrow> out | Some p \<Rightarrow>
      case strchr (drop (length key) p) (CHR '':'') of None \<Rightarrow> out | Some p \<Rightarrow>
      case strchr (tl p) DQ of None \<Rightarrow> out | Some p \<Rightarrow>
      case strchr (tl p) DQ of None \<Rightarrow> out | Some e \<Rightarrow>
        (let len = length (tl p) - length e
         in take (if n \<le> len then n - 1 else len) (tl p)))"

definition extract_int :: "string \<Rightarrow> string \<Rightarrow> int \<Rightarrow> int" where
  "extract_int json key def =
     (case strstr json key of None \<Rightarrow> def | Some p \<Rightarrow>
      case strchr (drop (length key) p) (CHR '':'') of None \<Rightarrow> def | Some p \<Rightarrow> atoi (tl p))"

definition past :: "string option \<Rightarrow> string \<Rightarrow> bool" where
  \<comment> \<open>\<open>rb && q1 >= rb\<close>\<close>
  "past rb q1 = (case rb of None \<Rightarrow> False | Some b \<Rightarrow> length q1 \<le> length b)"

function readers_loop :: "string \<Rightarrow> string option \<Rightarrow> string list \<Rightarrow> string list" where
  \<comment> \<open>\<open>cur\<close>, the closing bracket \<open>rb\<close> if any, and the names found so far\<close>
  "readers_loop cur rb names =
     (if 16 \<le> length names then names
      else case strchr cur DQ of None \<Rightarrow> names | Some q1 \<Rightarrow>
        if past rb q1 then names
        else case strchr (tl q1) DQ of None \<Rightarrow> names | Some q2 \<Rightarrow>
          (let len = length q1 - length q2 - 1
           in readers_loop (tl q2) rb (names @ [take (if 32 \<le> len then 31 else len) (tl q1)])))"
  by pat_completeness auto
termination
  by (relation "measure (\<lambda>(cur, rb, names). 16 - length names)") auto

declare readers_loop.simps [simp del]

lemma readers_loop_rec:
  "16 \<le> length names \<Longrightarrow> readers_loop cur rb names = names"
  "strchr cur DQ = None \<Longrightarrow> readers_loop cur rb names = names"
  "strchr cur DQ = Some q1 \<Longrightarrow> past rb q1 \<Longrightarrow> readers_loop cur rb names = names"
  "strchr cur DQ = Some q1 \<Longrightarrow> strchr (tl q1) DQ = None \<Longrightarrow> readers_loop cur rb names = names"
  "\<not> 16 \<le> length names \<Longrightarrow> strchr cur DQ = Some q1 \<Longrightarrow> \<not> past rb q1 \<Longrightarrow>
     strchr (tl q1) DQ = Some q2 \<Longrightarrow>
     readers_loop cur rb names =
       (let len = length q1 - length q2 - 1
        in readers_loop (tl q2) rb (names @ [take (if 32 \<le> len then 31 else len) (tl q1)]))"
  by (subst readers_loop.simps, simp)+

definition extract_readers :: "string \<Rightarrow> string list" where
  "extract_readers json =
     (case strstr json (quoted ''readers'') of
        None \<Rightarrow> []
      | Some rp \<Rightarrow>
          (case strchr rp (CHR ''['') of
             None \<Rightarrow> []
           | Some lb \<Rightarrow> readers_loop (tl lb) (strchr lb (CHR '']'')) []))"

definition config_default :: collect_config where
  "config_default =
     \<lparr>interval = 5, c_datadir = snprintf_buf 4096 ''/var/lib/svgd-collect/rrd'',
      c_host = snprintf_buf 128 ''localhost'', c_rrdcached = [], c_readers = [], c_metrics_addr = []\<rparr>"

definition config_parse :: "string \<Rightarrow> collect_config \<Rightarrow> collect_config" where
  \<comment> \<open>from the loaded text\<close>
  "config_parse b c =
     (let iv = extract_int b (quoted ''interval'') (interval c)
      in \<lparr>interval = (if iv < 1 then 5 else iv),
          c_datadir = extract_string b (quoted ''datadir'') (c_datadir c) 4096,
          c_host = extract_string b (quoted ''hostname'') (c_host c) 128,
          c_rrdcached = extract_string b (quoted ''rrdcached_addr'') (c_rrdcached c) 256,
          c_readers = extract_readers b,
          c_metrics_addr = extract_string b (quoted ''metrics_addr'') (c_metrics_addr c) 128\<rparr>)"

definition config_load :: "(int \<times> string) option \<Rightarrow> mem \<Rightarrow> int \<times> collect_config" where
  \<comment> \<open>what opening the file gives: the size \<open>ftell\<close> reports and the bytes of the file\<close>
  "config_load file h =
     (case file of
        None \<Rightarrow> (- 1, config_default)
      | Some (sz, content) \<Rightarrow>
          if sz < 0 then (- 1, config_default)
          else case alloc h of (ok, _) \<Rightarrow>
            if \<not> ok then (- 1, config_default)
            else (0, config_parse (cstr (take (nat sz) content)) config_default))"

section \<open>Bounds\<close>

definition config_ok :: "collect_config \<Rightarrow> bool" where
  \<comment> \<open>what the loop and the writer rely on: a positive interval, and every string in its buffer\<close>
  "config_ok c \<longleftrightarrow>
     1 \<le> interval c \<and> length (c_datadir c) < 4096 \<and> length (c_host c) < 128
     \<and> length (c_rrdcached c) < 256 \<and> length (c_metrics_addr c) < 128
     \<and> length (c_readers c) \<le> 16 \<and> (\<forall>r \<in> set (c_readers c). length r < 32)"

lemma extract_string_length: "length out < n \<Longrightarrow> length (extract_string json key out n) < n"
  by (auto simp: extract_string_def Let_def split: option.splits)

lemma readers_loop_cases:
  obtains "readers_loop cur rb names = names"
  | q1 q2 len where "length names < 16" "strchr cur DQ = Some q1" "strchr (tl q1) DQ = Some q2"
    "len = length q1 - length q2 - 1"
    "readers_loop cur rb names =
       readers_loop (tl q2) rb (names @ [take (if 32 \<le> len then 31 else len) (tl q1)])"
proof -
  consider "16 \<le> length names" | "strchr cur DQ = None"
    | q1 where "strchr cur DQ = Some q1" "past rb q1"
    | q1 where "strchr cur DQ = Some q1" "strchr (tl q1) DQ = None"
    | q1 q2 where "\<not> 16 \<le> length names" "strchr cur DQ = Some q1" "\<not> past rb q1" "strchr (tl q1) DQ = Some q2"
    by (cases "strchr cur DQ"; cases "strchr (tl (the (strchr cur DQ))) DQ") auto
  then show thesis
    by cases (use that readers_loop_rec in \<open>force simp: Let_def\<close>)+
qed

lemma readers_loop_bounds:
  "length names \<le> 16 \<Longrightarrow> \<forall>r \<in> set names. length r < 32 \<Longrightarrow>
     length (readers_loop cur rb names) \<le> 16 \<and> (\<forall>r \<in> set (readers_loop cur rb names). length r < 32)"
proof (induction "16 - length names" arbitrary: cur names)
  case 0
  then show ?case by (simp add: readers_loop.simps)
next
  case (Suc k)
  show ?case
  proof (cases cur rb names rule: readers_loop_cases)
    case 1
    with Suc.prems show ?thesis by simp
  next
    case (2 q1 q2 len)
    let ?n = "names @ [take (if 32 \<le> len then 31 else len) (tl q1)]"
    have "k = 16 - length ?n" "length ?n \<le> 16" "\<forall>r \<in> set ?n. length r < 32"
      using Suc 2(1) by auto
    from Suc.hyps(1) [OF this] show ?thesis unfolding 2(5) .
  qed
qed

lemma config_default_ok: "config_ok config_default"
  by (simp add: config_ok_def config_default_def snprintf_buf_def)

lemma config_parse_ok:
  assumes "config_ok c"
  shows "config_ok (config_parse b c)"
  using assms readers_loop_bounds [of "[]"]
  by (simp add: config_ok_def config_parse_def Let_def extract_string_length extract_readers_def split: option.splits)

lemma config_load_ok: "config_ok (snd (config_load file h))"
  by (auto simp: config_load_def config_default_ok config_parse_ok split: option.splits prod.splits)

end
