(* ===== verification/Collect.thy ===== *)
theory Collect
  imports Writer Registry Http Config
begin

text \<open>
  \<^verbatim>\<open>src/collect.c\<close> and \<^verbatim>\<open>src/main.c\<close>: the interval loop that ties readers, writer and snapshot
  together, and the program around it.

  A cycle of the loop is described by what the operating system shows each reader and by the
  values of \<open>g_running\<close> that the sleep loop observes; a run is the list of its cycles, up to the
  one after which \<open>g_running\<close> is found cleared.
\<close>

record 'w cstate =
  cs_ws :: "'w wstate"
  cs_rd :: rstate
  cs_snap :: snap_state
  cs_mem :: mem

section \<open>One cycle\<close>

definition emit_cb :: "'w rrd_ops \<Rightarrow> writer \<Rightarrow> metric \<Rightarrow> 'w cstate \<Rightarrow> (int \<times> 'w cstate) option" where
  "emit_cb ops w m s =
     do { (rc, ws) \<leftarrow> writer_write ops w (Some m) (cs_ws s);
          let (sn, h) = prom_snapshot_add m (cs_snap s) (cs_mem s);
          Some (rc, s\<lparr>cs_ws := ws, cs_snap := sn, cs_mem := h\<rparr>) }"

fun run_events :: "'w rrd_ops \<Rightarrow> writer \<Rightarrow> event list \<Rightarrow> 'w cstate \<Rightarrow> 'w cstate option" where
  \<comment> \<open>the calls a reader makes, in order; it ignores what the callback returns\<close>
  "run_events ops w [] s = Some s"
| "run_events ops w (Log l # es) s = run_events ops w es (s\<lparr>cs_ws := log_line l (cs_ws s)\<rparr>)"
| "run_events ops w (Emit m # es) s =
     (case emit_cb ops w m s of None \<Rightarrow> None | Some (rc, s') \<Rightarrow> run_events ops w es s')"

fun run_readers :: "'w rrd_ops \<Rightarrow> writer \<Rightarrow> (reader \<Rightarrow> osenv) \<Rightarrow> reader list \<Rightarrow> 'w cstate \<Rightarrow> 'w cstate option" where
  "run_readers ops w env [] s = Some s"
| "run_readers ops w env (r # rs) s =
     (case reader_read r (env r) ''/proc'' (cs_rd s) of
        None \<Rightarrow> None
      | Some (rc, es, rd) \<Rightarrow>
          (case run_events ops w es (s\<lparr>cs_rd := rd\<rparr>) of
             None \<Rightarrow> None
           | Some s' \<Rightarrow> run_readers ops w env rs s'))"

definition collect_cycle ::
  "'w rrd_ops \<Rightarrow> writer \<Rightarrow> reader list \<Rightarrow> (reader \<Rightarrow> osenv) \<Rightarrow> 'w cstate \<Rightarrow> 'w cstate option" where
  "collect_cycle ops w enabled env s =
     (case prom_snapshot_begin (cs_snap s) (cs_mem s) of (sn, h) \<Rightarrow>
        case run_readers ops w env enabled (s\<lparr>cs_snap := sn, cs_mem := h\<rparr>) of
          None \<Rightarrow> None
        | Some s' \<Rightarrow> Some (s'\<lparr>cs_snap := prom_snapshot_publish (cs_snap s')\<rparr>))"

section \<open>The loop\<close>

fun sleep_loop :: "nat \<Rightarrow> bool list \<Rightarrow> nat" where
  \<comment> \<open>seconds slept: \<open>for (s = 0; s < interval && g_running; s++) sleep(1);\<close>\<close>
  "sleep_loop 0 obs = 0"
| "sleep_loop (Suc n) [] = Suc (sleep_loop n [])"
| "sleep_loop (Suc n) (run # obs) = (if run then Suc (sleep_loop n obs) else 0)"

record cycle =
  cy_env :: "reader \<Rightarrow> osenv"
  cy_running :: "bool list"

fun collect_loop ::
  "'w rrd_ops \<Rightarrow> writer \<Rightarrow> reader list \<Rightarrow> int \<Rightarrow> cycle list \<Rightarrow> 'w cstate \<Rightarrow> (nat list \<times> 'w cstate) option" where
  \<comment> \<open>the seconds slept after each cycle, and the final state\<close>
  "collect_loop ops w enabled intv [] s = Some ([], s)"
| "collect_loop ops w enabled intv (c # cs) s =
     (case collect_cycle ops w enabled (cy_env c) s of
        None \<Rightarrow> None
      | Some s' \<Rightarrow>
          (case collect_loop ops w enabled intv cs s' of
             None \<Rightarrow> None
           | Some (naps, s'') \<Rightarrow> Some (sleep_loop (nat intv) (cy_running c) # naps, s'')))"

definition cfg_writer :: "collect_config \<Rightarrow> writer" where
  \<comment> \<open>the local \<open>writer_t\<close> after \<open>writer_init\<close>\<close>
  "cfg_writer cfg =
     snd (writer_init \<lparr>datadir = [], host = [], rrdcached = []\<rparr>
       (Some (c_datadir cfg)) (Some (c_host cfg)) (Some (c_rrdcached cfg)))"

definition cfg_enabled :: "collect_config \<Rightarrow> reader list \<times> event list" where
  "cfg_enabled cfg =
     collect_build_enabled (Some (map Some (take 16 (c_readers cfg)))) (int (length (c_readers cfg))) 32"

definition collect_run ::
  "'w rrd_ops \<Rightarrow> collect_config \<Rightarrow> cycle list \<Rightarrow> 'w cstate \<Rightarrow> (nat list \<times> 'w cstate) option" where
  "collect_run ops cfg cycles s =
     (let w = cfg_writer cfg in
      case cfg_enabled cfg of (enabled, es) \<Rightarrow>
        (case run_events ops w es s of
           None \<Rightarrow> None
         | Some s1 \<Rightarrow>
             (case collect_loop ops w enabled (interval cfg) cycles s1 of
                None \<Rightarrow> None
              | Some (naps, s2) \<Rightarrow> Some (naps, s2\<lparr>cs_ws := writer_shutdown ops w (cs_ws s2)\<rparr>))))"

section \<open>The program\<close>

record 'w world =
  wd_file :: "string \<Rightarrow> (int \<times> string) option"
  wd_net_env :: net_env
  wd_net :: net
  wd_created :: bool
  wd_cfg_mem :: mem
  wd_http_mem :: mem
  wd_cycles :: "cycle list"
  wd_cs :: "'w cstate"

definition start_metrics :: "'w world \<Rightarrow> collect_config \<Rightarrow> int option \<times> string list \<times> net" where
  \<comment> \<open>the descriptor of the listener if it runs, the lines written and the descriptors\<close>
  "start_metrics wd cfg =
     (if c_metrics_addr cfg \<noteq> [] then
        (case http_metrics_start (wd_net_env wd) (Some (c_metrics_addr cfg)) True (wd_http_mem wd) (wd_created wd)
                (wd_net wd) of
           (rc, fd, n) \<Rightarrow>
             if rc = 0
             then (fd, n_err n @ [''svgd-collect: metrics endpoint on http://'' @ c_metrics_addr cfg @ ''/metrics''], n)
             else (None, n_err n @ [''svgd-collect: metrics endpoint disabled (bind failed)''], n))
      else (None, n_err (wd_net wd), wd_net wd))"

definition main_prog ::
  "'w rrd_ops \<Rightarrow> string list \<Rightarrow> 'w world \<Rightarrow> (int \<times> int option \<times> nat list \<times> string list \<times> 'w cstate) option" where
  \<comment> \<open>exit code, descriptor handed to the metrics thread, sleeps, lines before the loop, final state\<close>
  "main_prog ops argv wd =
     (let cfg_path = (if length argv > 1 then argv ! 1 else ''collect.json'') in
      case config_load (wd_file wd cfg_path) (wd_cfg_mem wd) of (rc, cfg) \<Rightarrow>
        let l1 = (if rc \<noteq> 0 then [''svgd-collect: cannot open '' @ cfg_path @ ''; continuing with defaults''] else []);
            l2 = [''svgd-collect: interval='' @ show_int (interval cfg) @ ''s datadir='' @ c_datadir cfg
                  @ '' host='' @ c_host cfg]
        in case start_metrics wd cfg of (fd, l3, n) \<Rightarrow>
           case collect_run ops cfg (wd_cycles wd) (wd_cs wd) of
             None \<Rightarrow> None
           | Some (naps, s) \<Rightarrow>
               Some (0, fd, naps, l1 @ l2 @ l3,
                 s\<lparr>cs_ws := log_line ''svgd-collect: shutting down'' (cs_ws s)\<rparr>))"

section \<open>The tee\<close>

text \<open>The effect of a cycle splits into what the writer does with the events, one after the other,
  and the snapshot of the metrics among them.\<close>

fun write_events :: "'w rrd_ops \<Rightarrow> writer \<Rightarrow> event list \<Rightarrow> 'w wstate \<Rightarrow> 'w wstate option" where
  "write_events ops w [] ws = Some ws"
| "write_events ops w (Log l # es) ws = write_events ops w es (log_line l ws)"
| "write_events ops w (Emit m # es) ws =
     (case writer_write ops w (Some m) ws of None \<Rightarrow> None | Some (rc, ws') \<Rightarrow> write_events ops w es ws')"

fun readers_events :: "(reader \<Rightarrow> osenv) \<Rightarrow> reader list \<Rightarrow> rstate \<Rightarrow> (event list \<times> rstate) option" where
  "readers_events env [] rd = Some ([], rd)"
| "readers_events env (r # rs) rd =
     (case reader_read r (env r) ''/proc'' rd of
        None \<Rightarrow> None
      | Some (rc, es, rd') \<Rightarrow>
          (case readers_events env rs rd' of None \<Rightarrow> None | Some (es', rd'') \<Rightarrow> Some (es @ es', rd'')))"

lemma write_events_defined: "\<exists>ws'. write_events ops w es ws = Some ws'"
proof (induction es arbitrary: ws)
  case (Cons e es)
  show ?case
  proof (cases e)
    case (Emit m)
    obtain rc ws1 where "writer_write ops w (Some m) ws = Some (rc, ws1)"
      using writer_write_defined [of ops w "Some m" ws] by auto
    with Emit Cons.IH show ?thesis by simp
  next
    case (Log l)
    with Cons.IH show ?thesis by simp
  qed
qed simp

lemma write_events_append:
  "write_events ops w (es @ es') ws =
     (case write_events ops w es ws of None \<Rightarrow> None | Some ws' \<Rightarrow> write_events ops w es' ws')"
proof (induction es arbitrary: ws)
  case (Cons e es)
  then show ?case by (cases e) (auto split: option.splits)
qed simp

lemma snap_adds_append:
  "snap_adds add (ms @ ms') s h = (case snap_adds add ms s h of (s', h') \<Rightarrow> snap_adds add ms' s' h')"
  by (induction ms arbitrary: s h) (auto split: prod.splits)

lemma run_events_split:
  "run_events ops w es s =
     (case write_events ops w es (cs_ws s) of None \<Rightarrow> None | Some ws \<Rightarrow>
      case snap_adds prom_snapshot_add (emitted es) (cs_snap s) (cs_mem s) of (sn, h) \<Rightarrow>
        Some (s\<lparr>cs_ws := ws, cs_snap := sn, cs_mem := h\<rparr>))"
proof (induction es arbitrary: s)
  case Nil
  show ?case by simp
next
  case (Cons e es)
  show ?case
  proof (cases e)
    case (Emit m)
    obtain rc ws where "writer_write ops w (Some m) (cs_ws s) = Some (rc, ws)"
      using writer_write_defined [of ops w "Some m" "cs_ws s"] by auto
    moreover obtain sn h where "prom_snapshot_add m (cs_snap s) (cs_mem s) = (sn, h)" by force
    moreover obtain ws2 where "write_events ops w es ws = Some ws2" using write_events_defined by blast
    ultimately show ?thesis by (simp add: Emit emit_cb_def Cons.IH)
  next
    case (Log l)
    obtain ws2 where "write_events ops w es (log_line l (cs_ws s)) = Some ws2"
      using write_events_defined by blast
    then show ?thesis by (simp add: Log Cons.IH)
  qed
qed

lemma run_readers_split:
  "run_readers ops w env rs s =
     (case readers_events env rs (cs_rd s) of None \<Rightarrow> None
      | Some (es, rd) \<Rightarrow> run_events ops w es (s\<lparr>cs_rd := rd\<rparr>))"
proof (induction rs arbitrary: s)
  case Nil
  show ?case by simp
next
  case (Cons r rs)
  show ?case
  proof (cases "reader_read r (env r) ''/proc'' (cs_rd s)")
    case None
    then show ?thesis by simp
  next
    case (Some x)
    obtain rc es rd where x: "x = (rc, es, rd)" by (metis prod_cases3)
    obtain ws where ws: "write_events ops w es (cs_ws s) = Some ws" using write_events_defined by blast
    obtain sn h where sn: "snap_adds prom_snapshot_add (emitted es) (cs_snap s) (cs_mem s) = (sn, h)" by force
    show ?thesis
      using Some x ws sn
      by (simp add: Cons.IH run_events_split write_events_append snap_adds_append split: option.splits prod.splits)
  qed
qed

lemma collect_cycle_split:
  assumes ev: "readers_events env enabled (cs_rd s) = Some (es, rd)"
  obtains ws where "write_events ops w es (cs_ws s) = Some ws"
    "collect_cycle ops w enabled env s =
       Some (s\<lparr>cs_rd := rd, cs_ws := ws,
               cs_snap := fst (snap_cycle prom_snapshot_begin prom_snapshot_add prom_snapshot_publish
                            (emitted es) (cs_snap s) (cs_mem s)),
               cs_mem := snd (snap_cycle prom_snapshot_begin prom_snapshot_add prom_snapshot_publish
                            (emitted es) (cs_snap s) (cs_mem s))\<rparr>)"
proof -
  obtain ws where ws: "write_events ops w es (cs_ws s) = Some ws" using write_events_defined by blast
  obtain sn h where b: "prom_snapshot_begin (cs_snap s) (cs_mem s) = (sn, h)" by force
  obtain sn2 h2 where a: "snap_adds prom_snapshot_add (emitted es) sn h = (sn2, h2)" by force
  show thesis
    by (rule that [OF ws])
      (simp add: collect_cycle_def b run_readers_split ev run_events_split ws a snap_cycle_def)
qed

section \<open>Every metric has a type and a family\<close>

lemma reader_pair_rule:
  assumes "(p, t) \<in> reader_pairs"
  shows "\<exists>r. find_rule p t = Some r \<and> length p < 48 \<and> length t < 48"
proof -
  have "list_all (\<lambda>(p, t). find_rule p t \<noteq> None \<and> length p < 48 \<and> length t < 48)
     [(''cpu'', ''percent''), (''load'', ''load''), (''uptime'', ''uptime''),
      (''memory'', ''percent''), (''swap'', ''swap''), (''df'', ''df_complex''),
      (''thermal'', ''temperature''), (''tcpconns'', ''tcp_connections''),
      (''interface'', ''if_octets''), (''interface'', ''if_packets''), (''interface'', ''if_errors''),
      (''disk'', ''disk_ops''), (''disk'', ''disk_octets''), (''disk'', ''disk_time''),
      (''processes'', ''ps_rss''), (''processes'', ''ps_cputime''), (''processes'', ''ps_count'')]"
    by (simp add: find_rule_def RULES_def mk_rule_def)
  then show ?thesis
    using assms by (auto simp: reader_pairs_def interface_pairs_def disk_pairs_def ps_pairs_def)
qed

lemma reader_metric_rule:
  assumes "metric_ok reader_pairs m"
  shows "\<exists>r d. find_rule (sm_plugin (copy_metric m)) (sm_type (copy_metric m)) = Some r
     \<and> types_lookup (type m) = Some d \<and> td_ds_count d = ds_count m
     \<and> sm_ds_count (copy_metric m) = ds_count m \<and> sm_values (copy_metric m) = vals m"
proof -
  obtain p t d where m: "plugin m = Some p" "type m = Some t" "(p, t) \<in> reader_pairs"
    "types_lookup (Some t) = Some d" "ds_count m = td_ds_count d" "length (vals m) = length (td_ds d)"
    using assms by (auto simp: metric_ok_def)
  obtain r where r: "find_rule p t = Some r" "length p < 48" "length t < 48"
    using reader_pair_rule [OF m(3)] by blast
  note ok = types_lookup_ok [OF m(4)]
  have n: "td_ds_count d = int (length (td_ds d))" by (rule type_def_ok_count [OF ok])
  have "length (td_ds d) \<le> 3" using ok unfolding type_def_ok_def by blast
  then show ?thesis
    using m r n by (simp add: copy_metric_def copy_str_def Let_def METRIC_MAX_DS_def)
qed

lemma readers_events_ok:
  "readers_events env rs rd = Some (es, rd') \<Longrightarrow> m \<in> set (emitted es) \<Longrightarrow> metric_ok reader_pairs m"
proof (induction rs arbitrary: rd es)
  case (Cons r rs)
  then obtain rc es1 rd1 es2 where
    r: "reader_read r (env r) ''/proc'' rd = Some (rc, es1, rd1)" "readers_events env rs rd1 = Some (es2, rd')"
    "es = es1 @ es2"
    by (auto split: option.splits)
  with Cons readers.emits_ok [OF r(1)] show ?case by auto
qed simp

section \<open>Stopping\<close>

lemma sleep_loop_le: "sleep_loop n obs \<le> n"
  by (induction n obs rule: sleep_loop.induct) auto

lemma sleep_loop_stop: "sleep_loop n (replicate k True @ False # obs) = min n k"
proof (induction n arbitrary: k)
  case (Suc n)
  then show ?case by (cases k) auto
qed simp

lemma collect_loop_naps:
  "collect_loop ops w enabled intv cs s = Some (naps, s') \<Longrightarrow>
     naps = map (\<lambda>c. sleep_loop (nat intv) (cy_running c)) cs"
  by (induction cs arbitrary: s naps) (auto split: option.splits)

lemma collect_loop_inv:
  "collect_loop ops w enabled intv cs s = Some (naps, s') \<Longrightarrow> snap_inv (cs_snap s) \<Longrightarrow> snap_inv (cs_snap s')"
proof (induction cs arbitrary: s naps)
  case (Cons c cs)
  then obtain s1 naps1 where c: "collect_cycle ops w enabled (cy_env c) s = Some s1"
    "collect_loop ops w enabled intv cs s1 = Some (naps1, s')"
    by (auto split: option.splits)
  then obtain es rd where ev: "readers_events (cy_env c) enabled (cs_rd s) = Some (es, rd)"
    by (auto simp: collect_cycle_def run_readers_split split: option.splits prod.splits)
  obtain ws where "collect_cycle ops w enabled (cy_env c) s =
       Some (s\<lparr>cs_rd := rd, cs_ws := ws,
               cs_snap := fst (snap_cycle prom_snapshot_begin prom_snapshot_add prom_snapshot_publish
                            (emitted es) (cs_snap s) (cs_mem s)),
               cs_mem := snd (snap_cycle prom_snapshot_begin prom_snapshot_add prom_snapshot_publish
                            (emitted es) (cs_snap s) (cs_mem s))\<rparr>)"
    by (rule collect_cycle_split [OF ev])
  then have "snap_inv (cs_snap s1)" using c(1) snap.cycle_wf [OF Cons.prems(2)] by auto
  with c(2) Cons.IH show ?case by blast
qed simp

end
