(* ===== verification/Threads.thy ===== *)
theory Threads
  imports Snapshot
begin

text \<open>
  The two threads that share the snapshot store of \<^verbatim>\<open>src/prom.c\<close>: the collection thread
  (\<open>begin\<close>, \<open>add\<close> without the lock, the swap under \<open>g_lock\<close>) and the HTTP thread (\<open>prom_render\<close>:
  the pointer read and the copy, one element at a time, under \<open>g_lock\<close>).

  A step relation interleaves them at every access of the shared state; which metrics a cycle
  emits and which allocations succeed is left open. \<open>log_cycles\<close> is a history variable: for each
  completed cycle the metrics emitted and the snapshot published.
\<close>

datatype thread = Collector | Http

datatype cpc = CBegin | CAdd | CLock | CSwap | CUnlock

datatype rpc = RIdle | RRead | RCopy nat nat "snap_metric list" | RUnlock "snap_metric list"
  | RGot "snap_metric list"

record system =
  snap :: snap_state
  g_lock :: "thread option"
  cpc :: cpc
  rpc :: rpc
  emitted_now :: "metric list"
  log_cycles :: "(metric list \<times> snap_metric list) list"

definition sys_init :: system where
  "sys_init = \<lparr>snap = snap_init, g_lock = None, cpc = CBegin, rpc = RIdle, emitted_now = [], log_cycles = []\<rparr>"

definition sys_begin :: "mem \<Rightarrow> system \<Rightarrow> system" where
  "sys_begin h s = s\<lparr>snap := fst (prom_snapshot_begin (snap s) h), cpc := CAdd, emitted_now := []\<rparr>"

definition sys_add :: "metric \<Rightarrow> mem \<Rightarrow> system \<Rightarrow> system" where
  "sys_add m h s = s\<lparr>snap := fst (prom_snapshot_add m (snap s) h), emitted_now := emitted_now s @ [m]\<rparr>"

inductive cstep :: "system \<Rightarrow> system \<Rightarrow> bool" where
  c_begin: "cpc s = CBegin \<Longrightarrow> cstep s (sys_begin h s)"
| c_add: "cpc s = CAdd \<Longrightarrow> cstep s (sys_add m h s)"
| c_done: "cpc s = CAdd \<Longrightarrow> cstep s (s\<lparr>cpc := CLock\<rparr>)"
| c_lock: "cpc s = CLock \<Longrightarrow> g_lock s = None \<Longrightarrow> cstep s (s\<lparr>g_lock := Some Collector, cpc := CSwap\<rparr>)"
| c_swap: "cpc s = CSwap \<Longrightarrow>
    cstep s (s\<lparr>snap := prom_snapshot_publish (snap s), cpc := CUnlock,
               log_cycles := log_cycles s @ [(emitted_now s, staged (snap s))]\<rparr>)"
| c_unlock: "cpc s = CUnlock \<Longrightarrow> cstep s (s\<lparr>g_lock := None, cpc := CBegin\<rparr>)"

inductive rstep :: "system \<Rightarrow> system \<Rightarrow> bool" where
  r_lock: "rpc s = RIdle \<Longrightarrow> g_lock s = None \<Longrightarrow> rstep s (s\<lparr>g_lock := Some Http, rpc := RRead\<rparr>)"
| r_empty: "rpc s = RRead \<Longrightarrow> g_published (snap s) = None \<Longrightarrow> rstep s (s\<lparr>rpc := RUnlock []\<rparr>)"
| r_zero: "rpc s = RRead \<Longrightarrow> g_published (snap s) = Some p \<Longrightarrow> sb_count (buf (snap s) p) = 0 \<Longrightarrow>
    rstep s (s\<lparr>rpc := RUnlock []\<rparr>)"
| r_nomem: "rpc s = RRead \<Longrightarrow> g_published (snap s) = Some p \<Longrightarrow> sb_count (buf (snap s) p) \<noteq> 0 \<Longrightarrow>
    rstep s (s\<lparr>rpc := RUnlock []\<rparr>)"
| r_alloc: "rpc s = RRead \<Longrightarrow> g_published (snap s) = Some p \<Longrightarrow> sb_count (buf (snap s) p) \<noteq> 0 \<Longrightarrow>
    rstep s (s\<lparr>rpc := RCopy p (sb_count (buf (snap s) p)) []\<rparr>)"
| r_copy: "rpc s = RCopy p n acc \<Longrightarrow> length acc < n \<Longrightarrow>
    rstep s (s\<lparr>rpc := RCopy p n (acc @ [sb_items (buf (snap s) p) ! length acc])\<rparr>)"
| r_copied: "rpc s = RCopy p n acc \<Longrightarrow> length acc = n \<Longrightarrow> rstep s (s\<lparr>rpc := RUnlock acc\<rparr>)"
| r_unlock: "rpc s = RUnlock acc \<Longrightarrow> rstep s (s\<lparr>g_lock := None, rpc := RGot acc\<rparr>)"
| r_again: "rpc s = RGot acc \<Longrightarrow> rstep s (s\<lparr>rpc := RIdle\<rparr>)"

inductive step :: "system \<Rightarrow> system \<Rightarrow> bool" where
  collector: "cstep s s' \<Longrightarrow> step s s'"
| http: "rstep s s' \<Longrightarrow> step s s'"

inductive_cases stepE: "step s s'"
inductive_cases cstepE: "cstep s s'"
inductive_cases rstepE: "rstep s s'"

inductive reachable :: "system \<Rightarrow> bool" where
  init: "reachable sys_init"
| next_step: "reachable s \<Longrightarrow> step s s' \<Longrightarrow> reachable s'"

section \<open>The invariant\<close>

definition in_collector :: "cpc \<Rightarrow> bool" where
  "in_collector c \<longleftrightarrow> c = CSwap \<or> c = CUnlock"

definition in_http :: "rpc \<Rightarrow> bool" where
  "in_http r \<longleftrightarrow> (case r of RIdle \<Rightarrow> False | RGot _ \<Rightarrow> False | _ \<Rightarrow> True)"

definition lock_ok :: "system \<Rightarrow> bool" where
  "lock_ok s \<longleftrightarrow> (g_lock s = Some Collector \<longleftrightarrow> in_collector (cpc s))
     \<and> (g_lock s = Some Http \<longleftrightarrow> in_http (rpc s))"

definition snapshots :: "system \<Rightarrow> snap_metric list set" where
  \<comment> \<open>what a scrape may see: nothing, or a completed cycle\<close>
  "snapshots s = insert [] (snd ` set (log_cycles s))"

definition copy_ok :: "system \<Rightarrow> bool" where
  "copy_ok s \<longleftrightarrow>
     (case rpc s of
        RCopy p n acc \<Rightarrow> g_published (snap s) = Some p \<and> n = sb_count (buf (snap s) p)
          \<and> length acc \<le> n \<and> acc = take (length acc) (published (snap s))
      | RUnlock acc \<Rightarrow> acc \<in> snapshots s
      | RGot acc \<Rightarrow> acc \<in> snapshots s
      | _ \<Rightarrow> True)"

definition cycle_ok :: "system \<Rightarrow> bool" where
  "cycle_ok s \<longleftrightarrow> published (snap s) \<in> snapshots s
     \<and> (cpc s \<in> {CBegin, CUnlock} \<or> subseq (staged (snap s)) (map copy_metric (emitted_now s)))
     \<and> (\<forall>(ms, sn) \<in> set (log_cycles s). subseq sn (map copy_metric ms))"

definition sys_inv :: "system \<Rightarrow> bool" where
  "sys_inv s \<longleftrightarrow> snap_inv (snap s) \<and> lock_ok s \<and> copy_ok s \<and> cycle_ok s"

lemma published_init: "g_published snap_init = None"
  by (simp add: snap_init_def)

lemma sys_inv_init: "sys_inv sys_init"
  by (simp add: sys_inv_def sys_init_def lock_ok_def copy_ok_def cycle_ok_def in_collector_def in_http_def
      snapshots_def published_def published_init)

text \<open>Filling the staging area leaves the published buffer alone, so a copy in progress is not
  disturbed by the collection thread.\<close>

lemma ensure_staged_pub:
  assumes "snap_inv s" "g_published s = Some p"
  shows "buf (fst (ensure_staged s h)) p = buf s p"
proof -
  have "p \<noteq> sn_next s" using assms by (auto simp: snap_inv_def ptr_ok_def)
  then show ?thesis by (auto simp: ensure_staged_def sb_new_def buf_def split: option.splits prod.splits)
qed

lemma buf_set_buf: "p \<noteq> q \<Longrightarrow> buf (set_buf q b s) p = buf s p"
  by (simp add: buf_def set_buf_def)

lemma fill_keeps_published:
  assumes "snap_inv s"
  shows "g_published (fst (prom_snapshot_begin s h)) = g_published s"
    "g_published (fst (prom_snapshot_add m s h)) = g_published s"
    "g_published s = Some p \<Longrightarrow> buf (fst (prom_snapshot_begin s h)) p = buf s p"
    "g_published s = Some p \<Longrightarrow> buf (fst (prom_snapshot_add m s h)) p = buf s p"
proof -
  obtain s1 h1 where e: "ensure_staged s h = (s1, h1)" by force
  note pr = ensure_staged_props(1,2) [OF assms, of h, unfolded e fst_conv]
  show "g_published (fst (prom_snapshot_begin s h)) = g_published s"
    using pr by (simp add: prom_snapshot_begin_def e split: option.splits)
  show "g_published (fst (prom_snapshot_add m s h)) = g_published s"
    using pr by (simp add: prom_snapshot_add_def e Let_def case_prod_beta split: option.splits)
  assume p: "g_published s = Some p"
  have b1: "buf s1 p = buf s p" using ensure_staged_pub [OF assms p, of h] e by simp
  have ne: "g_staged s1 = Some q \<Longrightarrow> p \<noteq> q" for q using pr p by (auto simp: snap_inv_def)
  show "buf (fst (prom_snapshot_begin s h)) p = buf s p"
    using b1 ne by (simp add: prom_snapshot_begin_def e buf_set_buf split: option.splits)
  show "buf (fst (prom_snapshot_add m s h)) p = buf s p"
    using b1 ne by (simp add: prom_snapshot_add_def e Let_def case_prod_beta buf_set_buf split: option.splits)
qed

lemma copy_ok_fill:
  assumes "snap_inv (snap s)" "copy_ok s"
    "g_published sn = g_published (snap s)" "published sn = published (snap s)"
    "\<And>p. g_published (snap s) = Some p \<Longrightarrow> buf sn p = buf (snap s) p"
  shows "copy_ok (s\<lparr>snap := sn, cpc := c, emitted_now := e\<rparr>)"
  using assms by (auto simp: copy_ok_def snapshots_def split: rpc.splits)

lemma cstep_preserves:
  assumes "cstep s s'" "sys_inv s"
  shows "sys_inv s'"
  using assms
proof (cases rule: cstep.cases)
  case (c_begin h)
  note i = assms(2) [unfolded sys_inv_def]
  have "copy_ok s'"
    unfolding c_begin(1) sys_begin_def using i
    by (intro copy_ok_fill) (simp_all add: fill_keeps_published snapshot_begin_props)
  with i c_begin show ?thesis
    by (auto simp: sys_begin_def sys_inv_def snapshot_begin_props lock_ok_def cycle_ok_def in_collector_def snapshots_def)
next
  case (c_add m h)
  note i = assms(2) [unfolded sys_inv_def]
  have "s' = s\<lparr>snap := fst (prom_snapshot_add m (snap s) h), cpc := CAdd, emitted_now := emitted_now s @ [m]\<rparr>"
    using c_add by (simp add: sys_add_def)
  then have cp: "copy_ok s'"
    using i by (simp only:) (intro copy_ok_fill, simp_all add: fill_keeps_published snapshot_add_cases)
  have st: "subseq (staged (fst (prom_snapshot_add m (snap s) h))) (map copy_metric (emitted_now s @ [m]))"
    using snapshot_add_cases(3) [of "snap s" m h] i c_add(2)
    by (auto simp: cycle_ok_def intro: list_emb_append_mono subseq_rev_drop_many)
  show ?thesis
    using i cp st c_add
    by (auto simp: sys_add_def sys_inv_def snapshot_add_cases lock_ok_def cycle_ok_def in_collector_def snapshots_def)
next
  case c_swap
  note i = assms(2) [unfolded sys_inv_def]
  have "\<not> in_http (rpc s)" using i c_swap(2) by (auto simp: lock_ok_def in_collector_def)
  then have "copy_ok s'"
    using i c_swap by (auto simp: copy_ok_def in_http_def snapshots_def split: rpc.splits)
  with i c_swap show ?thesis
    by (auto simp: sys_inv_def publish_props lock_ok_def cycle_ok_def in_collector_def snapshots_def)
qed (auto simp: sys_inv_def lock_ok_def copy_ok_def cycle_ok_def in_collector_def snapshots_def
    split: rpc.splits)

lemma rstep_preserves:
  assumes "rstep s s'" "sys_inv s"
  shows "sys_inv s'"
  using assms
proof (cases rule: rstep.cases)
  case (r_alloc p)
  with assms(2) show ?thesis
    by (auto simp: sys_inv_def lock_ok_def copy_ok_def cycle_ok_def in_http_def snapshots_def)
next
  case (r_copy p n acc)
  note i = assms(2) [unfolded sys_inv_def]
  have p: "g_published (snap s) = Some p" "n = sb_count (buf (snap s) p)"
    "acc = take (length acc) (published (snap s))"
    using i r_copy(2) by (auto simp: copy_ok_def)
  note pb = published_buf [OF conjunct1 [OF i] p(1)]
  have lt: "length acc < length (published (snap s))" using pb p(2) r_copy(3) by metis
  then have "acc @ [published (snap s) ! length acc] = take (Suc (length acc)) (published (snap s))"
    using p(3) by (simp add: take_Suc_conv_app_nth)
  moreover have "published (snap s) ! length acc = sb_items (buf (snap s) p) ! length acc"
    using pb p(2) r_copy(3) by (metis nth_take)
  ultimately show ?thesis
    using i r_copy p lt
    by (auto simp: sys_inv_def lock_ok_def copy_ok_def cycle_ok_def in_http_def snapshots_def min_def)
next
  case (r_copied p n acc)
  note i = assms(2) [unfolded sys_inv_def]
  have p: "g_published (snap s) = Some p" "n = sb_count (buf (snap s) p)"
    "acc = take (length acc) (published (snap s))"
    using i r_copied(2) by (auto simp: copy_ok_def)
  have "acc = published (snap s)"
    using p published_buf [OF conjunct1 [OF i] p(1)] r_copied(3) by simp
  then show ?thesis
    using i r_copied by (auto simp: sys_inv_def lock_ok_def copy_ok_def cycle_ok_def in_http_def snapshots_def)
qed (auto simp: sys_inv_def lock_ok_def copy_ok_def cycle_ok_def in_http_def in_collector_def snapshots_def
    split: rpc.splits)

lemma step_preserves: "step s s' \<Longrightarrow> sys_inv s \<Longrightarrow> sys_inv s'"
  by (elim stepE) (simp_all add: cstep_preserves rstep_preserves)

lemma reachable_inv: "reachable s \<Longrightarrow> sys_inv s"
  by (induction rule: reachable.induct) (auto intro: sys_inv_init step_preserves)

text \<open>A thread inside its critical section can always go on, and a thread that waits for the lock
  waits for the other thread inside its own.\<close>

lemma rstep_progress:
  assumes "sys_inv s" "rpc s \<noteq> RIdle \<or> g_lock s = None"
  shows "\<exists>s'. rstep s s'"
proof (cases "rpc s")
  case RRead
  then show ?thesis
    by (cases "g_published (snap s)"; cases "sb_count (buf (snap s) (the (g_published (snap s)))) = 0")
      (auto dest: rstep.r_empty rstep.r_zero rstep.r_alloc)
next
  case (RCopy p n acc)
  then have "length acc \<le> n" using assms(1) by (auto simp: sys_inv_def copy_ok_def)
  then show ?thesis using RCopy rstep.r_copy rstep.r_copied by (metis le_neq_implies_less)
next
  case RIdle
  with assms(2) show ?thesis by (auto dest: rstep.r_lock)
qed (auto dest: rstep.r_unlock rstep.r_again)

lemma cstep_progress: "cpc s \<noteq> CLock \<or> g_lock s = None \<Longrightarrow> \<exists>s'. cstep s s'"
  by (cases "cpc s") (auto dest: cstep.c_begin cstep.c_done cstep.c_lock cstep.c_swap cstep.c_unlock)

lemma lock_holder:
  assumes "sys_inv s" "g_lock s \<noteq> None"
  shows "in_collector (cpc s) \<or> in_http (rpc s)"
  using assms by (cases "g_lock s"; cases "the (g_lock s)") (auto simp: sys_inv_def lock_ok_def)

lemma step_progress:
  assumes "sys_inv s"
  shows "\<exists>s'. step s s'"
proof (cases "cpc s = CLock \<and> g_lock s \<noteq> None")
  case True
  then have "in_http (rpc s)" using lock_holder [OF assms] by (auto simp: in_collector_def)
  then have "rpc s \<noteq> RIdle" by (auto simp: in_http_def)
  then show ?thesis using rstep_progress [OF assms] step.http by blast
next
  case False
  then show ?thesis using cstep_progress step.collector by blast
qed

end
