(* ===== verification/Program.thy ===== *)
theory Program
  imports Collect Threads
begin

text \<open>
  The running program: \<^verbatim>\<open>src/main.c\<close>, the loop of \<^verbatim>\<open>src/collect.c\<close> and the thread of
  \<^verbatim>\<open>src/http.c\<close> as one step relation. The main thread runs cycle after cycle, the HTTP thread serves
  connections, and signals arrive at any moment; the three interleave at every access of shared
  state (\<open>g_running\<close>, the snapshot store and its lock).

  The relation has the readers, the writer and the renderer as they are in their own theories. What
  the kernel shows a reader is any member of \<open>E\<close>; what clients send, and which allocations and sends
  succeed, is open. The fields after \<open>pg_rd\<close> are history: the events performed, the readers run in the
  current cycle with their events, the completed passes over the readers, and the replies sent.
\<close>

section \<open>Signals\<close>

datatype signal = SIGINT | SIGTERM | SIGPIPE | Other_signal nat

datatype disposition = SIG_DFL | SIG_IGN | Catch

definition dispositions :: "signal \<Rightarrow> disposition" where
  \<comment> \<open>as \<open>main\<close> sets them before anything else\<close>
  "dispositions = (((\<lambda>_. SIG_DFL)(SIGTERM := Catch))(SIGINT := Catch))(SIGPIPE := SIG_IGN)"

definition on_signal :: "bool \<Rightarrow> bool" where
  \<comment> \<open>the handler: the new value of \<open>g_running\<close>\<close>
  "on_signal run = False"

definition deliver :: "signal \<Rightarrow> bool \<Rightarrow> bool option" where
  \<comment> \<open>\<open>g_running\<close> after a signal; \<open>None\<close> stands for the default action\<close>
  "deliver sg run =
     (case dispositions sg of SIG_DFL \<Rightarrow> None | SIG_IGN \<Rightarrow> Some run | Catch \<Rightarrow> Some (on_signal run))"

section \<open>States\<close>

datatype mpc = MCheck | MBegin | MRead "reader list" "event list" | MPublish | MSleep nat
  | MShutdown | MJoin | MExit int

datatype hpc = HOff | HCheck | HPoll | HServe | HClosed

record 'w prog =
  sys :: system
  g_running :: bool
  mpc :: mpc
  hpc :: hpc
  pg_ws :: "'w wstate"
  pg_rd :: rstate
  trace :: "event list"
  cur :: "(reader \<times> event list) list"
  passes :: "(reader \<times> event list) list list"
  sent :: "string list"

definition prog_init :: "bool \<Rightarrow> 'w wstate \<Rightarrow> 'w prog" where
  \<comment> \<open>at the entry of the loop; the HTTP thread exists if the endpoint was started\<close>
  "prog_init started ws =
     \<lparr>sys = sys_init, g_running = True, mpc = MCheck, hpc = (if started then HCheck else HOff),
      pg_ws = ws, pg_rd = rstate_init, trace = [], cur = [], passes = [], sent = []\<rparr>"

definition scrape_request :: "string option \<Rightarrow> bool" where
  \<comment> \<open>whether \<open>handle_conn\<close> gets to \<open>prom_render\<close>\<close>
  "scrape_request rcv \<longleftrightarrow>
     (case rcv of
        None \<Rightarrow> False
      | Some bytes \<Rightarrow>
          (case sscanf [Str 15, Ws, Str 511] (take 1023 bytes) of (n, vs) \<Rightarrow>
             bytes \<noteq> [] \<and> 2 \<le> n \<and> str_of (vs ! 0) = ''GET'' \<and> str_of (vs ! 1) = ''/metrics''))"

definition finish_render :: "(entry list \<Rightarrow> entry list) \<Rightarrow> snap_metric list \<Rightarrow> mem \<Rightarrow> cbuf" where
  \<comment> \<open>\<open>prom_render\<close> after the lock is released, with the copy it took\<close>
  "finish_render qs copy h = fst (if copy = [] then empty_string h else render_copy qs copy h)"

section \<open>Steps\<close>

definition http_metrics_join :: "hpc \<Rightarrow> bool" where
  \<comment> \<open>whether the wait of \<open>main\<close> is over: there is no thread to join, or it has returned\<close>
  [simp]: "http_metrics_join h \<longleftrightarrow> h = HOff \<or> h = HClosed"

inductive mstep ::
  "'w rrd_ops \<Rightarrow> writer \<Rightarrow> reader list \<Rightarrow> nat \<Rightarrow> osenv set \<Rightarrow> 'w prog \<Rightarrow> 'w prog \<Rightarrow> bool"
  for ops w enabled intv E where
  m_run: "mpc p = MCheck \<Longrightarrow> g_running p \<Longrightarrow> mstep ops w enabled intv E p (p\<lparr>mpc := MBegin\<rparr>)"
| m_stop: "mpc p = MCheck \<Longrightarrow> \<not> g_running p \<Longrightarrow> mstep ops w enabled intv E p (p\<lparr>mpc := MShutdown\<rparr>)"
| m_begin: "mpc p = MBegin \<Longrightarrow>
    mstep ops w enabled intv E p (p\<lparr>sys := sys_begin h (sys p), mpc := MRead enabled [], cur := []\<rparr>)"
| m_read: "mpc p = MRead (r # rs) [] \<Longrightarrow> env \<in> E \<Longrightarrow>
    reader_read r env ''/proc'' (pg_rd p) = Some (rc, es, rd) \<Longrightarrow>
    mstep ops w enabled intv E p (p\<lparr>pg_rd := rd, mpc := MRead rs es, cur := cur p @ [(r, es)]\<rparr>)"
| m_log: "mpc p = MRead rs (Log l # es) \<Longrightarrow>
    mstep ops w enabled intv E p
      (p\<lparr>pg_ws := log_line l (pg_ws p), mpc := MRead rs es, trace := trace p @ [Log l]\<rparr>)"
| m_emit: "mpc p = MRead rs (Emit m # es) \<Longrightarrow> writer_write ops w (Some m) (pg_ws p) = Some (rc, ws) \<Longrightarrow>
    mstep ops w enabled intv E p
      (p\<lparr>sys := sys_add m h (sys p), pg_ws := ws, mpc := MRead rs es, trace := trace p @ [Emit m]\<rparr>)"
| m_done: "mpc p = MRead [] [] \<Longrightarrow>
    mstep ops w enabled intv E p (p\<lparr>sys := (sys p)\<lparr>cpc := CLock\<rparr>, mpc := MPublish\<rparr>)"
| m_publish: "mpc p = MPublish \<Longrightarrow> cpc (sys p) \<noteq> CUnlock \<Longrightarrow> cstep (sys p) s' \<Longrightarrow>
    mstep ops w enabled intv E p (p\<lparr>sys := s'\<rparr>)"
| m_unlock: "mpc p = MPublish \<Longrightarrow> cpc (sys p) = CUnlock \<Longrightarrow> cstep (sys p) s' \<Longrightarrow>
    mstep ops w enabled intv E p (p\<lparr>sys := s', mpc := MSleep intv, passes := passes p @ [cur p]\<rparr>)"
| m_sleep: "mpc p = MSleep (Suc n) \<Longrightarrow> g_running p \<Longrightarrow>
    mstep ops w enabled intv E p (p\<lparr>mpc := MSleep n\<rparr>)"
| m_wake: "mpc p = MSleep n \<Longrightarrow> n = 0 \<or> \<not> g_running p \<Longrightarrow>
    mstep ops w enabled intv E p (p\<lparr>mpc := MCheck\<rparr>)"
| m_shutdown: "mpc p = MShutdown \<Longrightarrow>
    mstep ops w enabled intv E p (p\<lparr>pg_ws := writer_shutdown ops w (pg_ws p), mpc := MJoin\<rparr>)"
| m_join: "mpc p = MJoin \<Longrightarrow> http_metrics_join (hpc p) \<Longrightarrow>
    mstep ops w enabled intv E p
      (p\<lparr>pg_ws := log_line ''svgd-collect: shutting down'' (pg_ws p), mpc := MExit 0\<rparr>)"

inductive hstep :: "(entry list \<Rightarrow> entry list) \<Rightarrow> 'w prog \<Rightarrow> 'w prog \<Rightarrow> bool" for qs where
  h_run: "hpc p = HCheck \<Longrightarrow> g_running p \<Longrightarrow> hstep qs p (p\<lparr>hpc := HPoll\<rparr>)"
| h_stop: "hpc p = HCheck \<Longrightarrow> \<not> g_running p \<Longrightarrow> hstep qs p (p\<lparr>hpc := HClosed\<rparr>)"
| h_none: "hpc p = HPoll \<Longrightarrow> hstep qs p (p\<lparr>hpc := HCheck\<rparr>)"
| h_other: "hpc p = HPoll \<Longrightarrow> \<not> scrape_request rcv \<Longrightarrow>
    handle_conn qs rcv ss (snap (sys p)) h = Some out \<Longrightarrow>
    hstep qs p (p\<lparr>hpc := HCheck, sent := sent p @ [out]\<rparr>)"
| h_scrape: "hpc p = HPoll \<Longrightarrow> scrape_request rcv \<Longrightarrow> hstep qs p (p\<lparr>hpc := HServe\<rparr>)"
| h_copy: "hpc p = HServe \<Longrightarrow> (\<forall>acc. rpc (sys p) \<noteq> RGot acc) \<Longrightarrow> rstep (sys p) s' \<Longrightarrow>
    hstep qs p (p\<lparr>sys := s'\<rparr>)"
| h_send: "hpc p = HServe \<Longrightarrow> rpc (sys p) = RGot acc \<Longrightarrow>
    send_metrics ss (finish_render qs acc h) = Some out \<Longrightarrow>
    hstep qs p (p\<lparr>sys := (sys p)\<lparr>rpc := RIdle\<rparr>, hpc := HCheck, sent := sent p @ [out]\<rparr>)"

inductive pstep ::
  "(entry list \<Rightarrow> entry list) \<Rightarrow> 'w rrd_ops \<Rightarrow> writer \<Rightarrow> reader list \<Rightarrow> nat \<Rightarrow> osenv set \<Rightarrow> 'w prog \<Rightarrow> 'w prog \<Rightarrow> bool"
  for qs ops w enabled intv E where
  main_thread: "mstep ops w enabled intv E p q \<Longrightarrow> pstep qs ops w enabled intv E p q"
| http_thread: "hstep qs p q \<Longrightarrow> pstep qs ops w enabled intv E p q"

inductive reach ::
  "(entry list \<Rightarrow> entry list) \<Rightarrow> 'w rrd_ops \<Rightarrow> writer \<Rightarrow> reader list \<Rightarrow> nat \<Rightarrow> osenv set \<Rightarrow> bool \<Rightarrow> 'w wstate \<Rightarrow> 'w prog \<Rightarrow> bool"
  for qs ops w enabled intv E started ws0 where
  start: "reach qs ops w enabled intv E started ws0 (prog_init started ws0)"
| thread_step: "reach qs ops w enabled intv E started ws0 p \<Longrightarrow> pstep qs ops w enabled intv E p q \<Longrightarrow>
    reach qs ops w enabled intv E started ws0 q"
| signal_step: "reach qs ops w enabled intv E started ws0 p \<Longrightarrow> deliver sg (g_running p) = Some run \<Longrightarrow>
    reach qs ops w enabled intv E started ws0 (p\<lparr>g_running := run\<rparr>)"

inductive_cases pstepE: "pstep qs ops w enabled intv E p q"

section \<open>The threads of the store\<close>

text \<open>Forgetting everything but the store, a step of the program is a step of the two threads of
  \<open>Threads\<close> or none.\<close>

definition pc_ok :: "'w prog \<Rightarrow> bool" where
  "pc_ok p \<longleftrightarrow>
     (case mpc p of
        MRead rs es \<Rightarrow> cpc (sys p) = CAdd
      | MPublish \<Rightarrow> cpc (sys p) \<in> {CLock, CSwap, CUnlock}
      | _ \<Rightarrow> cpc (sys p) = CBegin)
     \<and> (rpc (sys p) = RIdle \<or> hpc p = HServe)"

lemma cstep_rpc: "cstep s s' \<Longrightarrow> rpc s' = rpc s"
  by (elim cstepE) (simp_all add: sys_begin_def sys_add_def)

lemma rstep_cpc: "rstep s s' \<Longrightarrow> cpc s' = cpc s \<and> emitted_now s' = emitted_now s \<and> log_cycles s' = log_cycles s"
  by (elim rstepE) simp_all

lemma cstep_publish_cpc:
  "cstep s s' \<Longrightarrow> cpc s \<in> {CLock, CSwap} \<Longrightarrow> cpc s' \<in> {CLock, CSwap, CUnlock}"
  "cstep s s' \<Longrightarrow> cpc s = CUnlock \<Longrightarrow> cpc s' = CBegin"
  by (elim cstepE; simp)+

lemma mstep_pc_ok: "mstep ops w enabled intv E p q \<Longrightarrow> pc_ok p \<Longrightarrow> pc_ok q"
  by (elim mstep.cases)
    (auto simp: pc_ok_def sys_begin_def sys_add_def cstep_rpc dest: cstep_publish_cpc)

lemma hstep_pc_ok: "hstep qs p q \<Longrightarrow> pc_ok p \<Longrightarrow> pc_ok q"
  by (elim hstep.cases) (auto simp: pc_ok_def dest: rstep_cpc split: mpc.splits)

lemma pstep_pc_ok: "pstep qs ops w enabled intv E p q \<Longrightarrow> pc_ok p \<Longrightarrow> pc_ok q"
  by (auto elim!: pstepE intro: mstep_pc_ok hstep_pc_ok)

lemma pstep_simulates:
  assumes "pstep qs ops w enabled intv E p q" "pc_ok p"
  shows "sys q = sys p \<or> step (sys p) (sys q)"
  using assms(1)
proof (cases rule: pstep.cases)
  case main_thread
  then show ?thesis
    using assms(2)
    by (cases rule: mstep.cases)
      (auto simp: pc_ok_def intro!: step.collector intro: cstep.c_begin cstep.c_add cstep.c_done)
next
  case http_thread
  then show ?thesis
    using assms(2) by (cases rule: hstep.cases) (auto intro!: step.http intro: rstep.r_again)
qed

lemma reach_threads:
  "reach qs ops w enabled intv E started ws0 p \<Longrightarrow> pc_ok p \<and> reachable (sys p)"
proof (induction rule: reach.induct)
  case start
  show ?case by (simp add: prog_init_def pc_ok_def sys_init_def reachable.init [unfolded sys_init_def])
next
  case (thread_step p q)
  then have "pc_ok q" using pstep_pc_ok by blast
  with thread_step pstep_simulates reachable.next_step show ?case by metis
next
  case (signal_step p sg run)
  then show ?case by (simp add: pc_ok_def split: mpc.splits)
qed

lemma reach_sys_inv: "reach qs ops w enabled intv E started ws0 p \<Longrightarrow> sys_inv (sys p)"
  using reach_threads reachable_inv by blast

section \<open>From the readers to both sinks\<close>

definition pass_metrics :: "(reader \<times> event list) list \<Rightarrow> metric list" where
  "pass_metrics ps = emitted (concat (map snd ps))"

definition from_readers :: "osenv set \<Rightarrow> (reader \<times> event list) list \<Rightarrow> bool" where
  \<comment> \<open>the events of each reader are those of one of its calls\<close>
  "from_readers E = list_all (\<lambda>(r, es).
     \<exists>env \<in> E. \<exists>rd rc rd'. reader_read r env ''/proc'' rd = Some (rc, es, rd'))"

definition flow_ok :: "reader list \<Rightarrow> osenv set \<Rightarrow> 'w prog \<Rightarrow> bool" where
  "flow_ok enabled E p \<longleftrightarrow>
     from_readers E (cur p) \<and> list_all (\<lambda>ps. from_readers E ps \<and> map fst ps = enabled) (passes p)
     \<and> (case mpc p of
          MRead rs es \<Rightarrow> map fst (cur p) @ rs = enabled
            \<and> emitted_now (sys p) @ emitted es = pass_metrics (cur p)
        | MPublish \<Rightarrow> map fst (cur p) = enabled \<and> emitted_now (sys p) = pass_metrics (cur p)
        | _ \<Rightarrow> True)
     \<and> map fst (log_cycles (sys p)) =
         map pass_metrics (passes p @ (if cpc (sys p) = CUnlock then [cur p] else []))"

definition trace_ok :: "'w prog \<Rightarrow> bool" where
  "trace_ok p \<longleftrightarrow>
     emitted (trace p) = concat (map pass_metrics (passes p))
       @ (case mpc p of MRead _ _ \<Rightarrow> emitted_now (sys p) | MPublish \<Rightarrow> emitted_now (sys p) | _ \<Rightarrow> [])"

definition ws_ok :: "'w rrd_ops \<Rightarrow> writer \<Rightarrow> 'w wstate \<Rightarrow> 'w prog \<Rightarrow> bool" where
  \<comment> \<open>the writer has performed exactly the events so far, one after the other\<close>
  "ws_ok ops w ws0 p \<longleftrightarrow>
     (\<exists>ws. write_events ops w (trace p) ws0 = Some ws
        \<and> pg_ws p =
            (case mpc p of
               MJoin \<Rightarrow> writer_shutdown ops w ws
             | MExit _ \<Rightarrow> log_line ''svgd-collect: shutting down'' (writer_shutdown ops w ws)
             | _ \<Rightarrow> ws))"

lemma pass_metrics_snoc [simp]: "pass_metrics (ps @ [(r, es)]) = pass_metrics ps @ emitted es"
  by (simp add: pass_metrics_def)

lemma from_readers_snoc [simp]: "from_readers E (ps @ [x]) \<longleftrightarrow> from_readers E ps \<and> from_readers E [x]"
  by (simp add: from_readers_def)

lemma cstep_publish_log:
  "cstep s s' \<Longrightarrow> cpc s \<in> {CLock, CSwap} \<Longrightarrow> emitted_now s' = emitted_now s
     \<and> log_cycles s' = log_cycles s @ (if cpc s' = CUnlock then [(emitted_now s, staged (snap s))] else [])"
  "cstep s s' \<Longrightarrow> cpc s = CUnlock \<Longrightarrow> emitted_now s' = emitted_now s \<and> log_cycles s' = log_cycles s"
  by (elim cstepE; simp)+

lemma mstep_flow_ok:
  assumes "mstep ops w enabled intv E p q" "pc_ok p" "flow_ok enabled E p"
  shows "flow_ok enabled E q"
  using assms(1)
proof (cases rule: mstep.cases)
  case (m_read r rs env rc es rd)
  then have "from_readers E [(r, es)]" by (auto simp: from_readers_def)
  with assms m_read show ?thesis by (simp add: flow_ok_def pc_ok_def)
next
  case (m_publish s')
  then have "cpc (sys p) \<in> {CLock, CSwap}" using assms(2) by (auto simp: pc_ok_def)
  with cstep_publish_log(1) [OF m_publish(4)] assms m_publish show ?thesis
    by (auto simp: flow_ok_def)
next
  case (m_unlock s')
  with cstep_publish_log(2) [OF m_unlock(4)] cstep_publish_cpc(2) [OF m_unlock(4)] assms show ?thesis
    by (simp add: flow_ok_def pc_ok_def)
qed (use assms in \<open>auto simp: flow_ok_def pc_ok_def sys_begin_def sys_add_def pass_metrics_def from_readers_def\<close>)

lemma hstep_flow_ok: "hstep qs p q \<Longrightarrow> flow_ok enabled E p \<Longrightarrow> flow_ok enabled E q"
  by (elim hstep.cases) (auto simp: flow_ok_def dest: rstep_cpc split: mpc.splits)

lemma mstep_trace_ok:
  assumes "mstep ops w enabled intv E p q" "pc_ok p" "flow_ok enabled E p" "trace_ok p"
  shows "trace_ok q"
  using assms(1)
proof (cases rule: mstep.cases)
  case (m_publish s')
  then have "cpc (sys p) \<in> {CLock, CSwap}" using assms(2) by (auto simp: pc_ok_def)
  with cstep_publish_log(1) [OF m_publish(4)] assms m_publish show ?thesis by (simp add: trace_ok_def)
next
  case (m_unlock s')
  with cstep_publish_log(2) [OF m_unlock(4)] assms show ?thesis by (simp add: trace_ok_def flow_ok_def)
qed (use assms in \<open>auto simp: trace_ok_def sys_begin_def sys_add_def\<close>)

lemma hstep_trace_ok: "hstep qs p q \<Longrightarrow> trace_ok p \<Longrightarrow> trace_ok q"
  by (elim hstep.cases) (auto simp: trace_ok_def dest: rstep_cpc split: mpc.splits)

lemma mstep_ws_ok:
  assumes "mstep ops w enabled intv E p q" "ws_ok ops w ws0 p"
  shows "ws_ok ops w ws0 q"
  using assms by (cases rule: mstep.cases) (auto simp: ws_ok_def write_events_append)

lemma hstep_ws_ok: "hstep qs p q \<Longrightarrow> ws_ok ops w ws0 p \<Longrightarrow> ws_ok ops w ws0 q"
  by (elim hstep.cases) (auto simp: ws_ok_def)

lemma reach_flow:
  "reach qs ops w enabled intv E started ws0 p \<Longrightarrow> flow_ok enabled E p \<and> trace_ok p \<and> ws_ok ops w ws0 p"
proof (induction rule: reach.induct)
  case start
  show ?case by (simp add: prog_init_def flow_ok_def trace_ok_def ws_ok_def from_readers_def sys_init_def)
next
  case (thread_step p q)
  from reach_threads [OF thread_step(1)] have "pc_ok p" by blast
  with thread_step show ?case
    by (auto elim!: pstepE intro: mstep_flow_ok hstep_flow_ok mstep_trace_ok hstep_trace_ok mstep_ws_ok hstep_ws_ok)
next
  case (signal_step p sg run)
  then show ?case by (simp add: flow_ok_def trace_ok_def ws_ok_def split: mpc.splits)
qed

section \<open>What clients receive\<close>

definition reply_ok :: "(entry list \<Rightarrow> entry list) \<Rightarrow> snap_metric list set \<Rightarrow> string \<Rightarrow> bool" where
  \<comment> \<open>a reply that has nothing to do with the metrics, or a rendering of one of the snapshots\<close>
  "reply_ok qs S out \<longleftrightarrow>
     (\<exists>rcv ss snp h. \<not> scrape_request rcv \<and> handle_conn qs rcv ss snp h = Some out)
   \<or> (\<exists>acc \<in> S. \<exists>ss h. send_metrics ss (finish_render qs acc h) = Some out)"

definition sent_ok :: "(entry list \<Rightarrow> entry list) \<Rightarrow> 'w prog \<Rightarrow> bool" where
  "sent_ok qs p \<longleftrightarrow> list_all (reply_ok qs (snapshots (sys p))) (sent p)"

lemma reply_ok_mono: "S \<subseteq> T \<Longrightarrow> list_all (reply_ok qs S) outs \<Longrightarrow> list_all (reply_ok qs T) outs"
  by (fastforce simp: list_all_iff reply_ok_def)

lemma step_snapshots: "step s s' \<Longrightarrow> snapshots s \<subseteq> snapshots s'"
  by (elim stepE cstepE rstepE) (auto simp: snapshots_def sys_begin_def sys_add_def)

lemma pstep_sent_ok:
  assumes "pstep qs ops w enabled intv E p q" "pc_ok p" "sys_inv (sys p)" "sent_ok qs p"
  shows "sent_ok qs q"
proof -
  have "snapshots (sys p) \<subseteq> snapshots (sys q)"
    using pstep_simulates [OF assms(1,2)] step_snapshots by auto
  then have old: "list_all (reply_ok qs (snapshots (sys q))) (sent p)"
    using assms(4) reply_ok_mono by (auto simp: sent_ok_def)
  from assms(1) show ?thesis
  proof (cases rule: pstep.cases)
    case main_thread
    then have "sent q = sent p" by (cases rule: mstep.cases) simp_all
    with old show ?thesis by (simp add: sent_ok_def)
  next
    case http_thread
    then show ?thesis
    proof (cases rule: hstep.cases)
      case (h_other rcv ss h out)
      with old show ?thesis by (auto simp: sent_ok_def reply_ok_def)
    next
      case (h_send acc ss h out)
      then have "acc \<in> snapshots (sys q)"
        using assms(3) by (simp add: sys_inv_def copy_ok_def snapshots_def)
      with h_send have "reply_ok qs (snapshots (sys q)) out" unfolding reply_ok_def by blast
      with old h_send(1) show ?thesis by (simp add: sent_ok_def)
    qed (use old in \<open>simp_all add: sent_ok_def\<close>)
  qed
qed

lemma reach_sent: "reach qs ops w enabled intv E started ws0 p \<Longrightarrow> sent_ok qs p"
proof (induction rule: reach.induct)
  case start
  show ?case by (simp add: sent_ok_def prog_init_def)
next
  case (thread_step p q)
  from reach_threads [OF thread_step(1)] have "pc_ok p" by blast
  from pstep_sent_ok [OF thread_step(2) this reach_sys_inv [OF thread_step(1)] thread_step(3)] show ?case .
next
  case (signal_step p sg run)
  then show ?case by (simp add: sent_ok_def)
qed

lemma reach_pass:
  assumes "reach qs ops w enabled intv E started ws0 p" "(ms, sn) \<in> set (log_cycles (sys p))"
  shows "\<exists>ps. map fst ps = enabled \<and> from_readers E ps \<and> ms = pass_metrics ps
     \<and> subseq sn (map copy_metric (pass_metrics ps))"
proof -
  have f: "flow_ok enabled E p" using reach_flow [OF assms(1)] by blast
  have c: "cycle_ok (sys p)" using reach_sys_inv [OF assms(1)] by (simp add: sys_inv_def)
  have u: "cpc (sys p) = CUnlock \<Longrightarrow> map fst (cur p) = enabled"
    using reach_threads [OF assms(1)] f by (auto simp: pc_ok_def flow_ok_def split: mpc.splits)
  have "ms \<in> set (map fst (log_cycles (sys p)))" using assms(2) by force
  then have "ms \<in> pass_metrics ` set (passes p @ (if cpc (sys p) = CUnlock then [cur p] else []))"
    using f unfolding flow_ok_def by (metis set_map)
  then obtain ps where ps: "ms = pass_metrics ps" "ps \<in> set (passes p) \<or> cpc (sys p) = CUnlock \<and> ps = cur p"
    by (auto split: if_splits)
  have "map fst ps = enabled \<and> from_readers E ps"
    using ps(2) u f by (auto simp: flow_ok_def list_all_iff)
  with ps(1) c assms(2) show ?thesis by (fastforce simp: cycle_ok_def)
qed

section \<open>Stopping\<close>

definition stop_ok :: "bool \<Rightarrow> 'w prog \<Rightarrow> bool" where
  "stop_ok started p \<longleftrightarrow>
     (mpc p \<in> {MShutdown, MJoin} \<union> range MExit \<or> hpc p = HClosed \<longrightarrow> \<not> g_running p)
     \<and> (hpc p = HOff \<longleftrightarrow> \<not> started)
     \<and> (\<forall>c. mpc p = MExit c \<longrightarrow> c = 0 \<and> hpc p \<in> {HOff, HClosed})"

lemma mstep_stop_ok: "mstep ops w enabled intv E p q \<Longrightarrow> stop_ok started p \<Longrightarrow> stop_ok started q"
  by (elim mstep.cases) (auto simp: stop_ok_def)

lemma hstep_stop_ok: "hstep qs p q \<Longrightarrow> stop_ok started p \<Longrightarrow> stop_ok started q"
  by (elim hstep.cases) (auto simp: stop_ok_def)

lemma deliver_off: "deliver sg run = Some run' \<Longrightarrow> run' \<Longrightarrow> run"
  by (auto simp: deliver_def on_signal_def split: disposition.splits)

lemma reach_stop: "reach qs ops w enabled intv E started ws0 p \<Longrightarrow> stop_ok started p"
proof (induction rule: reach.induct)
  case start
  show ?case by (auto simp: stop_ok_def prog_init_def)
next
  case (thread_step p q)
  then show ?case by (auto elim!: pstepE intro: mstep_stop_ok hstep_stop_ok)
next
  case (signal_step p sg run)
  then show ?case by (auto simp: stop_ok_def dest: deliver_off)
qed

text \<open>After \<open>g_running\<close> is cleared every step brings the program closer to its end.\<close>

definition rank :: "'w prog \<Rightarrow> nat \<times> nat \<times> nat \<times> nat \<times> nat" where
  "rank p =
     (case (case mpc p of
              MExit _ \<Rightarrow> (0, 0, 0) | MJoin \<Rightarrow> (1, 0, 0) | MShutdown \<Rightarrow> (2, 0, 0) | MCheck \<Rightarrow> (3, 0, 0)
            | MSleep _ \<Rightarrow> (4, 0, 0)
            | MPublish \<Rightarrow> (case cpc (sys p) of CUnlock \<Rightarrow> 5 | CSwap \<Rightarrow> 6 | _ \<Rightarrow> 7, 0, 0)
            | MRead rs es \<Rightarrow> (8, length rs, length es) | MBegin \<Rightarrow> (9, 0, 0)) of (a, b, c) \<Rightarrow>
      (a, b, c,
        (case hpc p of
           HOff \<Rightarrow> (0, 0) | HClosed \<Rightarrow> (0, 0) | HCheck \<Rightarrow> (1, 0)
         | HServe \<Rightarrow> (case rpc (sys p) of RGot _ \<Rightarrow> (2, 0) | RUnlock _ \<Rightarrow> (3, 0)
                      | RCopy _ n acc \<Rightarrow> (4, n - length acc) | RRead \<Rightarrow> (5, 0) | RIdle \<Rightarrow> (6, 0))
         | HPoll \<Rightarrow> (7, 0))))"

abbreviation rank_less :: "((nat \<times> nat \<times> nat \<times> nat \<times> nat) \<times> (nat \<times> nat \<times> nat \<times> nat \<times> nat)) set" where
  "rank_less \<equiv> less_than <*lex*> less_than <*lex*> less_than <*lex*> less_than <*lex*> less_than"

lemma cstep_publish_next:
  "cstep s s' \<Longrightarrow> cpc s = CLock \<Longrightarrow> cpc s' = CSwap"
  "cstep s s' \<Longrightarrow> cpc s = CSwap \<Longrightarrow> cpc s' = CUnlock"
  by (elim cstepE; simp)+

lemma mstep_rank:
  "mstep ops w enabled intv E p q \<Longrightarrow> pc_ok p \<Longrightarrow> \<not> g_running p \<Longrightarrow>
     (rank q, rank p) \<in> rank_less \<and> \<not> g_running q"
  by (elim mstep.cases)
    (auto simp: rank_def pc_ok_def dest: cstep_publish_next split: prod.splits)

lemma hstep_rank:
  "hstep qs p q \<Longrightarrow> pc_ok p \<Longrightarrow> \<not> g_running p \<Longrightarrow> (rank q, rank p) \<in> rank_less \<and> \<not> g_running q"
  by (elim hstep.cases) (auto simp: rank_def pc_ok_def elim!: rstepE split: prod.splits mpc.splits)

lemma stopping_ends:
  "pc_ok p \<Longrightarrow> \<not> g_running p \<Longrightarrow> Wellfounded.accp (\<lambda>q p. pstep qs ops w enabled intv E p q) p"
proof (induction p rule: wf_induct_rule [OF wf_inv_image [of rank_less rank]])
  case 1
  show ?case by (intro wf_lex_prod wf_less_than)
next
  case (2 p)
  show ?case
  proof (rule accpI)
    fix q assume s: "pstep qs ops w enabled intv E p q"
    then have "(rank q, rank p) \<in> rank_less \<and> \<not> g_running q"
      using 2(2,3) mstep_rank hstep_rank by (elim pstepE) blast+
    with 2 pstep_pc_ok [OF s 2(2)] show "Wellfounded.accp (\<lambda>q p. pstep qs ops w enabled intv E p q) q"
      by (simp add: in_inv_image)
  qed
qed

section \<open>Progress\<close>

text \<open>The states the readers get into, and kernels on which none of their sums overflows.\<close>

inductive rd_reach :: "osenv set \<Rightarrow> reader list \<Rightarrow> rstate \<Rightarrow> bool" for E enabled where
  rd_init: "rd_reach E enabled rstate_init"
| rd_read: "rd_reach E enabled rd \<Longrightarrow> r \<in> set enabled \<Longrightarrow> env \<in> E \<Longrightarrow>
    reader_read r env ''/proc'' rd = Some (rc, es, rd') \<Longrightarrow> rd_reach E enabled rd'"

definition kernel_ok :: "osenv set \<Rightarrow> reader list \<Rightarrow> bool" where
  "kernel_ok E enabled \<longleftrightarrow> E \<noteq> {} \<and>
     (\<forall>rd r env. rd_reach E enabled rd \<longrightarrow> r \<in> set enabled \<longrightarrow> env \<in> E \<longrightarrow> reader_read r env ''/proc'' rd \<noteq> None)"

lemma pstep_rd_reach:
  assumes "pstep qs ops w enabled intv E p q" "flow_ok enabled E p" "rd_reach E enabled (pg_rd p)"
  shows "rd_reach E enabled (pg_rd q)"
  using assms(1)
proof (cases rule: pstep.cases)
  case main_thread
  then show ?thesis
  proof (cases rule: mstep.cases)
    case (m_read r rs env rc es rd)
    then have "r \<in> set enabled" using assms(2) by (auto simp: flow_ok_def)
    with m_read assms(3) rd_read show ?thesis by fastforce
  qed (use assms(3) in simp_all)
next
  case http_thread
  then show ?thesis using assms(3) by (cases rule: hstep.cases) simp_all
qed

lemma reach_rd_reach: "reach qs ops w enabled intv E started ws0 p \<Longrightarrow> rd_reach E enabled (pg_rd p)"
proof (induction rule: reach.induct)
  case start
  show ?case by (simp add: prog_init_def rd_init)
next
  case (thread_step p q)
  then show ?case using pstep_rd_reach reach_flow by blast
qed simp

lemma finish_render_none: "finish_render qs acc [False, False] = None"
  by (simp add: finish_render_def empty_string_def render_copy_def render_to_dstring_def ds_empty_def)

lemma hstep_progress:
  assumes "sys_inv (sys p)" "hpc p \<notin> {HOff, HClosed}"
    "hpc p = HServe \<Longrightarrow> rpc (sys p) \<noteq> RIdle \<or> g_lock (sys p) = None"
  shows "\<exists>q. hstep qs p q"
proof (cases "hpc p")
  case HServe
  show ?thesis
  proof (cases "\<exists>acc. rpc (sys p) = RGot acc")
    case True
    then obtain acc where a: "rpc (sys p) = RGot acc" by blast
    obtain out where "send_metrics [] (finish_render qs acc [False, False]) = Some out"
      using send_metrics_defined [of None "[]"] by (auto simp: finish_render_none)
    from h_send [OF HServe a this] show ?thesis by blast
  next
    case False
    then show ?thesis using rstep_progress [OF assms(1) assms(3) [OF HServe]] h_copy [OF HServe] by blast
  qed
qed (use assms(2) in \<open>auto intro: h_run h_stop h_none\<close>)

lemma mstep_progress:
  assumes "pc_ok p" "flow_ok enabled E p" "kernel_ok E enabled" "rd_reach E enabled (pg_rd p)"
    "mpc p \<notin> range MExit" "mpc p = MJoin \<Longrightarrow> hpc p \<in> {HOff, HClosed}"
    "mpc p = MPublish \<Longrightarrow> cpc (sys p) \<noteq> CLock \<or> g_lock (sys p) = None"
  shows "\<exists>q. mstep ops w enabled intv E p q"
proof (cases "mpc p")
  case (MRead rs es)
  show ?thesis
  proof (cases es)
    case Nil
    show ?thesis
    proof (cases rs)
      case (Cons r rs')
      then have "r \<in> set enabled" using assms(2) MRead by (auto simp: flow_ok_def)
      moreover obtain env where env: "env \<in> E" using assms(3) by (auto simp: kernel_ok_def)
      ultimately have "reader_read r env ''/proc'' (pg_rd p) \<noteq> None"
        using assms(3,4) unfolding kernel_ok_def by blast
      then obtain rc es' rd where rd: "reader_read r env ''/proc'' (pg_rd p) = Some (rc, es', rd)"
        by (metis not_None_eq prod_cases3)
      have "mpc p = MRead (r # rs') []" using MRead Cons Nil by simp
      from m_read [OF this env rd] show ?thesis by blast
    qed (use m_done MRead Nil in blast)
  next
    case (Cons e es')
    show ?thesis
    proof (cases e)
      case (Emit m)
      obtain rc ws where "writer_write ops w (Some m) (pg_ws p) = Some (rc, ws)"
        using writer_write_defined [of ops w "Some m" "pg_ws p"] by auto
      with m_emit MRead Cons Emit show ?thesis by blast
    qed (use m_log MRead Cons in blast)
  qed
next
  case MPublish
  with assms(7) obtain s' where "cstep (sys p) s'" using cstep_progress by blast
  with MPublish m_publish m_unlock show ?thesis by blast
next
  case (MSleep n)
  then show ?thesis by (cases n; cases "g_running p") (auto dest: m_sleep m_wake)
next
  case MCheck
  then show ?thesis by (cases "g_running p") (auto dest: m_run m_stop)
next
  case MJoin
  with assms(6) m_join show ?thesis by fastforce
qed (use assms(5) in \<open>auto intro: m_begin m_shutdown\<close>)

lemma pstep_progress:
  assumes "pc_ok p" "flow_ok enabled E p" "kernel_ok E enabled" "rd_reach E enabled (pg_rd p)"
    "sys_inv (sys p)" "mpc p \<notin> range MExit"
  shows "\<exists>q. pstep qs ops w enabled intv E p q"
proof -
  let ?blocked = "mpc p = MPublish \<and> cpc (sys p) = CLock \<and> g_lock (sys p) \<noteq> None"
  have served: "hpc p = HServe \<Longrightarrow> rpc (sys p) \<noteq> RIdle \<or> g_lock (sys p) = None"
    if "\<not> in_collector (cpc (sys p))"
    using lock_holder [OF assms(5)] that by (cases "g_lock (sys p)") (auto simp: in_http_def)
  consider "?blocked" | "mpc p = MJoin" "hpc p \<notin> {HOff, HClosed}"
    | "\<not> ?blocked" "mpc p = MJoin \<Longrightarrow> hpc p \<in> {HOff, HClosed}" by blast
  then show ?thesis
  proof cases
    case 1
    then have nc: "\<not> in_collector (cpc (sys p))" by (simp add: in_collector_def)
    then have "in_http (rpc (sys p))" using lock_holder [OF assms(5)] 1 by blast
    then have "hpc p = HServe" using assms(1) by (auto simp: pc_ok_def in_http_def)
    with hstep_progress [OF assms(5)] served [OF nc] show ?thesis using http_thread by fastforce
  next
    case 2
    then have "\<not> in_collector (cpc (sys p))" using assms(1) by (simp add: pc_ok_def in_collector_def)
    with hstep_progress [OF assms(5) 2(2)] served show ?thesis using http_thread by blast
  next
    case 3
    then show ?thesis using mstep_progress [OF assms(1-4,6)] main_thread by blast
  qed
qed

lemma reach_progress:
  assumes "reach qs ops w enabled intv E started ws0 p" "kernel_ok E enabled" "mpc p \<noteq> MExit 0"
  shows "\<exists>q. pstep qs ops w enabled intv E p q"
proof -
  have "mpc p \<notin> range MExit" using reach_stop [OF assms(1)] assms(3) by (auto simp: stop_ok_def)
  then show ?thesis
    using pstep_progress [OF _ _ assms(2) reach_rd_reach [OF assms(1)] reach_sys_inv [OF assms(1)]]
      reach_threads [OF assms(1)] reach_flow [OF assms(1)] by blast
qed

lemma reach_steps:
  "(pstep qs ops w enabled intv E)\<^sup>*\<^sup>* p q \<Longrightarrow> reach qs ops w enabled intv E started ws0 p \<Longrightarrow>
     reach qs ops w enabled intv E started ws0 q"
  by (induction rule: rtranclp_induct) (auto intro: thread_step)

section \<open>Rendering\<close>

context family_sorter
begin

lemma finish_render_terminated: "finish_render qs acc h = Some (t, b) \<Longrightarrow> b"
  using render_copy_terminated [of acc h t b]
  by (auto simp: finish_render_def empty_string_def split: prod.splits if_splits)

lemma finish_render_ok: "mem_ok h \<Longrightarrow> acc \<noteq> [] \<Longrightarrow> finish_render qs acc h = Some (exposition acc (qs (entries acc)), True)"
  by (simp add: finish_render_def render_copy_ok)

end

text \<open>The copy under the lock and the rendering after it make up \<open>prom_render\<close>.\<close>

lemma prom_render_split:
  assumes "snap_inv s"
  shows "\<exists>acc h'. fst (prom_render qs s h) = finish_render qs acc h' \<and> (acc = [] \<or> acc = published s)"
proof (cases "g_published s")
  case None
  then have "fst (prom_render qs s h) = finish_render qs [] h" by (simp add: prom_render_def finish_render_def)
  then show ?thesis by blast
next
  case (Some p)
  note pb = published_buf [OF assms Some]
  obtain ok h' where a: "alloc h = (ok, h')" by force
  show ?thesis
  proof (cases "sb_count (buf s p) = 0 \<or> \<not> ok")
    case True
    then have "fst (prom_render qs s h) = finish_render qs [] h \<or> fst (prom_render qs s h) = finish_render qs [] h'"
      using Some a by (auto simp: prom_render_def finish_render_def Let_def)
    then show ?thesis by blast
  next
    case False
    then have "fst (prom_render qs s h) = finish_render qs (published s) h'"
      using Some a pb by (auto simp: prom_render_def finish_render_def Let_def)
    then show ?thesis by blast
  qed
qed

end
