(* ===== verification/Execution.thy ===== *)
theory Execution
  imports Program
begin

text \<open>
  \<open>Collect\<close> describes the loop as a function of a script of cycles, \<open>Program\<close> as steps of
  interleaved threads. This theory relates the two: what \<open>collect_run\<close> computes is reached by an
  execution of the step relation in which the HTTP thread is idle, with the same effects on the
  files, the readers and the store.
\<close>

section \<open>A cycle\<close>

lemma mpc_idem [simp]: "mpc p = x \<Longrightarrow> p\<lparr>mpc := x\<rparr> = p"
  by (cases p) simp

lemma run_events_steps:
  assumes "mpc p = MRead rs es" "cs_ws s = pg_ws p" "cs_snap s = snap (sys p)"
    "run_events ops w es s = Some s'"
  shows "(mstep ops w enabled intv E)\<^sup>*\<^sup>* p
     (p\<lparr>sys := (sys p)\<lparr>snap := cs_snap s', emitted_now := emitted_now (sys p) @ emitted es\<rparr>,
        pg_ws := cs_ws s', mpc := MRead rs [], trace := trace p @ es\<rparr>)"
  using assms
proof (induction es arbitrary: p s)
  case (Cons e es)
  show ?case
  proof (cases e)
    case (Emit m)
    obtain sn h where a: "prom_snapshot_add m (cs_snap s) (cs_mem s) = (sn, h)" by force
    obtain rc ws where e: "writer_write ops w (Some m) (cs_ws s) = Some (rc, ws)"
      "run_events ops w es (s\<lparr>cs_ws := ws, cs_snap := sn, cs_mem := h\<rparr>) = Some s'"
      using Cons.prems(4) Emit a by (auto simp: emit_cb_def bind_eq_Some_conv split: option.splits)
    let ?q = "p\<lparr>sys := sys_add m (cs_mem s) (sys p), pg_ws := ws, mpc := MRead rs es, trace := trace p @ [Emit m]\<rparr>"
    have "mstep ops w enabled intv E p ?q"
      using m_emit Cons.prems Emit e(1) by metis
    moreover have "(mstep ops w enabled intv E)\<^sup>*\<^sup>* ?q
       (p\<lparr>sys := (sys p)\<lparr>snap := cs_snap s', emitted_now := emitted_now (sys p) @ emitted (e # es)\<rparr>,
          pg_ws := cs_ws s', mpc := MRead rs [], trace := trace p @ e # es\<rparr>)"
      using Cons.IH [of ?q "s\<lparr>cs_ws := ws, cs_snap := sn, cs_mem := h\<rparr>"] e a Cons.prems(3) Emit
      by (simp add: sys_add_def)
    ultimately show ?thesis by (rule converse_rtranclp_into_rtranclp)
  next
    case (Log l)
    let ?q = "p\<lparr>pg_ws := log_line l (pg_ws p), mpc := MRead rs es, trace := trace p @ [Log l]\<rparr>"
    have "mstep ops w enabled intv E p ?q" using m_log Cons.prems(1) Log by metis
    moreover have "(mstep ops w enabled intv E)\<^sup>*\<^sup>* ?q
       (p\<lparr>sys := (sys p)\<lparr>snap := cs_snap s', emitted_now := emitted_now (sys p) @ emitted (e # es)\<rparr>,
          pg_ws := cs_ws s', mpc := MRead rs [], trace := trace p @ e # es\<rparr>)"
      using Cons.IH [of ?q "s\<lparr>cs_ws := log_line l (cs_ws s)\<rparr>"] Cons.prems Log by simp
    ultimately show ?thesis by (rule converse_rtranclp_into_rtranclp)
  qed
qed (auto simp: rtranclp.rtrancl_refl)

definition same_rest :: "'w prog \<Rightarrow> 'w prog \<Rightarrow> bool" where
  \<comment> \<open>what the main thread does not touch\<close>
  "same_rest p q \<longleftrightarrow> g_running q = g_running p \<and> hpc q = hpc p \<and> rpc (sys q) = rpc (sys p)
     \<and> g_lock (sys q) = g_lock (sys p)"

definition agrees :: "'w cstate \<Rightarrow> 'w prog \<Rightarrow> bool" where
  "agrees s p \<longleftrightarrow> cs_ws s = pg_ws p \<and> cs_rd s = pg_rd p \<and> cs_snap s = snap (sys p)"

lemma run_readers_steps:
  assumes "mpc p = MRead rs []" "agrees s p" "run_readers ops w env rs s = Some s'" "\<forall>r \<in> set rs. env r \<in> E"
  shows "\<exists>q. (mstep ops w enabled intv E)\<^sup>*\<^sup>* p q \<and> mpc q = MRead [] [] \<and> agrees s' q \<and> same_rest p q
     \<and> cpc (sys q) = cpc (sys p)"
  using assms
proof (induction rs arbitrary: p s)
  case Nil
  then show ?case by (auto simp: same_rest_def intro: rtranclp.rtrancl_refl)
next
  case (Cons r rs)
  obtain rc es rd s1 where r: "reader_read r (env r) ''/proc'' (pg_rd p) = Some (rc, es, rd)"
    "run_events ops w es (s\<lparr>cs_rd := rd\<rparr>) = Some s1" "run_readers ops w env rs s1 = Some s'"
    using Cons.prems(2,3) by (auto simp: agrees_def split: option.splits)
  let ?p1 = "p\<lparr>pg_rd := rd, mpc := MRead rs es, cur := cur p @ [(r, es)]\<rparr>"
  let ?p2 = "?p1\<lparr>sys := (sys p)\<lparr>snap := cs_snap s1, emitted_now := emitted_now (sys p) @ emitted es\<rparr>,
        pg_ws := cs_ws s1, mpc := MRead rs [], trace := trace p @ es\<rparr>"
  have "env r \<in> E" using Cons.prems(4) by simp
  from m_read [OF Cons.prems(1) this r(1)] have a: "mstep ops w enabled intv E p ?p1" .
  have b: "(mstep ops w enabled intv E)\<^sup>*\<^sup>* ?p1 ?p2"
    using run_events_steps [of ?p1 rs es "s\<lparr>cs_rd := rd\<rparr>" ops w s1] Cons.prems(2) r(2)
    by (simp add: agrees_def)
  have rd1: "cs_rd s1 = rd" using r(2) by (simp add: run_events_split split: option.splits prod.splits) fastforce
  have "agrees s1 ?p2" by (simp add: agrees_def rd1)
  from Cons.IH [OF _ this r(3)] Cons.prems(4) obtain q where
    q: "(mstep ops w enabled intv E)\<^sup>*\<^sup>* ?p2 q" "mpc q = MRead [] []" "agrees s' q" "same_rest ?p2 q"
      "cpc (sys q) = cpc (sys ?p2)" by auto
  have "(mstep ops w enabled intv E)\<^sup>*\<^sup>* p q" using a b q(1) by (meson converse_rtranclp_into_rtranclp rtranclp_trans)
  with q show ?case by (auto simp: same_rest_def)
qed

lemma collect_cycle_steps:
  assumes "mpc p = MBegin" "g_lock (sys p) = None" "agrees s p" "\<forall>r \<in> set enabled. env r \<in> E"
    "collect_cycle ops w enabled env s = Some s'"
  shows "\<exists>q. (mstep ops w enabled intv E)\<^sup>*\<^sup>* p q \<and> mpc q = MSleep intv \<and> agrees s' q \<and> same_rest p q"
proof -
  obtain sn h s1 where c: "prom_snapshot_begin (cs_snap s) (cs_mem s) = (sn, h)"
    "run_readers ops w env enabled (s\<lparr>cs_snap := sn, cs_mem := h\<rparr>) = Some s1"
    "s' = s1\<lparr>cs_snap := prom_snapshot_publish (cs_snap s1)\<rparr>"
    using assms(5) by (auto simp: collect_cycle_def split: prod.splits option.splits)
  let ?p1 = "p\<lparr>sys := sys_begin (cs_mem s) (sys p), mpc := MRead enabled [], cur := []\<rparr>"
  have a: "mstep ops w enabled intv E p ?p1" by (rule m_begin [OF assms(1)])
  have ag: "agrees (s\<lparr>cs_snap := sn, cs_mem := h\<rparr>) ?p1"
    using assms(3) c(1) by (simp add: agrees_def sys_begin_def)
  obtain q where q: "(mstep ops w enabled intv E)\<^sup>*\<^sup>* ?p1 q" "mpc q = MRead [] []" "agrees s1 q" "same_rest ?p1 q"
    "cpc (sys q) = CAdd"
    using run_readers_steps [OF _ ag c(2) assms(4)] by (auto simp: sys_begin_def)
  let ?q1 = "q\<lparr>sys := (sys q)\<lparr>cpc := CLock\<rparr>, mpc := MPublish\<rparr>"
  let ?q2 = "?q1\<lparr>sys := (sys ?q1)\<lparr>g_lock := Some Collector, cpc := CSwap\<rparr>\<rparr>"
  let ?q3 = "?q2\<lparr>sys := (sys ?q2)\<lparr>snap := prom_snapshot_publish (snap (sys ?q2)), cpc := CUnlock,
      log_cycles := log_cycles (sys ?q2) @ [(emitted_now (sys ?q2), staged (snap (sys ?q2)))]\<rparr>\<rparr>"
  let ?q4 = "?q3\<lparr>sys := (sys ?q3)\<lparr>g_lock := None, cpc := CBegin\<rparr>, mpc := MSleep intv, passes := passes ?q3 @ [cur ?q3]\<rparr>"
  have lk: "g_lock (sys q) = None" using q(4) assms(2) by (simp add: same_rest_def sys_begin_def)
  have "mstep ops w enabled intv E q ?q1" by (rule m_done [OF q(2)])
  moreover have "mstep ops w enabled intv E ?q1 ?q2" by (rule m_publish, simp, simp, rule c_lock) (simp_all add: lk)
  moreover have "mstep ops w enabled intv E ?q2 ?q3" by (rule m_publish, simp, simp, rule c_swap) simp
  moreover have "mstep ops w enabled intv E ?q3 ?q4" by (rule m_unlock, simp, simp, rule c_unlock) simp
  ultimately have "(mstep ops w enabled intv E)\<^sup>*\<^sup>* p ?q4"
    using a q(1) by (meson converse_rtranclp_into_rtranclp rtranclp.rtrancl_into_rtrancl)
  moreover have "agrees s' ?q4" using q(3) by (simp add: agrees_def c(3))
  moreover have "same_rest p ?q4" using q(4) assms(2) by (simp add: same_rest_def sys_begin_def)
  ultimately show ?thesis by (intro exI [of _ ?q4]) simp
qed

section \<open>The loop\<close>

fun script_ok :: "nat \<Rightarrow> cycle list \<Rightarrow> bool" where
  \<comment> \<open>only the last sleep is cut short: once cleared, \<open>g_running\<close> stays so\<close>
  "script_ok n (c # c' # cs) \<longleftrightarrow> sleep_loop n (cy_running c) = n \<and> script_ok n (c' # cs)"
| "script_ok n _ \<longleftrightarrow> True"

lemma sleep_steps:
  "mpc p = MSleep (k + n) \<Longrightarrow> g_running p \<Longrightarrow> (mstep ops w enabled intv E)\<^sup>*\<^sup>* p (p\<lparr>mpc := MSleep n\<rparr>)"
proof (induction k arbitrary: p)
  case (Suc k)
  have "mstep ops w enabled intv E p (p\<lparr>mpc := MSleep (k + n)\<rparr>)"
    using m_sleep Suc.prems by fastforce
  moreover have "(mstep ops w enabled intv E)\<^sup>*\<^sup>* (p\<lparr>mpc := MSleep (k + n)\<rparr>) (p\<lparr>mpc := MSleep n\<rparr>)"
    using Suc.IH [of "p\<lparr>mpc := MSleep (k + n)\<rparr>"] Suc.prems by simp
  ultimately show ?case by (rule converse_rtranclp_into_rtranclp)
qed (auto simp: rtranclp.rtrancl_refl)

lemma reach_msteps:
  "(mstep ops w enabled intv E)\<^sup>*\<^sup>* p q \<Longrightarrow> reach qs ops w enabled intv E started ws0 p \<Longrightarrow>
     reach qs ops w enabled intv E started ws0 q"
  by (induction rule: rtranclp_induct) (auto intro: thread_step main_thread)

lemma deliver_SIGTERM: "deliver SIGTERM run = Some False"
  by (simp add: deliver_def dispositions_def on_signal_def)

lemma collect_loop_steps:
  assumes "reach qs ops w enabled intv E started ws0 p" "mpc p = MCheck" "g_running p" "g_lock (sys p) = None"
    "agrees s p" "collect_loop ops w enabled (int intv) cycles s = Some (naps, s')" "script_ok intv cycles"
    "\<forall>c \<in> set cycles. \<forall>r \<in> set enabled. cy_env c r \<in> E"
  shows "\<exists>q. reach qs ops w enabled intv E started ws0 q \<and> mpc q = MShutdown \<and> \<not> g_running q \<and> hpc q = hpc p \<and> agrees s' q"
  using assms
proof (induction cycles arbitrary: p s naps)
  case Nil
  let ?q = "p\<lparr>g_running := False\<rparr>"
  have "reach qs ops w enabled intv E started ws0 ?q"
    by (rule signal_step [OF Nil.prems(1), of SIGTERM]) (simp add: deliver_SIGTERM)
  then have "reach qs ops w enabled intv E started ws0 (?q\<lparr>mpc := MShutdown\<rparr>)"
    using Nil.prems(2) by (intro thread_step [OF _ main_thread [OF m_stop]]) simp_all
  with Nil.prems(5,6) show ?case by (intro exI [of _ "?q\<lparr>mpc := MShutdown\<rparr>"]) (simp add: agrees_def)
next
  case (Cons c cs)
  obtain s1 naps1 where c: "collect_cycle ops w enabled (cy_env c) s = Some s1"
    "collect_loop ops w enabled (int intv) cs s1 = Some (naps1, s')"
    using Cons.prems(6) by (auto split: option.splits)
  let ?p1 = "p\<lparr>mpc := MBegin\<rparr>"
  have p1: "reach qs ops w enabled intv E started ws0 ?p1"
    using thread_step [OF Cons.prems(1) main_thread [OF m_run [OF Cons.prems(2,3)]]] .
  have ag: "agrees s ?p1" using Cons.prems(5) by (simp add: agrees_def)
  have env: "\<forall>r \<in> set enabled. cy_env c r \<in> E" using Cons.prems(8) by simp
  obtain q where q: "(mstep ops w enabled intv E)\<^sup>*\<^sup>* ?p1 q" "mpc q = MSleep intv" "agrees s1 q" "same_rest ?p1 q"
    using collect_cycle_steps [OF _ _ ag env c(1)] Cons.prems(4) by auto
  define n where "n = sleep_loop intv (cy_running c)"
  have n: "n \<le> intv" by (simp add: n_def sleep_loop_le)
  let ?q1 = "q\<lparr>mpc := MSleep (intv - n)\<rparr>"
  have "mpc q = MSleep (n + (intv - n))" "g_running q" using q(2,4) n Cons.prems(3) by (simp_all add: same_rest_def)
  then have q1: "reach qs ops w enabled intv E started ws0 ?q1"
    using reach_msteps [OF sleep_steps reach_msteps [OF q(1) p1]] by blast
  show ?case
  proof (cases "n = intv")
    case True
    let ?q2 = "?q1\<lparr>mpc := MCheck\<rparr>"
    have q2: "reach qs ops w enabled intv E started ws0 ?q2"
      using True by (intro thread_step [OF q1 main_thread [OF m_wake [of _ 0]]]) simp_all
    have "script_ok intv cs" using Cons.prems(7) by (cases cs) simp_all
    then have "\<exists>q. reach qs ops w enabled intv E started ws0 q \<and> mpc q = MShutdown \<and> \<not> g_running q \<and> hpc q = hpc ?q2 \<and> agrees s' q"
      using Cons.IH [OF q2 _ _ _ _ c(2)] q(3,4) Cons.prems(3,4,8) by (simp add: same_rest_def agrees_def)
    with q(4) show ?thesis by (simp add: same_rest_def)
  next
    case False
    then have cs: "cs = []" using Cons.prems(7) n_def by (cases cs) simp_all
    let ?q2 = "?q1\<lparr>g_running := False\<rparr>"
    have "reach qs ops w enabled intv E started ws0 ?q2"
      by (rule signal_step [OF q1, of SIGTERM]) (simp add: deliver_SIGTERM)
    then have "reach qs ops w enabled intv E started ws0 (?q2\<lparr>mpc := MCheck\<rparr>)"
      by (rule thread_step [OF _ main_thread [OF m_wake]]) simp_all
    then have "reach qs ops w enabled intv E started ws0 (?q2\<lparr>mpc := MCheck\<rparr>\<lparr>mpc := MShutdown\<rparr>)"
      by (rule thread_step [OF _ main_thread [OF m_stop]]) simp_all
    moreover have "s1 = s'" using c(2) cs by simp
    ultimately show ?thesis
      using q(3,4) by (intro exI [of _ "?q2\<lparr>mpc := MCheck\<rparr>\<lparr>mpc := MShutdown\<rparr>"]) (simp add: agrees_def same_rest_def)
  qed
qed

lemma shutdown_steps:
  assumes "reach qs ops w enabled intv E started ws0 q" "mpc q = MShutdown" "\<not> g_running q" "hpc q \<in> {HOff, HCheck}"
  shows "\<exists>q'. reach qs ops w enabled intv E started ws0 q' \<and> mpc q' = MExit 0
     \<and> pg_ws q' = log_line ''svgd-collect: shutting down'' (writer_shutdown ops w (pg_ws q))"
proof -
  let ?a = "q\<lparr>pg_ws := writer_shutdown ops w (pg_ws q), mpc := MJoin\<rparr>"
  have a: "reach qs ops w enabled intv E started ws0 ?a"
    by (rule thread_step [OF assms(1) main_thread [OF m_shutdown [OF assms(2)]]])
  let ?b = "if hpc q = HOff then ?a else ?a\<lparr>hpc := HClosed\<rparr>"
  have b: "reach qs ops w enabled intv E started ws0 ?b"
    using a thread_step [OF a http_thread [OF h_stop]] assms(3,4) by auto
  have "reach qs ops w enabled intv E started ws0
      (?b\<lparr>pg_ws := log_line ''svgd-collect: shutting down'' (pg_ws ?b), mpc := MExit 0\<rparr>)"
    using assms(4) by (intro thread_step [OF b main_thread [OF m_join]]) auto
  then show ?thesis by (intro exI) (auto intro!: conjI)
qed

lemma emitted_logs: "emitted (map (\<lambda>x. Log (f x)) xs) = []"
  by (induction xs) simp_all

lemma cfg_enabled_emits: "emitted (snd (cfg_enabled cfg)) = []"
  by (simp add: cfg_enabled_def collect_build_enabled_def build_loop_log emitted_logs)

lemma collect_run_steps:
  assumes "collect_run ops cfg cycles s = Some (naps, s')" "cs_rd s = rstate_init" "cs_snap s = snap_init"
    "0 \<le> interval cfg" "script_ok (nat (interval cfg)) cycles"
    "\<forall>c \<in> set cycles. \<forall>r \<in> set (fst (cfg_enabled cfg)). cy_env c r \<in> E"
    "write_events ops (cfg_writer cfg) (snd (cfg_enabled cfg)) (cs_ws s) = Some ws0"
  shows "\<exists>q. reach qs ops (cfg_writer cfg) (fst (cfg_enabled cfg)) (nat (interval cfg)) E started ws0 q
     \<and> mpc q = MExit 0 \<and> pg_ws q = log_line ''svgd-collect: shutting down'' (cs_ws s')"
proof -
  let ?w = "cfg_writer cfg" and ?en = "fst (cfg_enabled cfg)" and ?n = "nat (interval cfg)"
  have em: "emitted (snd (cfg_enabled cfg)) = []" by (simp add: cfg_enabled_emits)
  obtain s1 s2 where r: "run_events ops ?w (snd (cfg_enabled cfg)) s = Some s1"
    "collect_loop ops ?w ?en (interval cfg) cycles s1 = Some (naps, s2)"
    "s' = s2\<lparr>cs_ws := writer_shutdown ops ?w (cs_ws s2)\<rparr>"
    using assms(1) by (auto simp: collect_run_def Let_def split: prod.splits option.splits)
  have s1: "s1 = s\<lparr>cs_ws := ws0\<rparr>"
    using r(1) assms(7) em by (auto simp: run_events_split)
  let ?p = "prog_init started ws0"
  have "agrees s1 ?p" using assms(2,3) s1 by (simp add: agrees_def prog_init_def sys_init_def)
  moreover have "reach qs ops ?w ?en ?n E started ws0 ?p" by (rule start)
  ultimately obtain q where q: "reach qs ops ?w ?en ?n E started ws0 q" "mpc q = MShutdown" "\<not> g_running q"
    "hpc q = hpc ?p" "agrees s2 q"
    using collect_loop_steps [of qs ops ?w ?en ?n E started ws0 ?p s1 cycles naps s2] r(2) assms(4,5,6)
    by (auto simp: prog_init_def sys_init_def)
  have "hpc q \<in> {HOff, HCheck}" using q(4) by (simp add: prog_init_def)
  from shutdown_steps [OF q(1,2,3) this] q(5) r(3) show ?thesis by (auto simp: agrees_def)
qed

end
