(* ===== verification/ScanText.thy ===== *)
theory ScanText
  imports CLib
begin

text \<open>
  How the scanning functions of \<open>CLib\<close> read text that was printed: lines, fields padded with
  blanks, decimal integers and decimal fractions. The files of \<^verbatim>\<open>/proc\<close> are such text.
\<close>

section \<open>Lines\<close>

definition line_ok :: "nat \<Rightarrow> string \<Rightarrow> bool" where
  \<comment> \<open>a line that fits, with its newline, a buffer of \<open>n\<close> bytes\<close>
  "line_ok n l \<longleftrightarrow> NL \<notin> set l \<and> NUL \<notin> set l \<and> length l + 2 \<le> n"

definition unlines :: "string list \<Rightarrow> string" where
  "unlines ls = concat (map (\<lambda>l. l @ [NL]) ls)"

lemma fgets_split_line:
  assumes "NL \<notin> set l" "length l < k"
  shows "fgets_split k (l @ NL # rest) = (l @ [NL], rest)"
proof -
  have "takeWhile (\<lambda>c. c \<noteq> NL) (l @ NL # rest) = l"
    using assms(1) by (subst takeWhile_append2) auto
  then show ?thesis using assms(2) by (simp add: fgets_split_def)
qed

lemma fgets_lines_unlines: "list_all (line_ok n) ls \<Longrightarrow> fgets_lines n (unlines ls) = map (\<lambda>l. l @ [NL]) ls"
proof (induction ls)
  case Nil
  show ?case by (simp add: unlines_def fgets_lines.simps)
next
  case (Cons l ls)
  then have l: "NL \<notin> set l" "NUL \<notin> set l" "length l + 2 \<le> n" by (simp_all add: line_ok_def)
  have u: "unlines (l # ls) = l @ NL # unlines ls" by (simp add: unlines_def)
  have "fgets_split (n - 1) (l @ NL # unlines ls) = (l @ [NL], unlines ls)"
    using l by (intro fgets_split_line) simp_all
  moreover have "cstr (l @ [NL]) = l @ [NL]" using l(2) by (intro cstr_id) simp
  ultimately show ?case
    using Cons l(3) by (subst fgets_lines.simps) (simp add: u)
qed

lemma fgets_lines_first:
  assumes "line_ok n l"
  shows "fgets_lines n (l @ NL # rest) = (l @ [NL]) # fgets_lines n rest"
proof -
  have "fgets_split (n - 1) (l @ NL # rest) = (l @ [NL], rest)" "cstr (l @ [NL]) = l @ [NL]"
    using assms by (auto intro: fgets_split_line cstr_id simp: line_ok_def)
  then show ?thesis using assms by (subst fgets_lines.simps) (simp add: line_ok_def)
qed

lemma fold_lines:
  assumes "list_all ok rows" "\<And>r. ok r \<Longrightarrow> line_ok n (text_of r)" "\<And>r x. ok r \<Longrightarrow> f (text_of r @ [NL]) x = g r x"
  shows "fold f (fgets_lines n (unlines (map text_of rows))) x = fold g rows x"
proof -
  have "list_all (line_ok n) (map text_of rows)" using assms(1,2) by (auto simp: list_all_iff)
  from fgets_lines_unlines [OF this]
  have "fgets_lines n (unlines (map text_of rows)) = map (\<lambda>r. text_of r @ [NL]) rows" by simp
  moreover have "fold f (map (\<lambda>r. text_of r @ [NL]) rows) x = fold g rows x"
    using assms(1,3) by (induction rows arbitrary: x) simp_all
  ultimately show ?thesis by simp
qed

lemma concat_lines:
  assumes "list_all ok rows" "\<And>r. ok r \<Longrightarrow> line_ok n (text_of r)" "\<And>r. ok r \<Longrightarrow> f (text_of r @ [NL]) = g r"
  shows "concat (map f (fgets_lines n (unlines (map text_of rows)))) = concat (map g rows)"
proof -
  have "list_all (line_ok n) (map text_of rows)" using assms(1,2) by (auto simp: list_all_iff)
  from fgets_lines_unlines [OF this]
  have "map f (fgets_lines n (unlines (map text_of rows))) = map (\<lambda>r. f (text_of r @ [NL])) rows" by simp
  also have "\<dots> = map g rows" using assms(1,3) by (auto simp: list_all_iff)
  finally show ?thesis by simp
qed

section \<open>Blanks and tokens\<close>

abbreviation SP :: char where
  "SP \<equiv> CHR 0x20"

lemma isspace_SP [simp]: "isspace SP" "isspace NL" "\<not> isdigit SP" "\<not> isdigit NL"
  by (simp_all add: isspace_def isdigit_def)

lemma isdigit_not_space: "isdigit c \<Longrightarrow> \<not> isspace c"
  by (auto simp: isdigit_def isspace_def)

definition is_token :: "string \<Rightarrow> bool" where
  "is_token w \<longleftrightarrow> w \<noteq> [] \<and> list_all (\<lambda>c. \<not> isspace c \<and> c \<noteq> NUL) w"

lemma skip_blanks: "t \<noteq> [] \<Longrightarrow> \<not> isspace (hd t) \<Longrightarrow> dropWhile isspace (replicate k SP @ t) = t"
  by (subst dropWhile_append2) (auto simp: dropWhile_eq_self_iff)

lemma token_take:
  assumes "is_token w" "rest = [] \<or> isspace (hd rest)"
  shows "takeWhile (\<lambda>c. \<not> isspace c) (w @ rest) = w" "dropWhile (\<lambda>c. \<not> isspace c) (w @ rest) = rest"
  using assms by (cases rest; auto simp: is_token_def list_all_iff takeWhile_append2 dropWhile_append2)+

lemma token_hd: "is_token w \<Longrightarrow> w @ rest \<noteq> [] \<and> \<not> isspace (hd (w @ rest))"
  by (cases w) (auto simp: is_token_def)

text \<open>A directive that skips blanks itself does not see those before its text.\<close>

lemma scan_tok_blanks:
  assumes "t \<noteq> []" "\<not> isspace (hd t)"
  shows "scan_tok p f (replicate k SP @ t) = (case p t of None \<Rightarrow> NoMatch | Some (v, r) \<Rightarrow> Match (f v) r)"
  using assms by (simp add: scan_tok_def skip_blanks)

lemma scan_Str:
  assumes "is_token w" "length w \<le> n" "rest = [] \<or> isspace (hd rest)"
  shows "scan1 (Str n) (replicate k SP @ w @ rest) = Match (Some (SStr w)) rest"
  using token_take [OF assms(1,3)] token_hd [OF assms(1), of rest] assms(2)
  by (simp add: scan_tok_blanks word_tok_max_def Let_def)

lemma scan_Str_max:
  assumes "is_token w" "0 < n" "rest = [] \<or> isspace (hd rest)"
  shows "scan1 (Str n) (replicate k SP @ w @ rest) = Match (Some (SStr (take n w))) (drop n w @ rest)"
proof -
  have "drop (length (take n w)) (w @ rest) = drop n w @ rest" by (simp add: min_def)
  then show ?thesis
    using token_take [OF assms(1,3)] token_hd [OF assms(1), of rest]
    by (simp add: scan_tok_blanks word_tok_max_def Let_def del: length_take)
qed

lemma scan_SkipStr:
  assumes "is_token w" "rest = [] \<or> isspace (hd rest)"
  shows "scan1 SkipStr (replicate k SP @ w @ rest) = Match None rest"
  using token_take [OF assms(1,2)] token_hd [OF assms(1), of rest]
  by (simp add: scan_tok_blanks word_tok_def)

section \<open>Integers\<close>

definition ends_number :: "string \<Rightarrow> bool" where
  "ends_number rest \<longleftrightarrow> rest = [] \<or> \<not> isdigit (hd rest)"

lemma digits_take:
  assumes "ends_number rest"
  shows "takeWhile isdigit (show_nat n @ rest) = show_nat n" "dropWhile isdigit (show_nat n @ rest) = rest"
  using assms show_nat_isdigit
  by (cases rest; auto simp: ends_number_def takeWhile_append2 dropWhile_append2)+

lemma hd_show_nat: "isdigit (hd (show_nat n @ rest))"
  using show_nat_isdigit [of "hd (show_nat n)" n] by (simp add: hd_append)

lemma scan_sign_digit: "s \<noteq> [] \<Longrightarrow> isdigit (hd s) \<Longrightarrow> scan_sign s = (False, s)"
  by (cases s) (auto simp: scan_sign_def isdigit_def)

lemma strtol_show:
  assumes "ends_number rest" "int n \<le> LONG_MAX"
  shows "strtol (show_nat n @ rest) = Some (int n, rest)"
proof -
  have "in_long (int n)" using assms(2) by (simp add: in_long_def LONG_MIN_def)
  then show ?thesis
    using scan_sign_digit [OF _ hd_show_nat, of n rest] digits_take [OF assms(1)]
    by (simp add: strtol_def signed_def clamp_long_id)
qed

lemma scan_Long:
  assumes "ends_number rest" "int n \<le> LONG_MAX"
  shows "scan1 Long (replicate k SP @ show_nat n @ rest) = Match (Some (SLong (int n))) rest"
    "scan1 SkipInt (replicate k SP @ show_nat n @ rest) = Match None rest"
  using strtol_show [OF assms] isdigit_not_space [OF hd_show_nat, of n rest]
  by (simp_all add: scan_tok_blanks)

lemma scan_Ws: "t \<noteq> [] \<Longrightarrow> \<not> isspace (hd t) \<Longrightarrow> scan1 Ws (replicate k SP @ t) = Match None t"
  by (simp add: skip_blanks)

lemma strtol_show_int:
  assumes "ends_number rest" "\<bar>i\<bar> \<le> LONG_MAX"
  shows "strtol (show_int i @ rest) = Some (i, rest)"
proof (cases "i < 0")
  case True
  have "in_long i" using assms(2) by (auto simp: in_long_def LONG_MIN_def LONG_MAX_def)
  then show ?thesis
    using True digits_take [OF assms(1)]
    by (simp add: show_int_def strtol_def scan_sign_def signed_def clamp_long_id)
next
  case False
  then show ?thesis using strtol_show [OF assms(1), of "nat i"] assms(2) by (simp add: show_int_def)
qed

lemma scan_Long_int:
  assumes "ends_number rest" "\<bar>i\<bar> \<le> LONG_MAX"
  shows "scan1 Long (show_int i @ rest) = Match (Some (SLong i)) rest"
proof -
  have "show_int i @ rest \<noteq> []" "\<not> isspace (hd (show_int i @ rest))"
    using isdigit_not_space [OF hd_show_nat] by (auto simp: show_int_def isspace_def)
  from scan_tok_blanks [OF this, of strtol "\<lambda>v. Some (SLong v)" 0] strtol_show_int [OF assms] show ?thesis by simp
qed

section \<open>Columns\<close>

text \<open>A column is a number with the blanks before it, one more than the given count.\<close>

type_synonym column = "nat \<times> nat"

definition columns :: "column list \<Rightarrow> string" where
  "columns cs = concat (map (\<lambda>(k, v). replicate (Suc k) SP @ show_nat v) cs)"

definition columns_ok :: "column list \<Rightarrow> bool" where
  "columns_ok = list_all (\<lambda>(k, v). int v \<le> LONG_MAX)"

lemma columns_Cons: "columns ((k, v) # cs) = replicate (Suc k) SP @ show_nat v @ columns cs"
  by (simp add: columns_def)

lemma columns_chars: "c \<in> set (columns cs) \<Longrightarrow> c = SP \<or> isdigit c"
  by (auto simp: columns_def dest: show_nat_isdigit split: if_splits)

lemma columns_plain: "NUL \<notin> set (columns cs)" "NL \<notin> set (columns cs)"
  using columns_chars [of NUL cs] columns_chars [of NL cs] by (auto simp: isdigit_def)

lemma ends_number_columns: "ends_number rest \<Longrightarrow> ends_number (columns cs @ rest)"
  by (cases cs) (auto simp: ends_number_def columns_def)

lemma scan_Ws_Long:
  assumes "ends_number rest" "int v \<le> LONG_MAX"
  shows "scan_dirs (Ws # Long # ds) (replicate k SP @ show_nat v @ rest) =
     (case scan_dirs ds rest of (vs, eof) \<Rightarrow> (SLong (int v) # vs, eof))"
proof -
  have nsp: "show_nat v @ rest \<noteq> []" "\<not> isspace (hd (show_nat v @ rest))"
    using isdigit_not_space [OF hd_show_nat] by simp_all
  have "scan1 Long (show_nat v @ rest) = Match (Some (SLong (int v))) rest"
    using scan_Long(1) [OF assms, of 0] by simp
  then show ?thesis using scan_Ws [OF nsp] by (simp split: prod.splits)
qed

lemma scan_columns:
  assumes "columns_ok cs" "ends_number rest"
  shows "scan_dirs (concat (replicate (length cs) [Ws, Long]) @ ds) (columns cs @ rest) =
     (case scan_dirs ds rest of (vs, eof) \<Rightarrow> (map (\<lambda>(k, v). SLong (int v)) cs @ vs, eof))"
  using assms(1)
proof (induction cs)
  case Nil
  show ?case by (simp add: columns_def split: prod.splits)
next
  case (Cons c cs)
  obtain k v where c: "c = (k, v)" by force
  have v: "int v \<le> LONG_MAX" "columns_ok cs" using Cons.prems by (simp_all add: columns_ok_def c)
  have "scan_dirs (concat (replicate (length (c # cs)) [Ws, Long]) @ ds) (columns (c # cs) @ rest)
      = scan_dirs (Ws # Long # (concat (replicate (length cs) [Ws, Long]) @ ds))
          (replicate (Suc k) SP @ show_nat v @ (columns cs @ rest))"
    by (simp only: c columns_Cons append_assoc length_Cons replicate_Suc concat.simps append_Cons append_Nil)
  then show ?case
    using scan_Ws_Long [OF ends_number_columns [OF assms(2)] v(1)] Cons.IH [OF v(2)]
    by (simp add: c split: prod.splits)
qed

section \<open>Decimal fractions\<close>

definition show_hundredths :: "nat \<Rightarrow> string" where
  \<comment> \<open>\<open>%lu.%02lu\<close>\<close>
  "show_hundredths a = show_nat (a div 100) @ [CHR ''.'', digit_char (a div 10), digit_char a]"

lemma digits_val_snoc2:
  "digits_val 10 (show_nat n @ [digit_char i, digit_char j]) = 100 * n + 10 * (i mod 10) + j mod 10"
proof -
  have "digits_val 10 ((show_nat n @ [digit_char i]) @ [digit_char j]) = 100 * n + 10 * (i mod 10) + j mod 10"
    unfolding digits_val_append1 by simp
  then show ?thesis by simp
qed

lemma hundredths_val: "digits_val 10 (show_nat (a div 100) @ [digit_char (a div 10), digit_char a]) = a"
proof -
  have "a div 100 = a div 10 div 10" by (simp flip: div_mult2_eq)
  then show ?thesis
    using mult_div_mod_eq [of 10 "a div 10"] mult_div_mod_eq [of 10 a] unfolding digits_val_snoc2 by linarith
qed

definition ends_fraction :: "string \<Rightarrow> bool" where
  "ends_fraction rest \<longleftrightarrow> rest = [] \<or> hd rest \<in> {SP, NL}"

lemma digit_lower: "isdigit c \<Longrightarrow> lower c = c" "isdigit c \<Longrightarrow> c \<noteq> CHR ''i'' \<and> c \<noteq> CHR ''n'' \<and> c \<noteq> CHR ''x''"
  by (auto simp: lower_def isdigit_def)

lemma show_nat_second:
  "\<exists>c d u. show_nat n @ CHR ''.'' # t = c # d # u \<and> isdigit c \<and> (isdigit d \<or> d = CHR ''.'')"
proof (cases "show_nat n")
  case (Cons c cs)
  then show ?thesis using show_nat_isdigit [of _ n] by (cases cs) auto
qed simp

lemma strtod_hundredths:
  assumes "ends_fraction rest"
  shows "strtod (show_hundredths a @ rest) = Some (round_ratio False a 100, rest)"
proof -
  let ?t = "show_hundredths a @ rest"
  have t: "?t = show_nat (a div 100) @ CHR ''.'' # digit_char (a div 10) # digit_char a # rest"
    by (simp add: show_hundredths_def)
  obtain c d u where cd: "?t = c # d # u" "isdigit c" "isdigit d \<or> d = CHR ''.''"
    unfolding t using show_nat_second by blast
  have sgn: "scan_sign ?t = (False, ?t)" by (rule scan_sign_digit) (simp_all add: cd)
  have low: "lower c = c" "c \<noteq> CHR ''i''" "c \<noteq> CHR ''n''" "lower d \<noteq> CHR ''x''"
    using cd(2,3) digit_lower [of c] digit_lower [of d] by (auto, simp add: lower_def)
  have no: "\<not> istarts_with ?t ''infinity''" "\<not> istarts_with ?t ''inf''" "\<not> istarts_with ?t ''nan''"
    "\<not> istarts_with ?t ''0x''"
    using low by (simp_all add: cd(1) istarts_with_def)
  have e: "ends_number (CHR ''.'' # digit_char (a div 10) # digit_char a # rest)"
    by (simp add: ends_number_def isdigit_def)
  have r: "takeWhile isdigit rest = []" "dropWhile isdigit rest = rest"
    using assms by (cases rest; auto simp: ends_fraction_def)+
  have man: "scan_mantissa isdigit ?t = (show_nat (a div 100), [digit_char (a div 10), digit_char a], rest)"
    by (simp add: t scan_mantissa_def digits_take [OF e] starts_with_def r)
  have "\<not> istarts_with rest ''e''"
    using assms by (cases rest) (auto simp: ends_fraction_def istarts_with_def lower_def)
  then have ex: "scan_exponent (CHR ''e'') rest = Some (0, rest)" by (simp add: scan_exponent_def)
  show ?thesis
    unfolding strtod_def sgn using no man ex hundredths_val [of a]
    by (simp add: scale_def)
qed

lemma scan_Dbl:
  assumes "ends_fraction rest"
  shows "scan1 Dbl (replicate k SP @ show_hundredths a @ rest) = Match (Some (SDbl (round_ratio False a 100))) rest"
proof -
  have "\<not> isspace (hd (show_hundredths a @ rest))"
    unfolding show_hundredths_def append_assoc by (rule isdigit_not_space [OF hd_show_nat])
  then show ?thesis
    using strtod_hundredths [OF assms, of a] by (simp add: scan_tok_blanks show_hundredths_def)
qed

end
