(* ===== verification/ProcFiles.thy ===== *)
theory ProcFiles
  imports ScanText ReaderSys ReaderNet ReaderDisk ReaderProc
begin

text \<open>
  The files of \<^verbatim>\<open>/proc\<close> and \<^verbatim>\<open>/sys\<close> as the kernel prints them, from the numbers they show, and what the
  readers make of them: each reader recovers exactly the numbers that were printed.
\<close>

section \<open>Network interfaces\<close>

record iface_row =
  if_pad :: nat
  if_name :: string
  if_cols :: "column list"

definition iface_text :: "iface_row \<Rightarrow> string" where
  "iface_text r = replicate (if_pad r) SP @ if_name r @ '':'' @ columns (if_cols r)"

definition iface_ok :: "iface_row \<Rightarrow> bool" where
  "iface_ok r \<longleftrightarrow> is_token (if_name r) \<and> CHR '':'' \<notin> set (if_name r) \<and> length (if_name r) < 64
     \<and> length (if_cols r) = 16 \<and> columns_ok (if_cols r) \<and> line_ok 512 (iface_text r)"

definition iface_metrics :: "iface_row \<Rightarrow> metric list" where
  \<comment> \<open>received and sent bytes, packets and errors; the loopback is left out\<close>
  "iface_metrics r =
     (let v = (\<lambda>i. int (snd (if_cols r ! i)))
      in if if_name r = ''lo'' then []
         else [interface_metric (if_name r) ''if_octets'' (v 0) (v 8),
               interface_metric (if_name r) ''if_packets'' (v 1) (v 9),
               interface_metric (if_name r) ''if_errors'' (v 2) (v 10)])"

definition netdev_text :: "string \<Rightarrow> string \<Rightarrow> iface_row list \<Rightarrow> string" where
  "netdev_text h1 h2 rows = unlines (h1 # h2 # map iface_text rows)"

lemma sscanf_plain: "NUL \<notin> set s \<Longrightarrow> sscanf ds s = fscanf ds s"
  by (simp add: sscanf_def cstr_id)

lemma scan_interface:
  assumes "columns_ok cs" "length cs = 16"
  shows "sscanf interface_format (columns cs @ [NL]) = (16, map (\<lambda>(k, v). SLong (int v)) cs)"
proof -
  obtain k v cs' where c: "cs = (k, v) # cs'" using assms(2) by (cases cs) auto
  have ok: "int v \<le> LONG_MAX" "columns_ok cs'" and len: "length cs' = 15"
    using assms c by (simp_all add: columns_ok_def)
  have e: "ends_number (columns cs' @ [NL])" by (rule ends_number_columns) (simp add: ends_number_def)
  have "NUL \<notin> set (columns cs @ [NL])" using columns_plain by simp
  moreover have "scan_dirs (concat (replicate 15 [Ws, Long])) (columns cs' @ [NL]) = (map (\<lambda>(k, v). SLong (int v)) cs', False)"
    using scan_columns [OF ok(2), of "[NL]" "[]"] len by (simp add: ends_number_def)
  moreover have "scan1 Long (columns cs @ [NL]) = Match (Some (SLong (int v))) (columns cs' @ [NL])"
    using scan_Long(1) [OF e ok(1), of "Suc k"] by (simp add: c columns_Cons)
  ultimately show ?thesis
    using assms(2) by (simp add: sscanf_plain fscanf_def interface_format_def c)
qed

lemma interface_line_text:
  assumes "iface_ok r"
  shows "interface_line (iface_text r @ [NL]) = iface_metrics r"
proof -
  let ?n = "if_name r" and ?c = "columns (if_cols r) @ [NL]"
  have ok: "is_token ?n" "CHR '':'' \<notin> set ?n" "length ?n < 64" "columns_ok (if_cols r)" "length (if_cols r) = 16"
    using assms by (simp_all add: iface_ok_def)
  obtain c cs where n: "?n = c # cs" "\<not> isspace c" using ok(1) by (cases ?n) (auto simp: is_token_def)
  then have "dropWhile (\<lambda>c. c = SP \<or> c = TAB) (?n @ '':'' @ ?c) = ?n @ '':'' @ ?c" by (auto simp: isspace_def)
  then have p: "dropWhile (\<lambda>c. c = SP \<or> c = TAB) (iface_text r @ [NL]) = ?n @ '':'' @ ?c"
    unfolding iface_text_def append_assoc by (subst dropWhile_append2) auto
  have s: "strchr (?n @ '':'' @ ?c) (CHR '':'') = Some ('':'' @ ?c)"
    using strchr_append [OF ok(2), of ?c] by simp
  have "map long_of (map (\<lambda>(k, v). SLong (int v)) (if_cols r)) ! i = int (snd (if_cols r ! i))" if "i < 16" for i
    using that ok(5) by (simp add: case_prod_beta)
  then show ?thesis
    using n(1) ok(3) scan_interface [OF ok(4,5)]
    unfolding interface_line_def p Let_def s iface_metrics_def by simp
qed

lemma interface_read_text:
  assumes "os_fopen env (snprintf_buf 1024 (base @ ''/net/dev'')) = Inr (netdev_text h1 h2 rows)"
    "line_ok 512 h1" "line_ok 512 h2" "list_all iface_ok rows"
  shows "interface_read env base s = Some (0, map Emit (concat (map iface_metrics rows)), s)"
proof -
  have "fgets_lines 512 (netdev_text h1 h2 rows) = (h1 @ [NL]) # (h2 @ [NL]) # fgets_lines 512 (unlines (map iface_text rows))"
    unfolding netdev_text_def unlines_def using assms(2,3) by (simp add: fgets_lines_first)
  moreover have "concat (map interface_line (fgets_lines 512 (unlines (map iface_text rows)))) = concat (map iface_metrics rows)"
    by (rule concat_lines [OF assms(4)]) (simp_all add: interface_line_text, simp add: iface_ok_def)
  ultimately show ?thesis using assms(1) by (simp add: interface_read_def)
qed

section \<open>Disks\<close>

record disk_row =
  dk_major :: column
  dk_minor :: column
  dk_name :: string
  dk_cols :: "column list"

definition disk_text :: "disk_row \<Rightarrow> string" where
  "disk_text r = columns [dk_major r, dk_minor r] @ [SP] @ dk_name r @ columns (dk_cols r)"

definition disk_ok :: "disk_row \<Rightarrow> bool" where
  "disk_ok r \<longleftrightarrow> is_token (dk_name r) \<and> length (dk_name r) < 64 \<and> 8 \<le> length (dk_cols r)
     \<and> columns_ok (dk_major r # dk_minor r # dk_cols r) \<and> line_ok 512 (disk_text r)"

definition disk_metrics :: "disk_row \<Rightarrow> metric list" where
  \<comment> \<open>operations, sectors and milliseconds of reads and writes of a whole device\<close>
  "disk_metrics r =
     (let v = (\<lambda>i. double_of_int (int (snd (dk_cols r ! i)))); oct = (\<lambda>i. dmul (v i) (double_of_int 512))
      in if \<not> rmatches disk_re (dk_name r) then []
         else [disk_metric (dk_name r) ''disk_ops'' (v 0) (v 4),
               disk_metric (dk_name r) ''disk_octets'' (oct 2) (oct 6),
               disk_metric (dk_name r) ''disk_time'' (v 3) (v 7)])"

lemma scan_disk:
  assumes "disk_ok r"
  shows "sscanf disk_format (disk_text r @ [NL]) =
     (9, SStr (dk_name r) # map (\<lambda>(k, v). SLong (int v)) (take 8 (dk_cols r)))"
proof -
  obtain k1 a k2 b where ab: "dk_major r = (k1, a)" "dk_minor r = (k2, b)" by (metis surj_pair)
  let ?n = "dk_name r" and ?c8 = "take 8 (dk_cols r)" and ?rest = "columns (drop 8 (dk_cols r)) @ [NL]"
  have ok: "is_token ?n" "length ?n \<le> 63" "columns_ok ?c8" "length ?c8 = 8"
    "int a \<le> LONG_MAX" "int b \<le> LONG_MAX" "line_ok 512 (disk_text r)"
    using assms by (auto simp: disk_ok_def columns_ok_def ab list_all_iff dest: in_set_takeD)
  have split: "columns (dk_cols r) @ [NL] = columns ?c8 @ ?rest"
    by (metis append.assoc append_take_drop_id columns_def concat_append map_append)
  have e: "ends_number ?rest" by (rule ends_number_columns) (simp add: ends_number_def)
  have e1: "ends_number (SP # u)" "ends_number (columns [(k, v)] @ u)" for u k v
    by (simp_all add: ends_number_def columns_def)
  let ?t2 = "?n @ columns ?c8 @ ?rest"
  have sp: "columns ?c8 @ ?rest = [] \<or> isspace (hd (columns ?c8 @ ?rest))"
    using ok(4) by (cases ?c8) (auto simp: columns_def)
  note nm = scan_Str [OF ok(1,2) sp, of 0]
  have nsp: "?t2 \<noteq> []" "\<not> isspace (hd ?t2)" using token_hd [OF ok(1)] by blast+
  have t: "disk_text r @ [NL] = replicate (Suc k1) SP @ show_nat a @ (replicate (Suc k2) SP @ show_nat b @ (SP # ?t2))"
    using split by (simp add: disk_text_def ab columns_def)
  have s1: "scan1 SkipInt (disk_text r @ [NL]) = Match None (replicate (Suc k2) SP @ show_nat b @ (SP # ?t2))"
    unfolding t by (rule scan_Long(2)) (simp_all add: ok ends_number_def)
  have nb: "show_nat b @ (SP # ?t2) \<noteq> []" "\<not> isspace (hd (show_nat b @ (SP # ?t2)))"
    using isdigit_not_space [OF hd_show_nat] by simp_all
  have s2: "scan1 Ws (replicate (Suc k2) SP @ show_nat b @ (SP # ?t2)) = Match None (show_nat b @ (SP # ?t2))"
    by (rule scan_Ws [OF nb])
  have s3: "scan1 SkipInt (show_nat b @ (SP # ?t2)) = Match None (SP # ?t2)"
    using scan_Long(2) [OF e1(1) ok(6), of 0] by simp
  have s4: "scan1 Ws (SP # ?t2) = Match None ?t2" using scan_Ws [OF nsp, of 1] by simp
  have s5: "scan1 (Str 63) ?t2 = Match (Some (SStr ?n)) (columns ?c8 @ ?rest)" using nm by simp
  have s6: "scan_dirs (concat (replicate 8 [Ws, Long])) (columns ?c8 @ ?rest) = (map (\<lambda>(k, v). SLong (int v)) ?c8, False)"
    using scan_columns [OF ok(3) e, of "[]"] unfolding ok(4) by simp
  have "NUL \<notin> set (disk_text r @ [NL])" using ok(7) by (simp add: line_ok_def)
  moreover have "scan_dirs disk_format (disk_text r @ [NL]) = (SStr ?n # map (\<lambda>(k, v). SLong (int v)) ?c8, False)"
    unfolding disk_format_def
    by (simp only: append_Cons append_Nil scan_dirs.simps s1 s2 s3 s4 s5 s6 scan_res.case option.case prod.case)
  ultimately show ?thesis using ok(4) by (simp add: sscanf_plain fscanf_def)
qed

lemma disk_line_text:
  assumes "disk_ok r"
  shows "disk_line (disk_text r @ [NL]) = disk_metrics r"
proof -
  have "8 \<le> length (dk_cols r)" using assms by (simp add: disk_ok_def)
  then have "map long_of (map (\<lambda>(k, v). SLong (int v)) (take 8 (dk_cols r))) ! i = int (snd (dk_cols r ! i))" if "i < 8" for i
    using that by (simp add: case_prod_beta)
  then show ?thesis
    unfolding disk_line_def scan_disk [OF assms] disk_metrics_def Let_def by simp
qed

lemma disk_read_text:
  assumes "os_fopen env (snprintf_buf 1024 (base @ ''/diskstats'')) = Inr (unlines (map disk_text rows))"
    "list_all disk_ok rows" "re_ready s \<or> os_regcomp_ok env"
  shows "disk_read env base s = Some (0, map Emit (concat (map disk_metrics rows)), s\<lparr>re_ready := True\<rparr>)"
proof -
  have "concat (map disk_line (fgets_lines 512 (unlines (map disk_text rows)))) = concat (map disk_metrics rows)"
    by (rule concat_lines [OF assms(2)]) (simp_all add: disk_line_text, simp add: disk_ok_def)
  then show ?thesis using assms(1,3) by (auto simp: disk_read_def)
qed

section \<open>Mounted file systems\<close>

record mount_row =
  mt_dev :: string
  mt_dir :: string
  mt_type :: string
  mt_opts :: string
  mt_tail :: string

definition mount_text :: "mount_row \<Rightarrow> string" where
  "mount_text r = mt_dev r @ [SP] @ mt_dir r @ [SP] @ mt_type r @ [SP] @ mt_opts r @ [SP] @ mt_tail r"

definition mount_ok :: "mount_row \<Rightarrow> bool" where
  "mount_ok r \<longleftrightarrow> is_token (mt_dev r) \<and> is_token (mt_dir r) \<and> is_token (mt_type r) \<and> is_token (mt_opts r)
     \<and> length (mt_dev r) < 256 \<and> length (mt_dir r) < 256 \<and> length (mt_type r) < 64 \<and> line_ok 512 (mount_text r)"

definition statvfs_ok :: "statvfs_t \<Rightarrow> bool" where
  \<comment> \<open>no more blocks free than there are, and a size in bytes of at most 64 bits\<close>
  "statvfs_ok st \<longleftrightarrow> f_bfree st \<le> f_blocks st \<and> f_bavail st \<le> f_blocks st
     \<and> uint (f_blocks st) * uint (f_frsize st) < 2 ^ 64"

definition df_bytes :: "string \<Rightarrow> string \<Rightarrow> int \<Rightarrow> metric" where
  "df_bytes dir ti v =
     \<lparr>plugin = Some ''df'', plugin_instance = Some (mount_to_instance dir 256), type = Some ''df_complex'',
      type_instance = Some ti, ds_count = 1, vals = [double_of_int v]\<rparr>"

definition mount_metrics :: "(string \<Rightarrow> statvfs_t option) \<Rightarrow> mount_row \<Rightarrow> metric list" where
  \<comment> \<open>bytes in use and bytes available, for mounts of real file systems that can be examined\<close>
  "mount_metrics vfs r =
     (if mt_type r \<in> set FSTYPE_DENYLIST then []
      else case vfs (mt_dir r) of
             None \<Rightarrow> []
           | Some st \<Rightarrow>
               [df_bytes (mt_dir r) ''used'' ((uint (f_blocks st) - uint (f_bfree st)) * uint (f_frsize st)),
                df_bytes (mt_dir r) ''free'' (uint (f_bavail st) * uint (f_frsize st))])"

lemma uint_prod:
  fixes a b :: "64 word"
  assumes "uint a * uint b < 2 ^ 64"
  shows "uint (a * b) = uint a * uint b"
  using assms by (simp add: uint_word_ariths)

lemma statvfs_bytes:
  assumes "statvfs_ok st"
  shows "uint ((f_blocks st - f_bfree st) * f_frsize st) = (uint (f_blocks st) - uint (f_bfree st)) * uint (f_frsize st)"
    "uint (f_bavail st * f_frsize st) = uint (f_bavail st) * uint (f_frsize st)"
proof -
  have le: "uint (f_bfree st) \<le> uint (f_blocks st)" "uint (f_bavail st) \<le> uint (f_blocks st)"
    and lim: "uint (f_blocks st) * uint (f_frsize st) < 2 ^ 64"
    using assms by (simp_all add: statvfs_ok_def word_le_def)
  have d: "uint (f_blocks st - f_bfree st) = uint (f_blocks st) - uint (f_bfree st)"
    using le(1) by (simp add: uint_sub_if')
  have "(uint (f_blocks st) - uint (f_bfree st)) * uint (f_frsize st) \<le> uint (f_blocks st) * uint (f_frsize st)"
    by (intro mult_right_mono) simp_all
  with lim have "uint (f_blocks st - f_bfree st) * uint (f_frsize st) < 2 ^ 64" unfolding d by linarith
  then show "uint ((f_blocks st - f_bfree st) * f_frsize st) = (uint (f_blocks st) - uint (f_bfree st)) * uint (f_frsize st)"
    using uint_prod d by metis
  have "uint (f_bavail st) * uint (f_frsize st) \<le> uint (f_blocks st) * uint (f_frsize st)"
    using le(2) by (intro mult_right_mono) simp_all
  with lim show "uint (f_bavail st * f_frsize st) = uint (f_bavail st) * uint (f_frsize st)"
    by (intro uint_prod) linarith
qed

lemma scan_Str_Ws:
  assumes "is_token w" "length w \<le> n" "is_token w'"
  shows "scan_dirs (Str n # Ws # ds) (w @ [SP] @ w' @ rest) =
     (case scan_dirs ds (w' @ rest) of (vs, eof) \<Rightarrow> (SStr w # vs, eof))"
proof -
  have "scan1 (Str n) (w @ [SP] @ w' @ rest) = Match (Some (SStr w)) (SP # w' @ rest)"
    using scan_Str [OF assms(1,2), of "[SP] @ w' @ rest" 0] by simp
  moreover have "scan1 Ws (SP # w' @ rest) = Match None (w' @ rest)"
    using scan_Ws [of "w' @ rest" 1] token_hd [OF assms(3)] by simp
  ultimately show ?thesis by (simp del: scan1.simps split: prod.splits)
qed

lemma scan_mount:
  assumes "mount_ok r"
  shows "sscanf [Str 255, Ws, Str 255, Ws, Str 63, Ws, Str 255] (mount_text r @ [NL]) =
     (4, [SStr (mt_dev r), SStr (mt_dir r), SStr (mt_type r), SStr (take 255 (mt_opts r))])"
proof -
  have ok: "is_token (mt_dev r)" "length (mt_dev r) \<le> 255" "is_token (mt_dir r)" "length (mt_dir r) \<le> 255"
    "is_token (mt_type r)" "length (mt_type r) \<le> 63" "is_token (mt_opts r)"
    using assms by (simp_all add: mount_ok_def)
  let ?r4 = "[SP] @ mt_tail r @ [NL]"
  have "scan1 (Str 255) (mt_opts r @ ?r4) = Match (Some (SStr (take 255 (mt_opts r)))) (drop 255 (mt_opts r) @ ?r4)"
    using scan_Str_max [OF ok(7), of 255 ?r4 0] by simp
  then have s4: "scan_dirs [Str 255] (mt_opts r @ ?r4) = ([SStr (take 255 (mt_opts r))], False)"
    by (simp del: scan1.simps)
  have "scan_dirs [Str 255, Ws, Str 255, Ws, Str 63, Ws, Str 255] (mount_text r @ [NL]) =
     ([SStr (mt_dev r), SStr (mt_dir r), SStr (mt_type r), SStr (take 255 (mt_opts r))], False)"
    unfolding mount_text_def append_assoc
    by (simp only: scan_Str_Ws [OF ok(1,2,3)] scan_Str_Ws [OF ok(3,4,5)] scan_Str_Ws [OF ok(5,6,7)] s4 prod.case)
  moreover have "NUL \<notin> set (mount_text r @ [NL])" using assms by (simp add: mount_ok_def line_ok_def)
  ultimately show ?thesis by (simp add: sscanf_plain fscanf_def)
qed

lemma df_line_text:
  assumes "mount_ok r" "\<And>st. os_statvfs env (mt_dir r) = Some st \<Longrightarrow> statvfs_ok st"
  shows "df_line env (mount_text r @ [NL]) = mount_metrics (os_statvfs env) r"
proof -
  have "fstype_denied (mt_type r) \<longleftrightarrow> mt_type r \<in> set FSTYPE_DENYLIST"
    by (auto simp: fstype_denied_def list_ex_iff)
  then show ?thesis
    using assms(2) statvfs_bytes
    by (simp add: df_line_def scan_mount [OF assms(1)] mount_metrics_def Let_def df_metric_def df_bytes_def
        split: option.splits)
qed

lemma df_read_text:
  assumes "os_fopen env (snprintf_buf 1024 (base @ ''/mounts'')) = Inr (unlines (map mount_text rows))"
    "list_all mount_ok rows" "\<And>d st. os_statvfs env d = Some st \<Longrightarrow> statvfs_ok st"
  shows "df_read env base s = Some (0, map Emit (concat (map (mount_metrics (os_statvfs env)) rows)), s)"
proof -
  have "concat (map (df_line env) (fgets_lines 512 (unlines (map mount_text rows)))) = concat (map (mount_metrics (os_statvfs env)) rows)"
    by (rule concat_lines [OF assms(2)]) (simp_all add: df_line_text assms(3), simp add: mount_ok_def)
  then show ?thesis using assms(1) by (simp add: df_read_def)
qed

section \<open>Memory\<close>

record mem_row =
  mr_key :: string
  mr_val :: column
  mr_unit :: string

definition mem_text :: "mem_row \<Rightarrow> string" where
  "mem_text r = mr_key r @ '':'' @ columns [mr_val r] @ mr_unit r"

definition mem_row_ok :: "mem_row \<Rightarrow> bool" where
  "mem_row_ok r \<longleftrightarrow> is_token (mr_key r) \<and> CHR '':'' \<notin> set (mr_key r) \<and> columns_ok [mr_val r]
     \<and> ends_number (mr_unit r) \<and> line_ok 256 (mem_text r)"

definition mem_value :: "mem_row list \<Rightarrow> string \<Rightarrow> int \<Rightarrow> int" where
  \<comment> \<open>the value of a key, or the default if no line has it\<close>
  "mem_value rows key d = fold (\<lambda>r x. if mr_key r = key then int (snd (mr_val r)) else x) rows d"

lemma starts_with_key:
  assumes "CHR '':'' \<notin> set k" "CHR '':'' \<notin> set key"
  shows "starts_with (k @ '':'' @ rest) (key @ '':'') \<longleftrightarrow> k = key"
  using assms
proof (induction k arbitrary: key)
  case Nil
  then show ?case by (cases key) (auto simp: starts_with_def)
next
  case (Cons x k)
  then show ?case by (cases key) (auto simp: starts_with_def)
qed

lemma meminfo_val_text:
  assumes "mem_row_ok r"
  shows "meminfo_val (mem_text r @ [NL]) = Some (int (snd (mr_val r)))"
proof -
  obtain k v where kv: "mr_val r = (k, v)" by force
  have ok: "is_token (mr_key r)" "int v \<le> LONG_MAX" "ends_number (mr_unit r)" "NUL \<notin> set (mem_text r)"
    using assms by (simp_all add: mem_row_ok_def columns_ok_def kv line_ok_def)
  have e: "ends_number (mr_unit r @ [NL])" using ok(3) by (cases "mr_unit r") (simp_all add: ends_number_def)
  have t: "mem_text r @ [NL] = (mr_key r @ '':'') @ replicate (Suc k) SP @ show_nat v @ (mr_unit r @ [NL])"
    by (simp add: mem_text_def kv columns_def)
  have "is_token (mr_key r @ '':'')" using ok(1) by (simp add: is_token_def isspace_def)
  from scan_SkipStr [OF this, of "replicate (Suc k) SP @ show_nat v @ (mr_unit r @ [NL])" 0]
  have "scan1 SkipStr (mem_text r @ [NL]) = Match None (replicate (Suc k) SP @ show_nat v @ (mr_unit r @ [NL]))"
    unfolding t by simp
  then have "scan_dirs [SkipStr, Ws, Long] (mem_text r @ [NL]) = ([SLong (int v)], False)"
    using scan_Ws_Long [OF e ok(2), of "[]" "Suc k"]
    by (simp only: scan_dirs.simps(2) [of SkipStr] scan_res.case) simp
  then show ?thesis using ok(4) by (simp add: meminfo_val_def sscanf_plain fscanf_def kv)
qed

lemma mem_text_starts:
  assumes "mem_row_ok r" "CHR '':'' \<notin> set key"
  shows "starts_with (mem_text r @ [NL]) (key @ '':'') \<longleftrightarrow> mr_key r = key"
  using starts_with_key [of "mr_key r" key] assms by (simp add: mem_text_def mem_row_ok_def)

lemma memory_line_text:
  assumes "mem_row_ok r"
  shows "memory_line (mem_text r @ [NL]) mi =
     (let v = int (snd (mr_val r)); k = mr_key r
      in if k = ''MemTotal'' then mi\<lparr>mem_total := v\<rparr> else if k = ''MemFree'' then mi\<lparr>mem_free := v\<rparr>
         else if k = ''Buffers'' then mi\<lparr>buffers := v\<rparr> else if k = ''Cached'' then mi\<lparr>cached := v\<rparr> else mi)"
  using mem_text_starts [OF assms, of "''MemTotal''"] mem_text_starts [OF assms, of "''MemFree''"]
    mem_text_starts [OF assms, of "''Buffers''"] mem_text_starts [OF assms, of "''Cached''"]
  by (simp add: memory_line_def meminfo_val_text [OF assms] Let_def)

lemma swap_line_text:
  assumes "mem_row_ok r"
  shows "swap_line (mem_text r @ [NL]) si =
     (let v = int (snd (mr_val r)); k = mr_key r
      in if k = ''SwapTotal'' then si\<lparr>swap_total := v\<rparr> else if k = ''SwapFree'' then si\<lparr>swap_free := v\<rparr> else si)"
  using mem_text_starts [OF assms, of "''SwapTotal''"] mem_text_starts [OF assms, of "''SwapFree''"]
  by (simp add: swap_line_def meminfo_val_text [OF assms] Let_def)

lemma meminfo_of_text:
  assumes "list_all mem_row_ok rows"
  shows "meminfo_of (unlines (map mem_text rows)) =
     \<lparr>mem_total = mem_value rows ''MemTotal'' (- 1), mem_free = mem_value rows ''MemFree'' 0,
      buffers = mem_value rows ''Buffers'' 0, cached = mem_value rows ''Cached'' 0\<rparr>"
proof -
  let ?g = "\<lambda>r mi. let v = int (snd (mr_val r)); k = mr_key r
      in if k = ''MemTotal'' then mi\<lparr>mem_total := v\<rparr> else if k = ''MemFree'' then mi\<lparr>mem_free := v\<rparr>
         else if k = ''Buffers'' then mi\<lparr>buffers := v\<rparr> else if k = ''Cached'' then mi\<lparr>cached := v\<rparr> else mi"
  have "fold ?g rows \<lparr>mem_total = a, mem_free = b, buffers = c, cached = d\<rparr> =
     \<lparr>mem_total = mem_value rows ''MemTotal'' a, mem_free = mem_value rows ''MemFree'' b,
      buffers = mem_value rows ''Buffers'' c, cached = mem_value rows ''Cached'' d\<rparr>" for a b c d
    by (induction rows arbitrary: a b c d) (simp_all add: mem_value_def Let_def)
  moreover have "meminfo_of (unlines (map mem_text rows)) = fold ?g rows \<lparr>mem_total = - 1, mem_free = 0, buffers = 0, cached = 0\<rparr>"
    unfolding meminfo_of_def
    by (rule fold_lines [OF assms]) (simp_all add: memory_line_text, simp add: mem_row_ok_def)
  ultimately show ?thesis by simp
qed

lemma swapinfo_text:
  assumes "list_all mem_row_ok rows"
  shows "fold swap_line (fgets_lines 256 (unlines (map mem_text rows))) \<lparr>swap_total = - 1, swap_free = 0\<rparr> =
     \<lparr>swap_total = mem_value rows ''SwapTotal'' (- 1), swap_free = mem_value rows ''SwapFree'' 0\<rparr>"
proof -
  let ?g = "\<lambda>r si. let v = int (snd (mr_val r)); k = mr_key r
      in if k = ''SwapTotal'' then si\<lparr>swap_total := v\<rparr> else if k = ''SwapFree'' then si\<lparr>swap_free := v\<rparr> else si"
  have "fold ?g rows \<lparr>swap_total = a, swap_free = b\<rparr> =
     \<lparr>swap_total = mem_value rows ''SwapTotal'' a, swap_free = mem_value rows ''SwapFree'' b\<rparr>" for a b
    by (induction rows arbitrary: a b) (simp_all add: mem_value_def Let_def)
  moreover have "fold swap_line (fgets_lines 256 (unlines (map mem_text rows))) \<lparr>swap_total = - 1, swap_free = 0\<rparr>
      = fold ?g rows \<lparr>swap_total = - 1, swap_free = 0\<rparr>"
    by (rule fold_lines [OF assms]) (simp_all add: swap_line_text, simp add: mem_row_ok_def)
  ultimately show ?thesis by simp
qed

lemma dval_dmul_int:
  assumes "\<bar>a\<bar> \<le> 2 ^ 53" "\<bar>b\<bar> \<le> 2 ^ 53" "\<bar>a * b\<bar> \<le> 2 ^ 53"
  shows "isfinite (dmul (double_of_int a) (double_of_int b)) \<and> dval (dmul (double_of_int a) (double_of_int b)) = real_of_int (a * b)"
proof -
  obtain m e where a: "double_of_int a = Finite (a < 0) m e" "real m * 2 powi e = real_of_int \<bar>a\<bar>"
    using double_of_int_exact(1) [OF assms(1)] by blast
  obtain n f where b: "double_of_int b = Finite (b < 0) n f" "real n * 2 powi f = real_of_int \<bar>b\<bar>"
    using double_of_int_exact(1) [OF assms(2)] by blast
  have "representable (real (nat \<bar>a * b\<bar>))" using assms(3) by (intro representable_nat) (simp add: nat_le_iff)
  then have "representable (real m * 2 powi e * (real n * 2 powi f))" by (simp add: a(2) b(2) abs_mult)
  from dmul_exact [OF a(1) b(1) this] obtain p g where
    p: "dmul (double_of_int a) (double_of_int b) = Finite ((a < 0) \<noteq> (b < 0)) p g"
      "real p * 2 powi g = real_of_int \<bar>a\<bar> * real_of_int \<bar>b\<bar>"
    unfolding a(2) b(2) by blast
  have "(if (a < 0) \<noteq> (b < 0) then - 1 else 1) * (real_of_int \<bar>a\<bar> * real_of_int \<bar>b\<bar>) = real_of_int (a * b)"
    by auto
  then show ?thesis unfolding p(1) dval_def by (simp add: mult.assoc p(2))
qed

lemma swap_read_text:
  assumes "os_fopen env (snprintf_buf 1024 (base @ ''/meminfo'')) = Inr (unlines (map mem_text rows))"
    "list_all mem_row_ok rows" "t = mem_value rows ''SwapTotal'' (- 1)" "f = mem_value rows ''SwapFree'' 0"
    "0 < t" "0 \<le> f" "f \<le> t" "t \<le> 2 ^ 43"
  shows "\<exists>u v. swap_read env base s = Some (0, [Emit (swap_metric ''used'' u), Emit (swap_metric ''free'' v)], s)
     \<and> isfinite u \<and> dval u = 1024 * real_of_int (t - f) \<and> isfinite v \<and> dval v = 1024 * real_of_int f"
proof -
  let ?k = "double_of_int 1024"
  have "chk_long (t - f) = Some (t - f)"
    using assms(5-8) by (simp add: chk_long_def in_long_def LONG_MIN_def LONG_MAX_def)
  then have "swap_read env base s = Some (0, [Emit (swap_metric ''used'' (dmul (double_of_int (t - f)) ?k)),
       Emit (swap_metric ''free'' (dmul (double_of_int f) ?k))], s)"
    using assms(1,5) swapinfo_text [OF assms(2)] by (simp add: swap_read_def Let_def flip: assms(3,4))
  moreover have "isfinite (dmul (double_of_int x) ?k) \<and> dval (dmul (double_of_int x) ?k) = 1024 * real_of_int x"
    if "0 \<le> x" "x \<le> 2 ^ 43" for x
    using dval_dmul_int [of x 1024] that by (simp add: mult.commute)
  from this [of "t - f"] this [of f] assms(5-8)
  have "isfinite (dmul (double_of_int (t - f)) ?k) \<and> dval (dmul (double_of_int (t - f)) ?k) = 1024 * real_of_int (t - f)"
    "isfinite (dmul (double_of_int f) ?k) \<and> dval (dmul (double_of_int f) ?k) = 1024 * real_of_int f" by simp_all
  ultimately show ?thesis by blast
qed

section \<open>Processor time\<close>

definition stat_text :: "column list \<Rightarrow> string \<Rightarrow> string" where
  \<comment> \<open>the aggregate line, and whatever follows it\<close>
  "stat_text cs rest = (''cpu'' @ columns cs) @ NL # rest"

lemma cpu_scan_text:
  assumes "columns_ok cs" "length cs = 10" "line_ok 512 (''cpu'' @ columns cs)"
  shows "cpu_scan (fgets_lines 512 (stat_text cs rest)) = Some (map (\<lambda>c. int (snd c)) cs)"
proof -
  let ?l = "(''cpu'' @ columns cs) @ [NL]"
  have "scan_dirs (concat (replicate 10 [Ws, Long])) (columns cs @ [NL]) = (map (\<lambda>(k, v). SLong (int v)) cs, False)"
    using scan_columns [OF assms(1), of "[NL]" "[]"] assms(2) by (simp add: ends_number_def)
  then have "scan_dirs cpu_format ?l = (map (\<lambda>(k, v). SLong (int v)) cs, False)"
    unfolding cpu_format_def by simp
  moreover have "NUL \<notin> set ?l" using columns_plain(1) [of cs] by simp
  ultimately have sc: "sscanf cpu_format ?l = (10, map (\<lambda>(k, v). SLong (int v)) cs)"
    using assms(2) by (simp add: sscanf_plain fscanf_def)
  obtain k v cs' where "cs = (k, v) # cs'" using assms(2) by (cases cs) auto
  then have "starts_with ?l ''cpu ''" by (simp add: starts_with_def columns_def)
  moreover have "map long_of (map (\<lambda>(k, v). SLong (int v)) cs) = map (\<lambda>c. int (snd c)) cs"
    by (simp add: case_prod_beta)
  ultimately show ?thesis
    unfolding stat_text_def fgets_lines_first [OF assms(3)] using sc assms(2) by simp
qed

section \<open>Load and uptime\<close>

definition loadavg_text :: "nat \<Rightarrow> nat \<Rightarrow> nat \<Rightarrow> string \<Rightarrow> string" where
  "loadavg_text a b c rest =
     show_hundredths a @ [SP] @ show_hundredths b @ [SP] @ show_hundredths c @ [SP] @ rest"

lemma scan_Dbl_Ws:
  "scan_dirs (Dbl # Ws # ds) (show_hundredths a @ [SP] @ show_hundredths b @ rest) =
     (case scan_dirs ds (show_hundredths b @ rest) of (vs, eof) \<Rightarrow> (SDbl (round_ratio False a 100) # vs, eof))"
proof -
  have "scan1 Dbl (show_hundredths a @ [SP] @ show_hundredths b @ rest) =
      Match (Some (SDbl (round_ratio False a 100))) (SP # show_hundredths b @ rest)"
    using scan_Dbl [of "SP # show_hundredths b @ rest" 0 a] by (simp add: ends_fraction_def)
  moreover have "scan1 Ws (SP # show_hundredths b @ rest) = Match None (show_hundredths b @ rest)"
    using scan_Ws [of "show_hundredths b @ rest" 1] isdigit_not_space [OF hd_show_nat]
    by (simp add: show_hundredths_def)
  ultimately show ?thesis by (simp del: scan1.simps split: prod.splits)
qed

lemma scan_Dbl_last:
  "scan_dirs [Dbl] (show_hundredths a @ [SP] @ rest) = ([SDbl (round_ratio False a 100)], False)"
  using scan_Dbl [of "[SP] @ rest" 0 a] by (simp add: ends_fraction_def del: scan1.simps)

lemma load_read_text:
  assumes "os_fopen env (snprintf_buf 1024 (base @ ''/loadavg'')) = Inr (loadavg_text a b c rest)"
  shows "load_read env base s = Some (0,
     [Emit (load_metric [round_ratio False a 100, round_ratio False b 100, round_ratio False c 100])], s)"
proof -
  have "scan_dirs [Dbl, Ws, Dbl, Ws, Dbl] (loadavg_text a b c rest) =
      ([SDbl (round_ratio False a 100), SDbl (round_ratio False b 100), SDbl (round_ratio False c 100)], False)"
    unfolding loadavg_text_def by (simp only: scan_Dbl_Ws scan_Dbl_last prod.case)
  then show ?thesis using assms by (simp add: load_read_def fscanf_def)
qed

definition uptime_text :: "nat \<Rightarrow> string \<Rightarrow> string" where
  "uptime_text a rest = show_hundredths a @ [SP] @ rest"

lemma uptime_read_text:
  assumes "os_fopen env (snprintf_buf 1024 (base @ ''/uptime'')) = Inr (uptime_text a rest)"
  shows "uptime_read env base s = Some (0, [Emit (uptime_metric (round_ratio False a 100))], s)"
  using assms scan_Dbl_last [of a rest] by (simp add: uptime_read_def fscanf_def uptime_text_def del: scan_dirs.simps)

section \<open>Temperatures\<close>

record zone =
  zn_name :: string
  zn_temp :: int
  zn_type :: string

definition zone_shown :: "osenv \<Rightarrow> zone \<Rightarrow> bool" where
  \<comment> \<open>a zone the kernel shows in \<^verbatim>\<open>/sys/class/thermal\<close>\<close>
  "zone_shown env z \<longleftrightarrow>
     starts_with (zn_name z) ''thermal_zone''
   \<and> os_fopen env (snprintf_buf 1024 (''/sys/class/thermal/'' @ zn_name z @ ''/temp'')) = Inr (show_int (zn_temp z) @ [NL])
   \<and> os_fopen env (snprintf_buf 1024 (''/sys/class/thermal/'' @ zn_name z @ ''/type'')) = Inr (zn_type z @ [NL])
   \<and> \<bar>zn_temp z\<bar> \<le> LONG_MAX \<and> line_ok 64 (zn_type z) \<and> CR \<notin> set (zn_type z)"

definition zone_metric :: "zone \<Rightarrow> metric" where
  "zone_metric z = thermal_metric (zn_name z) (zn_type z) (ddiv (double_of_int (zn_temp z)) (double_of_int 1000))"

lemma strip_eol_line: "NL \<notin> set t \<Longrightarrow> CR \<notin> set t \<Longrightarrow> strip_eol (t @ [NL]) = t"
proof -
  assume a: "NL \<notin> set t" "CR \<notin> set t"
  have "dropWhile (\<lambda>c. c = NL \<or> c = CR) (rev t) = rev t"
    using a by (cases "rev t") (auto simp: rev_swap)
  then show ?thesis by (simp add: strip_eol_def)
qed

lemma thermal_zone_text:
  assumes "zone_shown env z"
  shows "thermal_zone env ''/sys'' (zn_name z) = [Emit (zone_metric z)]"
proof -
  note z = assms [unfolded zone_shown_def]
  have t: "NL \<notin> set (zn_type z)" "NUL \<notin> set (zn_type z)" "length (zn_type z) < 63" "CR \<notin> set (zn_type z)"
    using z by (auto simp: line_ok_def)
  have "fgets 64 (zn_type z @ [NL]) = Some (zn_type z @ [NL])"
    using fgets_split_line [OF t(1), of 63 "[]"] t cstr_id [of "zn_type z @ [NL]"] by (simp add: fgets_def)
  then have ty: "zone_type env (snprintf_buf 1024 (''/sys/class/thermal/'' @ zn_name z @ ''/type'')) = zn_type z"
    using z strip_eol_line [OF t(1,4)] by (simp add: zone_type_def)
  have "scan1 Long (show_int (zn_temp z) @ [NL]) = Match (Some (SLong (zn_temp z))) [NL]"
    using z by (intro scan_Long_int) (simp_all add: ends_number_def)
  then have "fscanf [Long] (show_int (zn_temp z) @ [NL]) = (1, [SLong (zn_temp z)])"
    by (simp add: fscanf_def del: scan1.simps)
  with z ty show ?thesis by (simp add: thermal_zone_def zone_metric_def)
qed

lemma thermal_zone_other: "\<not> starts_with n ''thermal_zone'' \<Longrightarrow> thermal_zone env base n = []"
  by (simp add: thermal_zone_def)

lemma thermal_read_text:
  assumes "os_opendir env ''/sys/class/thermal'' = Inr names"
    "filter (\<lambda>n. starts_with n ''thermal_zone'') names = map zn_name zs" "list_all (zone_shown env) zs"
  shows "thermal_read env ''/proc'' s = Some (0, map (\<lambda>z. Emit (zone_metric z)) zs, s)"
proof -
  have "concat (map (thermal_zone env ''/sys'') names)
      = concat (map (thermal_zone env ''/sys'') (filter (\<lambda>n. starts_with n ''thermal_zone'') names))"
    by (induction names) (simp_all add: thermal_zone_other)
  also have "\<dots> = map (\<lambda>z. Emit (zone_metric z)) zs"
    unfolding assms(2) using assms(3) by (induction zs) (simp_all add: thermal_zone_text)
  finally show ?thesis using assms(1) by (simp add: thermal_read_def snprintf_buf_def)
qed

section \<open>Sockets\<close>

record sock_row =
  sk_slot :: string
  sk_local :: string
  sk_remote :: string
  sk_state :: nat
  sk_tail :: string

definition hex_digit :: "nat \<Rightarrow> char" where
  "hex_digit d = ''0123456789ABCDEF'' ! d"

definition sock_text :: "sock_row \<Rightarrow> string" where
  \<comment> \<open>\<open>%4d: %08X:%04X %08X:%04X %02X ...\<close>\<close>
  "sock_text r = [SP, SP] @ sk_slot r @ [SP] @ sk_local r @ [SP] @ sk_remote r @ [SP]
     @ [CHR ''0'', hex_digit (sk_state r)] @ [SP] @ sk_tail r"

definition sock_ok :: "sock_row \<Rightarrow> bool" where
  "sock_ok r \<longleftrightarrow> is_token (sk_slot r) \<and> is_token (sk_local r) \<and> is_token (sk_remote r)
     \<and> sk_state r < 16 \<and> line_ok 512 (sock_text r)"

lemma hex_digit_props:
  assumes "d < 16"
  shows "hex_val (hex_digit d) = Some d \<and> isxdigit (hex_digit d) \<and> \<not> isspace (hex_digit d)"
proof -
  have "d \<in> {0, 1, 2, 3, 4, 5, 6, 7, 8, 9, 10, 11, 12, 13, 14, 15}"
    using assms by (auto simp: numeral_eq_Suc less_Suc_eq)
  then show ?thesis by (auto simp: hex_digit_def hex_val_def isxdigit_def isspace_def)
qed

lemma scan_state:
  assumes "d < 16"
  shows "scan1 Hex ([CHR ''0'', hex_digit d] @ [SP] @ rest) = Match (Some (SHex (of_nat d))) ([SP] @ rest)"
proof -
  note h = hex_digit_props [OF assms]
  have x: "hex_digit d \<noteq> CHR ''x'' \<and> hex_digit d \<noteq> CHR ''X''" using h by (auto simp: hex_val_def)
  have tw: "takeWhile isxdigit ([CHR ''0'', hex_digit d] @ [SP] @ rest) = [CHR ''0'', hex_digit d]"
    "dropWhile isxdigit ([CHR ''0'', hex_digit d] @ [SP] @ rest) = [SP] @ rest"
    using h by (simp_all add: isxdigit_def hex_val_def)
  have dv: "digits_val 16 [CHR ''0'', hex_digit d] = d"
    using h by (simp add: digits_val_def hex_val_def [of "CHR ''0''"])
  have "strtoul_hex ([CHR ''0'', hex_digit d] @ [SP] @ rest) = Some (of_nat d, [SP] @ rest)"
    using x tw dv assms
    by (simp add: strtoul_hex_def scan_sign_def skip_0x_def starts_with_def Let_def clamp_ulong_def)
  moreover have "unat (of_nat d :: 64 word) = d" using assms by (simp add: unat_of_nat)
  then have "ucast (of_nat d :: 64 word) = (of_nat d :: 32 word)"
    using assms by (intro word_unat_eq_iff [THEN iffD2]) (simp add: unsigned_ucast_eq unat_of_nat take_bit_eq_mod)
  ultimately show ?thesis
    using scan_tok_blanks [of "[CHR ''0'', hex_digit d] @ [SP] @ rest" strtoul_hex "\<lambda>v. Some (SHex (ucast v))" 0]
    by (simp add: isspace_def)
qed

lemma scan_skip_Ws:
  assumes "is_token w" "t \<noteq> []" "\<not> isspace (hd t)"
  shows "scan_dirs (SkipStr # Ws # ds) (w @ [SP] @ t) = scan_dirs ds t"
proof -
  have "scan1 SkipStr (w @ [SP] @ t) = Match None (SP # t)"
    using scan_SkipStr [OF assms(1), of "[SP] @ t" 0] by simp
  moreover have "scan1 Ws (SP # t) = Match None t" using scan_Ws [OF assms(2,3), of 1] by simp
  ultimately show ?thesis by (simp del: scan1.simps split: prod.splits)
qed

lemma tcp_state_text:
  assumes "sock_ok r"
  shows "tcp_state (sock_text r @ [NL]) =
     (if 1 \<le> sk_state r \<and> sk_state r < TCP_STATE_MAX then Some (sk_state r) else None)"
proof -
  have ok: "is_token (sk_slot r)" "is_token (sk_local r)" "is_token (sk_remote r)" "sk_state r < 16"
    "NUL \<notin> set (sock_text r)"
    using assms by (simp_all add: sock_ok_def line_ok_def)
  let ?t3 = "[CHR ''0'', hex_digit (sk_state r)] @ [SP] @ sk_tail r @ [NL]"
  have h: "\<not> isspace (hd (w @ u))" "w @ u \<noteq> []" if "is_token w" for w u using token_hd [OF that] by blast+
  have "scan_dirs [Hex] ?t3 = ([SHex (of_nat (sk_state r))], False)"
    using scan_state [OF ok(4), of "sk_tail r @ [NL]"] by (simp del: scan1.simps)
  then have "scan_dirs [SkipStr, Ws, SkipStr, Ws, SkipStr, Ws, Hex]
      (sk_slot r @ [SP] @ sk_local r @ [SP] @ sk_remote r @ [SP] @ ?t3) = ([SHex (of_nat (sk_state r))], False)"
    using scan_skip_Ws [OF ok(1) h(2,1) [OF ok(2)]] scan_skip_Ws [OF ok(2) h(2,1) [OF ok(3)]]
      scan_skip_Ws [OF ok(3), of ?t3]
    by (simp add: isspace_def del: scan_dirs.simps)
  moreover have "scan1 Ws (sock_text r @ [NL]) =
      Match None (sk_slot r @ [SP] @ sk_local r @ [SP] @ sk_remote r @ [SP] @ ?t3)"
    using scan_Ws [OF h(2,1) [OF ok(1)], of 2] by (simp add: sock_text_def numeral_2_eq_2)
  ultimately have "scan_dirs [Ws, SkipStr, Ws, SkipStr, Ws, SkipStr, Ws, Hex] (sock_text r @ [NL]) = ([SHex (of_nat (sk_state r))], False)"
    by (simp only: scan_dirs.simps(2) [of Ws] scan_res.case option.case prod.case)
  moreover have "unat (of_nat (sk_state r) :: 32 word) = sk_state r" using ok(4) by (simp add: unat_of_nat)
  ultimately show ?thesis using ok(5) by (auto simp: tcp_state_def sscanf_plain fscanf_def Let_def)
qed

lemma tcp_lines_text:
  assumes "os_fopen env (snprintf_buf 1024 (base @ f)) = Inr (unlines (h # map sock_text rows))"
    "line_ok 512 h" "list_all sock_ok rows"
  shows "tcp_lines env base f = map (\<lambda>r. sock_text r @ [NL]) rows"
proof -
  have "list_all (line_ok 512) (h # map sock_text rows)" using assms(2,3) by (auto simp: list_all_iff sock_ok_def)
  from fgets_lines_unlines [OF this] show ?thesis using assms(1) by (simp add: tcp_lines_def)
qed

lemma count_sockets:
  assumes "list_all sock_ok rows" "1 \<le> i" "i < TCP_STATE_MAX"
  shows "length (filter (\<lambda>l. tcp_state l = Some i) (map (\<lambda>r. sock_text r @ [NL]) rows)) =
     length (filter (\<lambda>r. sk_state r = i) rows)"
  using assms(1)
proof (induction rows)
  case (Cons r rows)
  then have "tcp_state (sock_text r @ [NL]) = Some i \<longleftrightarrow> sk_state r = i"
    using tcp_state_text [of r] assms(2,3) by auto
  with Cons show ?case by simp
qed simp

definition sock_metrics :: "sock_row list \<Rightarrow> metric list" where
  \<comment> \<open>one metric for each known state that occurs\<close>
  "sock_metrics rows =
     concat (map (\<lambda>i. let n = length (filter (\<lambda>r. sk_state r = i) rows)
                      in if n = 0 then [] else [tcp_metric (TCP_STATE_NAMES ! i) (int n)]) [1..<TCP_STATE_MAX])"

lemma tcpconns_read_text:
  assumes "os_fopen env (snprintf_buf 1024 (base @ ''/net/tcp'')) = Inr (unlines (h4 # map sock_text rows4))"
    "os_fopen env (snprintf_buf 1024 (base @ ''/net/tcp6'')) = Inr (unlines (h6 # map sock_text rows6))"
    "line_ok 512 h4" "line_ok 512 h6" "list_all sock_ok rows4" "list_all sock_ok rows6"
  shows "tcpconns_read env base s = Some (0, map Emit (sock_metrics (rows4 @ rows6)), s)"
proof -
  obtain cnt where scan: "tcp_scan env base = (cnt, 2, [])"
    using assms(1,2) by (simp add: tcp_scan_def FILES_def tcp_file_def)
  then have r: "tcpconns_read env base s = Some (0, map Emit (tcp_emit cnt), s)" by (simp add: tcpconns_read_def)
  have n: "tcp_sockets env base i = length (filter (\<lambda>r. sk_state r = i) (rows4 @ rows6))"
    if "1 \<le> i" "i < TCP_STATE_MAX" for i
    using tcp_lines_text [OF assms(1,3,5)] tcp_lines_text [OF assms(2,4,6)]
      count_sockets [OF assms(5) that] count_sockets [OF assms(6) that]
    by (simp add: tcp_sockets_def)
  have "emitted (map Emit (tcp_emit cnt)) = concat (map (\<lambda>i. if tcp_sockets env base i = 0 then []
      else [tcp_metric (TCP_STATE_NAMES ! i) (int (tcp_sockets env base i))]) [1..<TCP_STATE_MAX])"
    by (rule tcpconns_counts [OF r])
  also have "\<dots> = sock_metrics (rows4 @ rows6)"
    unfolding sock_metrics_def Let_def by (intro arg_cong [of _ _ concat] map_cong refl) (simp add: n)
  finally show ?thesis by (simp add: r)
qed

lemma mem_value_nonneg: "0 \<le> d \<Longrightarrow> 0 \<le> mem_value rows key d"
  unfolding mem_value_def by (induction rows arbitrary: d) simp_all

end
