(* ===== verification/ProcPids.thy ===== *)
theory ProcPids
  imports ProcFiles
begin

text \<open>
  The three files of a process, \<^verbatim>\<open>comm\<close>, \<^verbatim>\<open>stat\<close> and \<^verbatim>\<open>statm\<close>, as the kernel prints them, and that the
  processes reader recovers the numbers it needs whatever the name of the process holds: the name is
  taken from \<^verbatim>\<open>comm\<close>, and in \<^verbatim>\<open>stat\<close> everything up to the last parenthesis is skipped.
\<close>

section \<open>Signed columns read as unsigned numbers\<close>

lemma strtoul_show_int:
  assumes "ends_number rest" "\<bar>i\<bar> < 2 ^ 64"
  shows "strtoul (show_int i @ rest) = Some (of_int i, rest)"
proof (cases "i < 0")
  case True
  have "\<not> 2 ^ 64 \<le> nat (- i)" using assms(2) True by (simp add: le_nat_iff)
  then show ?thesis
    using True digits_take [OF assms(1)] by (simp add: show_int_def strtoul_def scan_sign_def clamp_ulong_def Let_def)
next
  case False
  then have "\<not> 2 ^ 64 \<le> nat i" using assms(2) by (simp add: le_nat_iff)
  then show ?thesis
    using False digits_take [OF assms(1)] scan_sign_digit [OF _ hd_show_nat, of "nat i" rest]
    by (simp add: show_int_def strtoul_def clamp_ulong_def Let_def)
qed

lemma show_int_hd: "show_int i @ rest \<noteq> []" "\<not> isspace (hd (show_int i @ rest))"
  using isdigit_not_space [OF hd_show_nat] by (auto simp: show_int_def isspace_def)

definition int_columns :: "int list \<Rightarrow> string" where
  "int_columns is = concat (map (\<lambda>i. SP # show_int i) is)"

lemma ends_number_int_columns: "ends_number rest \<Longrightarrow> ends_number (int_columns is @ rest)"
  by (cases "is") (auto simp: ends_number_def int_columns_def)

lemma scan_ULong: "ends_number rest \<Longrightarrow> \<bar>i\<bar> < 2 ^ 64 \<Longrightarrow> scan1 ULong (show_int i @ rest) = Match (Some (SULong (of_int i))) rest"
  using scan_tok_blanks [OF show_int_hd, of strtoul "\<lambda>v. Some (SULong v)" 0 i rest] strtoul_show_int [of rest i] by simp

lemma scan_int_columns:
  assumes "list_all (\<lambda>i. \<bar>i\<bar> < 2 ^ 64) is" "ends_number rest"
  shows "scan_dirs (concat (replicate (length is) [Ws, ULong])) (int_columns is @ rest) = (map (\<lambda>i. SULong (of_int i)) is, False)"
  using assms(1)
proof (induction "is")
  case Nil
  show ?case by (simp add: int_columns_def)
next
  case (Cons i "is")
  have "scan1 Ws (SP # show_int i @ int_columns is @ rest) = Match None (show_int i @ int_columns is @ rest)"
    using scan_Ws [OF show_int_hd, of 1] by simp
  moreover have "scan1 ULong (show_int i @ int_columns is @ rest) = Match (Some (SULong (of_int i))) (int_columns is @ rest)"
    using Cons.prems by (intro scan_ULong ends_number_int_columns [OF assms(2)]) simp
  moreover have "int_columns (i # is) @ rest = SP # show_int i @ int_columns is @ rest" by (simp add: int_columns_def)
  ultimately show ?case using Cons by (simp del: scan1.simps)
qed

section \<open>Processes\<close>

record proc_row =
  pr_pid :: nat
  pr_comm :: string
  pr_state :: string
  pr_flds :: "int list"
  pr_tail :: string
  pr_size :: nat
  pr_resident :: nat
  pr_mtail :: string

abbreviation pr_utime :: "proc_row \<Rightarrow> int" where "pr_utime r \<equiv> pr_flds r ! 10"
abbreviation pr_stime :: "proc_row \<Rightarrow> int" where "pr_stime r \<equiv> pr_flds r ! 11"
abbreviation pr_threads :: "proc_row \<Rightarrow> int" where "pr_threads r \<equiv> pr_flds r ! 16"

definition pid_stat_text :: "proc_row \<Rightarrow> string" where
  \<comment> \<open>\<open>pid (comm) state ppid pgrp ...\<close>\<close>
  "pid_stat_text r = show_nat (pr_pid r) @ '' ('' @ pr_comm r @ '')'' @ [SP] @ pr_state r
     @ int_columns (pr_flds r) @ [SP] @ pr_tail r"

definition statm_text :: "proc_row \<Rightarrow> string" where
  "statm_text r = show_int (int (pr_size r)) @ int_columns [int (pr_resident r)] @ [SP] @ pr_mtail r"

definition proc_ok :: "proc_row \<Rightarrow> bool" where
  "proc_ok r \<longleftrightarrow> pr_comm r \<noteq> [] \<and> CR \<notin> set (pr_comm r) \<and> line_ok COMM_LEN (pr_comm r)
     \<and> is_token (pr_state r) \<and> CHR '')'' \<notin> set (pr_state r) \<and> CHR '')'' \<notin> set (pr_tail r)
     \<and> length (pr_flds r) = 17 \<and> list_all (\<lambda>i. \<bar>i\<bar> < 2 ^ 64) (pr_flds r)
     \<and> 0 \<le> pr_utime r \<and> 0 \<le> pr_stime r \<and> 0 \<le> pr_threads r
     \<and> pr_size r < 2 ^ 64 \<and> pr_resident r < 2 ^ 64
     \<and> line_ok 1024 (pid_stat_text r) \<and> line_ok 256 (statm_text r)"

definition proc_shown :: "osenv \<Rightarrow> string \<Rightarrow> proc_row \<Rightarrow> bool" where
  "proc_shown env base r \<longleftrightarrow> (let f = (\<lambda>n. os_fopen env (proc_path base (show_nat (pr_pid r)) n))
     in f ''comm'' = Inr (pr_comm r @ [NL]) \<and> f ''stat'' = Inr (pid_stat_text r @ [NL])
      \<and> f ''statm'' = Inr (statm_text r @ [NL]))"

definition sample_of :: "int \<Rightarrow> proc_row \<Rightarrow> proc_sample" where
  "sample_of psz r =
     \<lparr>ps_comm = pr_comm r, ps_utime = of_int (pr_utime r), ps_stime = of_int (pr_stime r),
      ps_threads = of_int (pr_threads r), ps_rss = of_int (int (pr_resident r) * psz)\<rparr>"

lemma fgets_line: "line_ok n l \<Longrightarrow> fgets n (l @ [NL]) = Some (l @ [NL])"
  using fgets_split_line [of l "n - 1" "[]"] cstr_id [of "l @ [NL]"] by (auto simp: fgets_def line_ok_def)

lemma read_comm_text:
  assumes "proc_ok r" "proc_shown env base r"
  shows "read_comm env base (show_nat (pr_pid r)) = Some (pr_comm r)"
  using assms fgets_line [of COMM_LEN "pr_comm r"] strip_eol_line [of "pr_comm r"]
  by (simp add: read_comm_def first_line_def proc_ok_def proc_shown_def line_ok_def)

lemma read_stat_text:
  assumes "proc_ok r" "proc_shown env base r"
  shows "read_stat env base (show_nat (pr_pid r)) = Some (of_int (pr_utime r), of_int (pr_stime r), of_int (pr_threads r))"
proof -
  note ok = assms(1) [unfolded proc_ok_def]
  let ?rest = "[SP] @ pr_tail r @ [NL]"
  let ?t = "[SP] @ pr_state r @ int_columns (pr_flds r) @ ?rest"
  have s: "pid_stat_text r @ [NL] = (show_nat (pr_pid r) @ '' ('' @ pr_comm r) @ CHR '')'' # ?t"
    by (simp add: pid_stat_text_def)
  have "CHR '')'' \<notin> set (int_columns is)" for "is"
    using show_int_chars [of "CHR '')''"] by (auto simp: int_columns_def isdigit_def)
  then have sp: "strrchr_split (pid_stat_text r @ [NL]) (CHR '')'') = Some (show_nat (pr_pid r) @ '' ('' @ pr_comm r, ?t)"
    unfolding s using ok by (intro strrchr_split_append) simp
  have "scan1 SkipStr ?t = Match None (int_columns (pr_flds r) @ ?rest)"
    using scan_SkipStr [of "pr_state r" "int_columns (pr_flds r) @ ?rest" 1] ok
    by (cases "pr_flds r") (simp_all add: int_columns_def del: scan1.simps)
  moreover have "scan_dirs (concat (replicate 17 [Ws, ULong])) (int_columns (pr_flds r) @ ?rest)
      = (map (\<lambda>i. SULong (of_int i)) (pr_flds r), False)"
    using scan_int_columns [of "pr_flds r" ?rest] ok by (simp add: ends_number_def)
  ultimately have sc: "scan_dirs stat_format ?t = (map (\<lambda>i. SULong (of_int i)) (pr_flds r), False)"
    unfolding stat_format_def by (simp only: scan_dirs.simps(2) [of SkipStr] scan_res.case option.case prod.case)
  have "NUL \<notin> set (pid_stat_text r @ [NL])" using ok by (simp add: line_ok_def)
  then have "NUL \<notin> set ?t" unfolding s by simp
  with sc have "sscanf stat_format ?t = (17, map (\<lambda>i. SULong (of_int i)) (pr_flds r))"
    using ok sscanf_plain [of ?t stat_format] by (simp add: fscanf_def del: append_Cons)
  with sp show ?thesis
    using ok assms(2) fgets_line [of 1024 "pid_stat_text r"]
    by (simp add: read_stat_def first_line_def proc_shown_def del: append_Cons)
qed

lemma read_statm_text:
  assumes "proc_ok r" "proc_shown env base r"
  shows "read_statm env base (show_nat (pr_pid r)) = Some (of_nat (pr_resident r))"
proof -
  note ok = assms(1) [unfolded proc_ok_def]
  let ?rest = "[SP] @ pr_mtail r @ [NL]" and ?n = "int (pr_resident r)"
  have b: "\<bar>int (pr_size r)\<bar> < 2 ^ 64" "\<bar>?n\<bar> < 2 ^ 64" using ok by (simp_all add: of_nat_less_numeral_power_cancel_iff)
  have t: "statm_text r @ [NL] = show_int (int (pr_size r)) @ int_columns [?n] @ ?rest" by (simp add: statm_text_def)
  have e: "ends_number ?rest" by (simp add: ends_number_def)
  have "scan_dirs [Ws, ULong] (int_columns [?n] @ ?rest) = ([SULong (of_int ?n)], False)"
    using scan_int_columns [OF _ e, of "[?n]"] b by simp
  moreover have "scan1 ULong (statm_text r @ [NL]) = Match (Some (SULong (of_int (int (pr_size r))))) (int_columns [?n] @ ?rest)"
    unfolding t by (rule scan_ULong [OF ends_number_int_columns [OF e] b(1)])
  ultimately have sc: "scan_dirs [ULong, Ws, ULong] (statm_text r @ [NL]) = ([SULong (of_int (int (pr_size r))), SULong (of_int ?n)], False)"
    by (simp only: scan_dirs.simps(2) [of ULong "[Ws, ULong]"] scan_res.case option.case prod.case)
  have "NUL \<notin> set (statm_text r @ [NL])" using ok by (simp add: line_ok_def)
  from sscanf_plain [OF this, of "[ULong, Ws, ULong]"]
  have "sscanf [ULong, Ws, ULong] (statm_text r @ [NL]) = (2, [SULong (of_int (int (pr_size r))), SULong (of_int ?n)])"
    unfolding fscanf_def sc by simp
  then show ?thesis
    using ok assms(2) fgets_line [of 256 "statm_text r"] by (simp add: read_statm_def first_line_def proc_shown_def)
qed

lemma is_numeric_show: "is_numeric (show_nat n)"
  by (auto simp: is_numeric_def list_all_iff isdigit_def dest!: show_nat_isdigit)

lemma read_pid_text:
  assumes "proc_ok r" "proc_shown env base r"
  shows "read_pid env base (show_nat (pr_pid r)) = Some (sample_of (page_size env) r)"
  by (simp add: read_pid_def is_numeric_show read_comm_text [OF assms] read_stat_text [OF assms]
      read_statm_text [OF assms] sample_of_def)

definition gone :: "osenv \<Rightarrow> string \<Rightarrow> string \<Rightarrow> bool" where
  \<comment> \<open>the process ended after its entry was read\<close>
  "gone env base n \<longleftrightarrow> isl (os_fopen env (proc_path base n ''comm''))"

lemma read_pid_other: "\<not> is_numeric n \<or> gone env base n \<Longrightarrow> read_pid env base n = None"
  by (auto simp: read_pid_def gone_def read_comm_def first_line_def split: sum.splits)

lemma samples_text:
  assumes "filter (\<lambda>n. is_numeric n \<and> \<not> gone env base n) names = map (\<lambda>r. show_nat (pr_pid r)) rows"
    "list_all proc_ok rows" "list_all (proc_shown env base) rows"
  shows "samples env base names = map (sample_of (page_size env)) rows"
proof -
  have "samples env base names = samples env base (filter (\<lambda>n. is_numeric n \<and> \<not> gone env base n) names)"
    by (induction names) (auto simp: samples_Cons read_pid_other split: option.splits)
  also have "\<dots> = map (sample_of (page_size env)) rows"
    unfolding assms(1) using assms(2,3)
    by (induction rows) (simp_all add: samples_Cons read_pid_text, simp add: samples_def map_filter_simps)
  finally show ?thesis .
qed

section \<open>Sums of words\<close>

lemma sum_list_of_int: "sum_list (map (\<lambda>x. of_int (f x)) xs) = (of_int (sum_list (map f xs)) :: 'a::len word)"
  by (induction xs) simp_all

lemma sum_list_filter_le:
  fixes f :: "'a \<Rightarrow> int"
  assumes "list_all (\<lambda>x. 0 \<le> f x) xs"
  shows "0 \<le> sum_list (map f (filter P xs)) \<and> sum_list (map f (filter P xs)) \<le> sum_list (map f xs)"
  using assms by (induction xs) auto

lemma uint_sum_filter:
  fixes f :: "'a \<Rightarrow> int"
  assumes "list_all (\<lambda>x. 0 \<le> f x) xs" "sum_list (map f xs) < 2 ^ 64"
  shows "uint (sum_list (map (\<lambda>x. of_int (f x) :: 64 word) (filter P xs))) = sum_list (map f (filter P xs))"
  using sum_list_filter_le [OF assms(1), of P] assms(2) by (simp add: sum_list_of_int uint_word_of_int)

lemma sint_ucast_small:
  assumes "0 \<le> i" "i < 2 ^ 31"
  shows "sint (ucast (of_int i :: 64 word) :: 32 word) = i"
proof -
  have "(ucast (of_int i :: 64 word) :: 32 word) = of_int i"
    using assms by (intro word_uint_eqI) (simp add: unsigned_ucast_eq uint_word_of_int take_bit_eq_mod)
  moreover have "sint (of_int i :: 32 word) = i"
    using assms by (simp add: signed_of_int signed_take_bit_int_eq_self)
  ultimately show ?thesis by simp
qed

section \<open>What the reader emits\<close>

definition proc_metrics :: "int \<Rightarrow> string \<Rightarrow> proc_row list \<Rightarrow> metric list" where
  \<comment> \<open>resident bytes, user and system time, processes and threads of the processes with one name\<close>
  "proc_metrics psz c g =
     [ps_metric c ''ps_rss'' 1 [double_of_int (sum_list (map (\<lambda>r. int (pr_resident r) * psz) g))],
      ps_metric c ''ps_cputime'' 2
        [double_of_int (sum_list (map (\<lambda>r. pr_utime r) g)), double_of_int (sum_list (map (\<lambda>r. pr_stime r) g))],
      ps_metric c ''ps_count'' 2
        [double_of_int (int (length g)), double_of_int (sum_list (map (\<lambda>r. pr_threads r) g))]]"

definition machine_ok :: "int \<Rightarrow> proc_row list \<Rightarrow> bool" where
  \<comment> \<open>the totals of the whole machine fit their types\<close>
  "machine_ok psz rows \<longleftrightarrow> sum_list (map (\<lambda>r. int (pr_resident r) * psz) rows) < 2 ^ 64
     \<and> sum_list (map (\<lambda>r. pr_utime r) rows) < 2 ^ 64 \<and> sum_list (map (\<lambda>r. pr_stime r) rows) < 2 ^ 64
     \<and> sum_list (map (\<lambda>r. pr_threads r) rows) < 2 ^ 31"

lemma threads_of_sample:
  assumes "list_all proc_ok rows" "machine_ok psz rows" "r \<in> set rows"
  shows "threads_of (sample_of psz r) = pr_threads r"
proof -
  have nn: "list_all (\<lambda>r. 0 \<le> pr_threads r) rows" using assms(1) by (auto simp: list_all_iff proc_ok_def)
  then have "pr_threads r \<le> sum_list (map (\<lambda>r. pr_threads r) rows)"
    using assms(3) by (intro member_le_sum_list) (auto simp: list_all_iff)
  moreover have "0 \<le> pr_threads r" using nn assms(3) by (simp add: list_all_iff)
  ultimately show ?thesis
    using assms(2) sint_ucast_small [of "pr_threads r"] by (simp add: threads_of_def sample_of_def machine_ok_def)
qed

lemma totals_text:
  assumes "list_all proc_ok rows" "machine_ok psz rows" "0 \<le> psz"
  shows "agg_emit (totals c (map (sample_of psz) rows)) = proc_metrics psz c (filter (\<lambda>r. pr_comm r = c) rows)"
proof -
  let ?P = "\<lambda>r. pr_comm r = c"
  have g: "group c (map (sample_of psz) rows) = map (sample_of psz) (filter ?P rows)"
    by (simp add: group_def filter_map comp_def sample_of_def)
  have nn: "list_all (\<lambda>r. 0 \<le> int (pr_resident r) * psz) rows" "list_all (\<lambda>r. 0 \<le> pr_utime r) rows"
    "list_all (\<lambda>r. 0 \<le> pr_stime r) rows"
    using assms(1,3) by (auto simp: list_all_iff proc_ok_def)
  have "uint (sum_list (map (\<lambda>r. of_int (f r) :: 64 word) (filter ?P rows))) = sum_list (map f (filter ?P rows))"
    if "f \<in> {\<lambda>r. int (pr_resident r) * psz, \<lambda>r. pr_utime r, \<lambda>r. pr_stime r}" for f
    using that nn assms(2) by (intro uint_sum_filter) (auto simp: machine_ok_def)
  then have u: "uint (rss_sum (totals c (map (sample_of psz) rows))) = sum_list (map (\<lambda>r. int (pr_resident r) * psz) (filter ?P rows))"
    "uint (utime_sum (totals c (map (sample_of psz) rows))) = sum_list (map (\<lambda>r. pr_utime r) (filter ?P rows))"
    "uint (stime_sum (totals c (map (sample_of psz) rows))) = sum_list (map (\<lambda>r. pr_stime r) (filter ?P rows))"
    by (simp_all add: totals_def g comp_def sample_of_def del: of_int_mult of_int_of_nat_eq)
  have "map (threads_of \<circ> sample_of psz) (filter ?P rows) = map (\<lambda>r. pr_threads r) (filter ?P rows)"
    using threads_of_sample [OF assms(1,2)] by simp
  then have "threads_sum (totals c (map (sample_of psz) rows)) = sum_list (map (\<lambda>r. pr_threads r) (filter ?P rows))"
    "proc_count (totals c (map (sample_of psz) rows)) = int (length (filter ?P rows))"
    by (simp_all add: totals_def g del: map_eq_conv)
  with u show ?thesis by (simp add: agg_emit_def proc_metrics_def)
qed

lemma processes_read_text:
  assumes "os_opendir env base = Inr names" "int (length names) < 2 ^ 31"
    "filter (\<lambda>n. is_numeric n \<and> \<not> gone env base n) names = map (\<lambda>r. show_nat (pr_pid r)) rows"
    "list_all proc_ok rows" "list_all (proc_shown env base) rows" "machine_ok (page_size env) rows"
  shows "processes_read env base s = Some (0, map Emit (concat (map
       (\<lambda>c. proc_metrics (page_size env) c (filter (\<lambda>r. pr_comm r = c) rows)) (take 256 (firsts (map pr_comm rows))))), s)"
proof -
  let ?ps = "map (sample_of (page_size env)) rows"
  note sm = samples_text [OF assms(3-5)] and th = threads_of_sample [OF assms(4,6)]
  have t: "map threads_of ?ps = map (\<lambda>r. pr_threads r) rows" using th by simp
  have nn: "list_all (\<lambda>p. 0 \<le> threads_of p) ?ps"
    using assms(4) th by (auto simp: list_all_iff proc_ok_def)
  have lt: "sum_list (map threads_of ?ps) < 2 ^ 31" unfolding t using assms(6) by (simp add: machine_ok_def)
  have "0 \<le> page_size env" by (simp add: page_size_def)
  note tx = totals_text [OF assms(4,6) this]
  have cm: "ps_comm (sample_of z r) = pr_comm r" for z r by (simp add: sample_of_def)
  have "map (\<lambda>c. agg_emit (totals c ?ps)) cs = map (\<lambda>c. proc_metrics (page_size env) c (filter (\<lambda>r. pr_comm r = c) rows)) cs" for cs
    by (simp add: tx)
  then show ?thesis
    using processes_read_defined [OF assms(1), unfolded sm, OF nn lt assms(2), of s]
    by (simp only: agg_spec_def map_map comp_def cm MAX_COMMS_def)
qed

end
