(* ===== verification/ReaderProps.thy ===== *)
theory ReaderProps
  imports ProcPids
begin

text \<open>
  What the readers measure, stated over the kernel's files as \<open>ProcFiles\<close> prints them: every reader
  recovers the printed numbers and emits the metrics they stand for.
\<close>

definition demo_env :: osenv where
  \<comment> \<open>a machine that has been up for 42 seconds and shows nothing else\<close>
  "demo_env =
     \<lparr>os_fopen = (\<lambda>p. if p = ''/proc/uptime'' then Inr ''42.00 7.50'' else Inl ''No such file or directory''),
      os_opendir = (\<lambda>_. Inl ''No such file or directory''), os_statvfs = (\<lambda>_. None),
      os_pagesize = 4096, os_regcomp_ok = True\<rparr>"

definition text_env :: "string \<Rightarrow> osenv" where
  \<comment> \<open>every file holds the text\<close>
  "text_env t = demo_env\<lparr>os_fopen := (\<lambda>_. Inr t)\<rparr>"

lemma text_env_fopen [simp]: "os_fopen (text_env t) p = Inr t"
  by (simp add: text_env_def)

lemma text_env_regcomp [simp]: "os_regcomp_ok (text_env t)"
  by (simp add: text_env_def demo_env_def)

lemmas text_ok_defs = line_ok_def is_token_def columns_ok_def columns_def cstr_defs

section \<open>Processor and memory\<close>


definition ticks :: "nat list \<Rightarrow> column list" where
  "ticks vs = map (\<lambda>v. (0, v)) vs"


text \<open>C25: The memory reader emits used, cached and buffered memory as percentages of the total, each
  finite and between 0 and 100, from the lines of \<^verbatim>\<open>/proc/meminfo\<close>, in any order and among any others.\<close>

theorem memory_percentages:
  assumes "os_fopen env (snprintf_buf 1024 (base @ ''/meminfo'')) = Inr (unlines (map mem_text rows))"
    "list_all mem_row_ok rows" "t = mem_value rows ''MemTotal'' (- 1)" "f = mem_value rows ''MemFree'' 0"
    "b = mem_value rows ''Buffers'' 0" "c = mem_value rows ''Cached'' 0" "0 < t" "t \<le> 2 ^ 46" "f + b + c \<le> t"
  shows "memory_read env base s = Some (0, [Emit (memory_metric ''used'' (percent (t - f - b - c) t)),
       Emit (memory_metric ''cached'' (percent c t)), Emit (memory_metric ''buffered'' (percent b t))], s)
     \<and> list_all (\<lambda>v. isfinite v \<and> 0 \<le> dval v \<and> dval v \<le> 100) [percent (t - f - b - c) t, percent c t, percent b t]"
proof -
  have m: "meminfo_of (unlines (map mem_text rows)) = \<lparr>mem_total = t, mem_free = f, buffers = b, cached = c\<rparr>"
    using meminfo_of_text [OF assms(2)] by (simp add: assms(3-6))
  have nn: "0 \<le> f" "0 \<le> b" "0 \<le> c" unfolding assms(4-6) by (simp_all add: mem_value_nonneg)
  have "meminfo_ok (meminfo_of (unlines (map mem_text rows)))"
    using nn assms(7-9) by (simp add: m meminfo_ok_def mem_used_def)
  from memory_read_ok [OF assms(1) this, of s]
  have r: "memory_read env base s = Some (0, [Emit (memory_metric ''used'' (percent (t - f - b - c) t)),
       Emit (memory_metric ''cached'' (percent c t)), Emit (memory_metric ''buffered'' (percent b t))], s)"
    by (simp add: m mem_used_def)
  have "isfinite (percent a t) \<and> 0 \<le> dval (percent a t) \<and> dval (percent a t) \<le> 100" if "0 \<le> a" "a \<le> t" for a
    using that assms(7,8) by (intro percent_range) simp_all
  then show ?thesis using r nn assms(9) by simp
qed

definition mem_rows :: "mem_row list" where
  "mem_rows = map (\<lambda>(k, v). \<lparr>mr_key = k, mr_val = (6, v), mr_unit = '' kB''\<rparr>)
     [(''MemTotal'', 1000), (''MemFree'', 300), (''Buffers'', 100), (''Cached'', 200), (''SwapCached'', 5),
      (''SwapTotal'', 64), (''SwapFree'', 48)]"

lemma mem_rows_ok: "list_all mem_row_ok mem_rows"
  by (simp add: mem_rows_def mem_row_ok_def mem_text_def text_ok_defs ends_number_def)

theorem memory_percentages_witness:
  "memory_read (text_env (unlines (map mem_text mem_rows))) ''/proc'' rstate_init
     = Some (0, [Emit (memory_metric ''used'' (percent 400 1000)), Emit (memory_metric ''cached'' (percent 200 1000)),
                 Emit (memory_metric ''buffered'' (percent 100 1000))], rstate_init)
   \<and> list_all (\<lambda>v. isfinite v \<and> 0 \<le> dval v \<and> dval v \<le> 100) [percent 400 1000, percent 200 1000, percent 100 1000]"
  using memory_percentages [OF text_env_fopen mem_rows_ok refl refl refl refl, of "''/proc''" rstate_init]
  by (simp add: mem_value_def mem_rows_def)

text \<open>C29: Used and free swap space are emitted in bytes, exactly.\<close>

theorem swap_read_back:
  assumes "os_fopen env (snprintf_buf 1024 (base @ ''/meminfo'')) = Inr (unlines (map mem_text rows))"
    "list_all mem_row_ok rows" "t = mem_value rows ''SwapTotal'' (- 1)" "f = mem_value rows ''SwapFree'' 0"
    "0 < t" "f \<le> t" "t \<le> 2 ^ 43"
  shows "\<exists>u v. swap_read env base s = Some (0, [Emit (swap_metric ''used'' u), Emit (swap_metric ''free'' v)], s)
     \<and> isfinite u \<and> dval u = 1024 * real_of_int (t - f) \<and> isfinite v \<and> dval v = 1024 * real_of_int f"
  using swap_read_text [OF assms(1-5) _ assms(6,7)] mem_value_nonneg [of 0 rows "''SwapFree''"] assms(4) by simp

theorem swap_read_back_witness:
  "\<exists>u v. swap_read (text_env (unlines (map mem_text mem_rows))) ''/proc'' rstate_init
         = Some (0, [Emit (swap_metric ''used'' u), Emit (swap_metric ''free'' v)], rstate_init)
     \<and> isfinite u \<and> dval u = 16384 \<and> isfinite v \<and> dval v = 49152"
  using swap_read_back [OF text_env_fopen mem_rows_ok refl refl, of "''/proc''" rstate_init]
  by (simp add: mem_value_def mem_rows_def)

text \<open>C30: The load averages and the uptime are the decimal fractions the kernel shows, rounded to the
  nearest double, whatever follows them in the files.\<close>

theorem load_and_uptime_read_back:
  assumes "os_fopen env (snprintf_buf 1024 (base @ ''/loadavg'')) = Inr (loadavg_text a b c r1)"
    "os_fopen env (snprintf_buf 1024 (base @ ''/uptime'')) = Inr (uptime_text u r2)"
  shows "load_read env base s = Some (0,
       [Emit (load_metric [round_ratio False a 100, round_ratio False b 100, round_ratio False c 100])], s)
     \<and> uptime_read env base s = Some (0, [Emit (uptime_metric (round_ratio False u 100))], s)"
  using load_read_text [OF assms(1)] uptime_read_text [OF assms(2)] by simp

theorem load_and_uptime_read_back_witness:
  "let env = text_env (loadavg_text 25 50 175 ''1/93 417'')
   in load_read env ''/proc'' rstate_init = Some (0,
       [Emit (load_metric [round_ratio False 25 100, round_ratio False 50 100, round_ratio False 175 100])], rstate_init)
     \<and> uptime_read env ''/proc'' rstate_init = Some (0, [Emit (uptime_metric (round_ratio False 25 100))], rstate_init)"
  using load_and_uptime_read_back [of "text_env (loadavg_text 25 50 175 ''1/93 417'')" "''/proc''" 25 50 175 "''1/93 417''"
      25 "show_hundredths 50 @ [SP] @ show_hundredths 175 @ [SP] @ ''1/93 417''" rstate_init]
  by (simp add: loadavg_text_def uptime_text_def)

section \<open>Network\<close>

text \<open>C20: Every interface but the loopback is reported with its received and sent bytes, packets and
  errors, exactly the counters of its line in \<^verbatim>\<open>/proc/net/dev\<close>, in the order of the file.\<close>

theorem interfaces_read_back:
  assumes "os_fopen env (snprintf_buf 1024 (base @ ''/net/dev'')) = Inr (netdev_text h1 h2 rows)"
    "line_ok 512 h1" "line_ok 512 h2" "list_all iface_ok rows"
  shows "interface_read env base s = Some (0, map Emit (concat (map iface_metrics rows)), s)"
  by (rule interface_read_text [OF assms])

definition demo_ifaces :: "iface_row list" where
  "demo_ifaces = [\<lparr>if_pad = 4, if_name = ''lo'', if_cols = ticks [7, 1, 0, 0, 0, 0, 0, 0, 7, 1, 0, 0, 0, 0, 0, 0]\<rparr>,
     \<lparr>if_pad = 2, if_name = ''eth0'', if_cols = ticks [900, 9, 1, 0, 0, 0, 0, 0, 600, 6, 2, 0, 0, 0, 0, 0]\<rparr>]"

theorem interfaces_read_back_witness:
  "interface_read (text_env (netdev_text ''Inter-'' '' face'' demo_ifaces)) ''/proc'' rstate_init = Some (0,
     [Emit (interface_metric ''eth0'' ''if_octets'' 900 600), Emit (interface_metric ''eth0'' ''if_packets'' 9 6),
      Emit (interface_metric ''eth0'' ''if_errors'' 1 2)], rstate_init)"
proof -
  have "list_all iface_ok demo_ifaces"
    by (simp add: demo_ifaces_def iface_ok_def iface_text_def ticks_def text_ok_defs)
  moreover have "line_ok 512 ''Inter-''" "line_ok 512 '' face''" by (simp_all add: line_ok_def cstr_defs)
  ultimately show ?thesis
    using interfaces_read_back [OF text_env_fopen, of "''Inter-''" "'' face''" demo_ifaces]
    by (simp add: demo_ifaces_def iface_metrics_def ticks_def)
qed

text \<open>C26: The connection reader counts, over both address families, the sockets the kernel lists in each
  state, and emits one metric for each of the eleven states that occurs.\<close>

theorem tcp_sockets_counted:
  assumes "os_fopen env (snprintf_buf 1024 (base @ ''/net/tcp'')) = Inr (unlines (h4 # map sock_text rows4))"
    "os_fopen env (snprintf_buf 1024 (base @ ''/net/tcp6'')) = Inr (unlines (h6 # map sock_text rows6))"
    "line_ok 512 h4" "line_ok 512 h6" "list_all sock_ok rows4" "list_all sock_ok rows6"
  shows "tcpconns_read env base s = Some (0, map Emit (concat (map (\<lambda>i.
       let n = length (filter (\<lambda>r. sk_state r = i) (rows4 @ rows6))
       in if n = 0 then [] else [tcp_metric (TCP_STATE_NAMES ! i) (int n)]) [1..<TCP_STATE_MAX])), s)"
  using tcpconns_read_text [OF assms] by (simp only: sock_metrics_def)

definition demo_sock :: sock_row where
  "demo_sock = \<lparr>sk_slot = ''0:'', sk_local = ''0100007F:1F90'', sk_remote = ''00000000:0000'', sk_state = 10,
     sk_tail = ''00000000:00000000''\<rparr>"

theorem tcp_sockets_counted_witness:
  "tcpconns_read (text_env (unlines (''sl'' # map sock_text [demo_sock]))) ''/proc'' rstate_init
     = Some (0, [Emit (tcp_metric ''LISTEN'' 2)], rstate_init)"
proof -
  have "list_all sock_ok [demo_sock]" by (simp add: demo_sock_def sock_ok_def sock_text_def hex_digit_def text_ok_defs)
  moreover have "line_ok 512 ''sl''" by (simp add: line_ok_def cstr_defs)
  ultimately show ?thesis
    using tcp_sockets_counted [where env = "text_env (unlines (''sl'' # map sock_text [demo_sock]))" and base = "''/proc''"
      and s = rstate_init, OF text_env_fopen text_env_fopen]
    by (simp add: demo_sock_def TCP_STATE_MAX_def TCP_STATE_NAMES_def upt_rec numeral_2_eq_2)
qed

section \<open>Disks and file systems\<close>

text \<open>C21: Every whole device is reported with its completed reads and writes, the bytes they moved (sectors
  of 512 bytes) and their time, from its line in \<^verbatim>\<open>/proc/diskstats\<close>, whatever columns a newer kernel
  appends; the compiled expression is kept for the next cycle.\<close>

theorem disks_read_back:
  assumes "os_fopen env (snprintf_buf 1024 (base @ ''/diskstats'')) = Inr (unlines (map disk_text rows))"
    "list_all disk_ok rows" "re_ready s \<or> os_regcomp_ok env"
  shows "disk_read env base s = Some (0, map Emit (concat (map disk_metrics rows)), s\<lparr>re_ready := True\<rparr>)"
  by (rule disk_read_text [OF assms])

definition demo_disks :: "disk_row list" where
  "demo_disks = map (\<lambda>n. \<lparr>dk_major = (3, 8), dk_minor = (6, 0), dk_name = n,
     dk_cols = ticks [10, 0, 4, 30, 20, 0, 8, 60, 0, 0, 0]\<rparr>) [''sda'', ''sda1'']"

theorem disks_read_back_witness:
  "disk_read (text_env (unlines (map disk_text demo_disks))) ''/proc'' rstate_init = Some (0,
     [Emit (disk_metric ''sda'' ''disk_ops'' (double_of_int 10) (double_of_int 20)),
      Emit (disk_metric ''sda'' ''disk_octets'' (dmul (double_of_int 4) (double_of_int 512)) (dmul (double_of_int 8) (double_of_int 512))),
      Emit (disk_metric ''sda'' ''disk_time'' (double_of_int 30) (double_of_int 60))], rstate_init\<lparr>re_ready := True\<rparr>)"
proof -
  have "list_all disk_ok demo_disks"
    by (simp add: demo_disks_def disk_ok_def disk_text_def ticks_def text_ok_defs LONG_MAX_def)
  moreover have "rmatches disk_re ''sda''" "\<not> rmatches disk_re ''sda1''"
    using disk_re_iff [of "''sda''"] partition_rejected [of "''a''" "''1''"]
    by (simp_all add: letters_def numeral_str_def AZ_def DIG_def del: rmatches.simps)
  ultimately show ?thesis
    using disks_read_back [OF text_env_fopen, of demo_disks rstate_init "''/proc''"]
    by (simp add: demo_disks_def disk_metrics_def ticks_def del: rmatches.simps)
qed

text \<open>C31: The disk filter keeps exactly the whole devices of the nine kinds.\<close>

theorem disk_filter_whole_devices:
  "rmatches disk_re s \<longleftrightarrow>
     (\<exists>x. letters x \<and> (s = ''sd'' @ x \<or> s = ''vd'' @ x \<or> s = ''xvd'' @ x))
   \<or> (\<exists>x y. numeral_str x \<and> numeral_str y \<and> s = ''nvme'' @ x @ ''n'' @ y)
   \<or> (\<exists>x. numeral_str x \<and> (s = ''mmcblk'' @ x \<or> s = ''dm-'' @ x \<or> s = ''md'' @ x
          \<or> s = ''loop'' @ x \<or> s = ''sr'' @ x))"
  by (rule disk_re_iff)

text \<open>C22: Every mount of a real file system that can be examined is reported with its used and available
  bytes, without wrap-around, under an instance that is never empty and never has a slash.\<close>

theorem mounts_read_back:
  assumes "os_fopen env (snprintf_buf 1024 (base @ ''/mounts'')) = Inr (unlines (map mount_text rows))"
    "list_all mount_ok rows" "\<forall>d st. os_statvfs env d = Some st \<longrightarrow> statvfs_ok st"
  shows "df_read env base s = Some (0, map Emit (concat (map (mount_metrics (os_statvfs env)) rows)), s)
     \<and> list_all (\<lambda>m. \<exists>i. plugin_instance m = Some i \<and> i \<noteq> [] \<and> CHR ''/'' \<notin> set i \<and> length i < 256)
         (concat (map (mount_metrics (os_statvfs env)) rows))"
proof -
  have "list_all (\<lambda>m. \<exists>i. plugin_instance m = Some i \<and> i \<noteq> [] \<and> CHR ''/'' \<notin> set i \<and> length i < 256)
      (mount_metrics (os_statvfs env) r)" for r
    using mount_to_instance_props [of 256 "mt_dir r"]
    by (simp add: mount_metrics_def df_bytes_def split: option.splits)
  then show ?thesis using df_read_text [OF assms(1,2)] assms(3) by (simp add: list_all_iff)
qed

definition demo_mounts :: "mount_row list" where
  "demo_mounts = [\<lparr>mt_dev = ''proc'', mt_dir = ''/proc'', mt_type = ''proc'', mt_opts = ''rw'', mt_tail = ''0 0''\<rparr>,
     \<lparr>mt_dev = ''/dev/sda1'', mt_dir = ''/mnt/c'', mt_type = ''ext4'', mt_opts = ''rw'', mt_tail = ''0 0''\<rparr>]"

definition mount_env :: osenv where
  "mount_env = (text_env (unlines (map mount_text demo_mounts)))\<lparr>os_statvfs :=
     (\<lambda>_. Some \<lparr>f_frsize = 4096, f_blocks = 100, f_bfree = 40, f_bavail = 30\<rparr>)\<rparr>"

theorem mounts_read_back_witness:
  "df_read mount_env ''/proc'' rstate_init = Some (0,
     [Emit (df_bytes ''/mnt/c'' ''used'' (60 * 4096)), Emit (df_bytes ''/mnt/c'' ''free'' (30 * 4096))], rstate_init)"
proof -
  have "list_all mount_ok demo_mounts"
    by (simp add: demo_mounts_def mount_ok_def mount_text_def text_ok_defs)
  then show ?thesis
    using mounts_read_back [of mount_env "''/proc''" demo_mounts rstate_init]
    by (simp add: mount_env_def statvfs_ok_def) (simp add: demo_mounts_def mount_metrics_def FSTYPE_DENYLIST_def)
qed

text \<open>C23: Two mount points without dashes are reported under the same instance, and so share their files and their
  series, exactly when they are the root and \<^verbatim>\<open>/root\<close>.\<close>

theorem mounts_kept_apart:
  assumes "plain_mount a" "plain_mount b" "a \<noteq> b"
  shows "mount_to_instance a 256 = mount_to_instance b 256 \<longleftrightarrow> {a, b} = {''/'', ''/root''}"
  using mount_to_instance_inj [OF assms(1,2)] root_mounts_collide assms(3) by (auto simp: doubleton_eq_iff)

theorem mounts_kept_apart_witness:
  "mount_to_instance ''/home'' 256 \<noteq> mount_to_instance ''/mnt/c'' 256
     \<and> mount_to_instance ''/'' 256 = mount_to_instance ''/root'' 256"
proof
  show "mount_to_instance ''/home'' 256 \<noteq> mount_to_instance ''/mnt/c'' 256"
    using mounts_kept_apart [of "''/home''" "''/mnt/c''"] by (simp add: plain_mount_def starts_with_def doubleton_eq_iff)
  show "mount_to_instance ''/'' 256 = mount_to_instance ''/root'' 256"
    using mounts_kept_apart [of "''/''" "''/root''"] by (simp add: plain_mount_def starts_with_def)
qed

section \<open>Temperatures and processes\<close>

text \<open>C28: Every thermal zone the kernel shows is reported with its type and its temperature in degrees, in
  directory order, and other entries of the directory are passed over.\<close>

theorem temperatures_read_back:
  assumes "os_opendir env ''/sys/class/thermal'' = Inr names"
    "filter (\<lambda>n. starts_with n ''thermal_zone'') names = map zn_name zs" "list_all (zone_shown env) zs"
  shows "thermal_read env ''/proc'' s = Some (0, map (\<lambda>z. Emit (zone_metric z)) zs, s)"
  by (rule thermal_read_text [OF assms])

definition thermal_env :: osenv where
  "thermal_env = demo_env\<lparr>os_opendir := (\<lambda>_. Inr [''.'', ''cooling_device0'', ''thermal_zone0'']),
     os_fopen := (\<lambda>p. if p = ''/sys/class/thermal/thermal_zone0/temp'' then Inr (''-5000'' @ [NL])
       else Inr (''acpitz'' @ [NL]))\<rparr>"

definition demo_zone :: zone where
  "demo_zone = \<lparr>zn_name = ''thermal_zone0'', zn_temp = - 5000, zn_type = ''acpitz''\<rparr>"

theorem temperatures_read_back_witness:
  "thermal_read thermal_env ''/proc'' rstate_init = Some (0,
     [Emit (thermal_metric ''thermal_zone0'' ''acpitz'' (ddiv (double_of_int (- 5000)) (double_of_int 1000)))], rstate_init)"
proof -
  have "zone_shown thermal_env demo_zone"
    by (simp add: zone_shown_def demo_zone_def thermal_env_def snprintf_buf_def text_ok_defs LONG_MAX_def)
  then show ?thesis
    using temperatures_read_back [of thermal_env "[''.'', ''cooling_device0'', ''thermal_zone0'']" "[demo_zone]" rstate_init]
    by (simp add: thermal_env_def demo_zone_def zone_metric_def starts_with_def)
qed

text \<open>C27: The processes reader groups the processes by name: for the first 256 distinct names in directory
  order it emits resident bytes, user and system time, number of processes and of threads, each the exact
  sum over all processes of that name, whatever parentheses and blanks the names hold; a process that
  ended after the directory was read is left out.\<close>

theorem processes_grouped_by_name:
  assumes "os_opendir env base = Inr names" "int (length names) < 2 ^ 31"
    "filter (\<lambda>n. is_numeric n \<and> \<not> gone env base n) names = map (\<lambda>r. show_nat (pr_pid r)) rows"
    "list_all proc_ok rows" "list_all (proc_shown env base) rows" "machine_ok (page_size env) rows"
  shows "processes_read env base s = Some (0, map Emit (concat (map
       (\<lambda>c. proc_metrics (page_size env) c (filter (\<lambda>r. pr_comm r = c) rows)) (take 256 (firsts (map pr_comm rows))))), s)"
  by (rule processes_read_text [OF assms])

definition demo_row :: "nat \<Rightarrow> int \<Rightarrow> proc_row" where
  \<comment> \<open>a process whose name holds a parenthesis and a blank, with the fields of a daemon\<close>
  "demo_row pid ut = \<lparr>pr_pid = pid, pr_comm = ''k) w'', pr_state = ''S'',
     pr_flds = [0, 1, 1, 0, - 1, 0, 9, 9, 9, 9, ut, 3, 0, 0, 20, - 5, 2], pr_tail = ''0 77'',
     pr_size = 900, pr_resident = 250, pr_mtail = ''100 1 0''\<rparr>"

definition proc_env :: osenv where
  \<comment> \<open>two processes of one name, and one that has ended\<close>
  "proc_env = demo_env\<lparr>os_opendir := (\<lambda>_. Inr [''.'', ''4'', ''2'', ''3'']),
     os_fopen := (\<lambda>p. if p = ''/proc/4/comm'' then Inr (''k) w'' @ [NL])
       else if p = ''/proc/2/comm'' then Inr (''k) w'' @ [NL])
       else if p = ''/proc/4/stat'' then Inr (pid_stat_text (demo_row 4 7) @ [NL])
       else if p = ''/proc/2/stat'' then Inr (pid_stat_text (demo_row 2 5) @ [NL])
       else if p = ''/proc/4/statm'' then Inr (statm_text (demo_row 4 7) @ [NL])
       else if p = ''/proc/2/statm'' then Inr (statm_text (demo_row 2 5) @ [NL])
       else Inl ''No such file or directory'')\<rparr>"

theorem processes_grouped_by_name_witness:
  "processes_read proc_env ''/proc'' rstate_init = Some (0,
     [Emit (ps_metric ''k) w'' ''ps_rss'' 1 [double_of_int 2048000]),
      Emit (ps_metric ''k) w'' ''ps_cputime'' 2 [double_of_int 12, double_of_int 6]),
      Emit (ps_metric ''k) w'' ''ps_count'' 2 [double_of_int 2, double_of_int 4])], rstate_init)"
proof -
  have p: "proc_path ''/proc'' n f = ''/proc/'' @ n @ ''/'' @ f" if "length n < 20" "length f < 20" for n f
    using that by (simp add: proc_path_def snprintf_buf_def)
  have n: "show_nat 4 = ''4''" "show_nat 2 = ''2''" by (simp_all add: show_nat_rec digit_char_def)
  let ?rows = "[demo_row 4 7, demo_row 2 5]"
  have ok: "list_all proc_ok ?rows"
    by (simp add: demo_row_def proc_ok_def pid_stat_text_def statm_text_def int_columns_def text_ok_defs COMM_LEN_def)
  have pid: "pr_pid (demo_row k u) = k" "pr_comm (demo_row k u) = ''k) w''" for k u by (simp_all add: demo_row_def)
  have sh: "list_all (proc_shown proc_env ''/proc'') ?rows"
    by (simp add: proc_shown_def pid n p proc_env_def)
  have "filter (\<lambda>n. is_numeric n \<and> \<not> gone proc_env ''/proc'' n) [''.'', ''4'', ''2'', ''3''] = map (\<lambda>r. show_nat (pr_pid r)) ?rows"
    by (simp add: is_numeric_def gone_def p proc_env_def pid n)
  moreover have "page_size proc_env = 4096" by (simp add: page_size_def proc_env_def demo_env_def)
  ultimately show ?thesis
    using processes_grouped_by_name [of proc_env "''/proc''" "[''.'', ''4'', ''2'', ''3'']" ?rows rstate_init] ok sh
    by (simp add: machine_ok_def pid firsts_def proc_metrics_def)
      (simp add: proc_env_def demo_row_def)
qed

end
