(* ===== verification/Scrape.thy ===== *)
theory Scrape
  imports Prom ScanText
begin

text \<open>
  A reader of the Prometheus text format, as a scraper has one, and that it recovers from every page
  the formatter writes the families and the samples that went into it: names, unescaped label values
  and the text of the numbers. The reader follows the documented grammar and knows nothing of the
  rule table.
\<close>

section \<open>The format\<close>

datatype item =
    Help string string
  | Typ string string
  | Sample string "(string \<times> string) list" string

fun is_sample :: "item \<Rightarrow> bool" where
  "is_sample (Sample _ _ _) = True"
| "is_sample _ = False"

fun series :: "item \<Rightarrow> string \<times> (string \<times> string) list" where
  \<comment> \<open>what identifies a time series\<close>
  "series (Sample n ls _) = (n, ls)"
| "series (Help n _) = (n, [])"
| "series (Typ n _) = (n, [])"

fun read_quoted :: "string \<Rightarrow> (string \<times> string) option" where
  \<comment> \<open>a label value up to its closing quotation mark, unescaped, and the rest\<close>
  "read_quoted [] = None"
| "read_quoted (c # s) =
     (if c = DQ then Some ([], s)
      else if c = BSL then
        (case s of [] \<Rightarrow> None
         | c' # t \<Rightarrow> map_option (\<lambda>(v, r). ((if c' = CHR ''n'' then NL else c') # v, r)) (read_quoted t))
      else map_option (\<lambda>(v, r). (c # v, r)) (read_quoted s))"

lemma read_quoted_shorter: "read_quoted s = Some (v, r) \<Longrightarrow> length r < length s"
  by (induction s arbitrary: v rule: read_quoted.induct) (fastforce split: if_splits list.splits)+

definition read_label :: "string \<Rightarrow> ((string \<times> string) \<times> string) option" where
  "read_label s =
     (case dropWhile (\<lambda>c. c \<noteq> CHR ''='') s of
        _ # d # t \<Rightarrow>
          if d = DQ then map_option (\<lambda>(v, r). ((takeWhile (\<lambda>c. c \<noteq> CHR ''='') s, v), r)) (read_quoted t) else None
      | _ \<Rightarrow> None)"

lemma read_label_shorter: "read_label s = Some (l, r) \<Longrightarrow> length r < length s"
proof -
  assume "read_label s = Some (l, r)"
  then obtain c d t v where "dropWhile (\<lambda>c. c \<noteq> CHR ''='') s = c # d # t" "read_quoted t = Some (v, r)"
    by (auto simp: read_label_def split: list.splits if_splits)
  then show ?thesis
    using read_quoted_shorter [of t v r] length_dropWhile_le [of "\<lambda>c. c \<noteq> CHR ''=''" s] by simp
qed

function read_labels :: "string \<Rightarrow> ((string \<times> string) list \<times> string) option" where
  \<comment> \<open>the labels up to the closing brace\<close>
  "read_labels s =
     (case read_label s of
        None \<Rightarrow> None
      | Some (l, []) \<Rightarrow> None
      | Some (l, c # r) \<Rightarrow>
          if c = CHR ''}'' then Some ([l], r)
          else if c = CHR '','' then map_option (\<lambda>(ls, r'). (l # ls, r')) (read_labels r)
          else None)"
  by pat_completeness auto
termination
  by (relation "measure length") (auto dest: read_label_shorter)

declare read_labels.simps [simp del]

definition read_sample :: "string \<Rightarrow> item option" where
  "read_sample l =
     (let n = takeWhile (\<lambda>c. c \<noteq> CHR ''{'' \<and> c \<noteq> SP) l
      in case dropWhile (\<lambda>c. c \<noteq> CHR ''{'' \<and> c \<noteq> SP) l of
           [] \<Rightarrow> None
         | c # t \<Rightarrow>
             if c = SP then Some (Sample n [] t)
             else case read_labels t of
                    Some (ls, d # v) \<Rightarrow> if d = SP then Some (Sample n ls v) else None
                  | _ \<Rightarrow> None)"

definition read_comment :: "(string \<Rightarrow> string \<Rightarrow> item) \<Rightarrow> string \<Rightarrow> item option" where
  "read_comment f s =
     (case dropWhile (\<lambda>c. c \<noteq> SP) s of [] \<Rightarrow> None | _ # t \<Rightarrow> Some (f (takeWhile (\<lambda>c. c \<noteq> SP) s) t))"

definition read_line :: "string \<Rightarrow> item option" where
  "read_line l =
     (if starts_with l ''# HELP '' then read_comment Help (drop 7 l)
      else if starts_with l ''# TYPE '' then read_comment Typ (drop 7 l)
      else read_sample l)"

fun lines_of :: "string \<Rightarrow> string \<Rightarrow> string list option" where
  \<comment> \<open>every line ends with a newline\<close>
  "lines_of cur [] = (if cur = [] then Some [] else None)"
| "lines_of cur (c # s) = (if c = NL then map_option ((#) cur) (lines_of [] s) else lines_of (cur @ [c]) s)"

definition read_page :: "string \<Rightarrow> item list option" where
  "read_page t = (case lines_of [] t of None \<Rightarrow> None | Some ls \<Rightarrow> those (map read_line ls))"

section \<open>What is written is read back\<close>

definition reads :: "string \<Rightarrow> item list \<Rightarrow> bool" where
  \<comment> \<open>in front of any page, the text adds the items\<close>
  "reads t is \<longleftrightarrow> (\<forall>s. read_page (t @ s) = map_option (\<lambda>js. is @ js) (read_page s))"

lemma reads_Nil: "reads [] []"
  by (simp add: reads_def option.map_ident)

lemma reads_append: "reads t is \<Longrightarrow> reads u js \<Longrightarrow> reads (t @ u) (is @ js)"
  by (simp add: reads_def option.map_comp comp_def)

lemma reads_concat: "list_all2 reads ts iss \<Longrightarrow> reads (concat ts) (concat iss)"
  by (induction rule: list_all2_induct) (simp_all add: reads_Nil reads_append)

lemma reads_page: "reads t is \<Longrightarrow> read_page t = Some is"
  by (drule reads_def [THEN iffD1, rule_format, of t "is" "[]"]) (simp add: read_page_def)

lemma lines_of_line: "NL \<notin> set l \<Longrightarrow> lines_of cur (l @ NL # s) = map_option ((#) (cur @ l)) (lines_of [] s)"
  by (induction l arbitrary: cur) auto

lemma reads_line:
  assumes "NL \<notin> set l" "read_line l = Some i"
  shows "reads (l @ [NL]) [i]"
  unfolding reads_def
proof
  fix s
  have "read_page ((l @ [NL]) @ s) = (case map_option ((#) l) (lines_of [] s) of None \<Rightarrow> None | Some ls \<Rightarrow> those (map read_line ls))"
    using lines_of_line [OF assms(1), of "[]" s] by (simp add: read_page_def)
  also have "\<dots> = map_option ((#) i) (read_page s)"
    using assms(2) by (cases "lines_of [] s") (simp_all add: read_page_def)
  finally show "read_page ((l @ [NL]) @ s) = map_option (\<lambda>js. [i] @ js) (read_page s)" by simp
qed

lemma read_quoted_escape: "read_quoted (escape v @ DQ # r) = Some (v, r)"
  by (induction v) (auto simp: escape_def esc_char_def)

lemma split_at_first:
  assumes "list_all (\<lambda>c. \<not> P c) n" "P x"
  shows "takeWhile (\<lambda>c. \<not> P c) (n @ x # s) = n" "dropWhile (\<lambda>c. \<not> P c) (n @ x # s) = x # s"
  using assms by (induction n) auto

lemma read_label_text:
  assumes "CHR ''='' \<notin> set k"
  shows "read_label (label_text k v @ r) = Some ((k, v), r)"
proof -
  have "list_all (\<lambda>c. \<not> c = CHR ''='') k" using assms by (auto simp: list_all_iff)
  from split_at_first [OF this refl, of "DQ # escape v @ DQ # r"] show ?thesis
    by (simp add: read_label_def label_text_def read_quoted_escape)
qed

fun commas :: "(string \<times> string) list \<Rightarrow> string" where
  "commas [] = []"
| "commas ((k, v) # ls) = '','' @ label_text k v @ commas ls"

lemma commas_append: "commas (ls @ ms) = commas ls @ commas ms"
  by (induction ls rule: commas.induct) simp_all

lemma labels_text_Cons: "labels_text ((k, v) # ls) = label_text k v @ commas ls"
proof (induction ls rule: rev_induct)
  case Nil
  show ?case by (simp add: labels_text_def add_comma_def)
next
  case (snoc l ls)
  obtain k' v' where l: "l = (k', v')" by force
  have "labels_text ((k, v) # ls @ [l]) = add_comma (labels_text ((k, v) # ls)) (label_text k' v')"
    using labels_text_snoc [of "(k, v) # ls" k' v'] by (simp add: l)
  then show ?case using snoc by (simp add: add_comma_def commas_append l)
qed

lemma read_labels_text:
  assumes "ls \<noteq> []" "list_all (\<lambda>(k, v). CHR ''='' \<notin> set k) ls"
  shows "read_labels (labels_text ls @ CHR ''}'' # r) = Some (ls, r)"
  using assms
proof (induction ls)
  case (Cons l ls)
  obtain k v where l: "l = (k, v)" by force
  have k: "CHR ''='' \<notin> set k" using Cons.prems by (simp add: l)
  show ?case
  proof (cases ls)
    case Nil
    then show ?thesis
      using read_label_text [OF k, of v "CHR ''}'' # r"] by (subst read_labels.simps) (simp add: l labels_text_Cons)
  next
    case (Cons l' ls')
    obtain k' v' where l': "l' = (k', v')" by force
    have t: "labels_text (l # ls) = label_text k v @ '','' @ labels_text ls"
      by (simp add: l l' Cons labels_text_Cons)
    have "read_labels (labels_text ls @ CHR ''}'' # r) = Some (ls, r)"
      using Cons.IH Cons.prems Cons by simp
    then show ?thesis
      using read_label_text [OF k, of v "CHR '','' # labels_text ls @ CHR ''}'' # r"]
      by (subst read_labels.simps) (simp add: t, simp add: l)
  qed
qed simp

section \<open>Numbers and names\<close>

lemma fmt_g_chars:
  assumes "isfinite x" "c \<in> set (fmt_g P x)"
  shows "isdigit c \<or> c \<in> {CHR ''-'', CHR ''+'', CHR ''.'', CHR ''e''}"
proof -
  have wf: "c \<in> set a \<or> c \<in> set b \<or> c = CHR ''.''" if "c \<in> set (with_frac a b)" for a b
    using that by (auto simp: with_frac_def strip_zeros_def Let_def split: if_splits dest: set_dropWhileD)
  have ex: "isdigit c \<or> c \<in> {CHR ''-'', CHR ''+'', CHR ''e''}" if "c \<in> set (fmt_exp X)" for X
    using that by (auto simp: fmt_exp_def isdigit_def dest: show_nat_isdigit split: if_splits)
  have z: "isdigit (CHR ''0'')" by (simp add: isdigit_def)
  show ?thesis
    using assms
    by (auto simp: fmt_g_def sign_str_def Let_def z split: double.splits if_splits prod.splits
        dest!: wf ex dest: show_nat_isdigit in_set_takeD in_set_dropD)
qed

lemma fmt_val_plain: "NL \<notin> set (fmt_val n v)"
proof (cases "isfinite v")
  case True
  have "NL \<notin> set (fmt_f0 v)" using fmt_f0_chars [OF True, of NL] by (auto simp: isdigit_def)
  moreover have "NL \<notin> set (fmt_g 10 v)" using fmt_g_chars [OF True, of NL] by (auto simp: isdigit_def)
  ultimately show ?thesis by (auto simp: fmt_val_def snprintf_buf_def dest: in_set_takeD)
next
  case False
  then show ?thesis by (auto simp: fmt_val_def snprintf_buf_def dest: in_set_takeD)
qed

definition rule_plain :: "prom_rule \<Rightarrow> bool" where
  \<comment> \<open>names and help texts follow the grammar of the format\<close>
  "rule_plain r \<longleftrightarrow>
     r_family r \<noteq> [] \<and> list_all (\<lambda>c. c \<notin> {CHR ''{'', SP, NL, CHR ''#''}) (r_family r) \<and> NL \<notin> set (r_help r)
     \<and> list_all (\<lambda>k. case k of None \<Rightarrow> True | Some k \<Rightarrow> CHR ''='' \<notin> set k \<and> NL \<notin> set k) [r_pi_label r, r_ti_label r, r_ds_label r]
     \<and> distinct (List.map_filter (\<lambda>k. k) [r_pi_label r, r_ti_label r, r_ds_label r])"

lemma rules_plain: "list_all rule_plain RULES"
  by (simp add: RULES_def mk_rule_def rule_plain_def map_filter_simps)

lemma label_list_keys:
  assumes "rule_plain r"
  shows "list_all (\<lambda>(k, v). CHR ''='' \<notin> set k \<and> NL \<notin> set k) (label_list r sm di)"
  using assms by (auto simp: rule_plain_def label_list_def split: option.splits)

lemma labels_text_plain:
  assumes "list_all (\<lambda>(k, v). NL \<notin> set k) ls"
  shows "NL \<notin> set (labels_text ls)"
proof -
  have "NL \<notin> set (label_text k v)" if "NL \<notin> set k" for k v
    using that NL_notin_escape by (simp add: label_text_def)
  then have "NL \<notin> set (commas ls)" using assms by (induction ls rule: commas.induct) auto
  then show ?thesis
    using assms \<open>\<And>k v. NL \<notin> set k \<Longrightarrow> NL \<notin> set (label_text k v)\<close>
    by (cases ls) (auto simp: labels_text_Cons, auto simp: labels_text_def)
qed

section \<open>Samples, families and pages\<close>

definition sample_item :: "prom_rule \<Rightarrow> snap_metric \<Rightarrow> nat \<Rightarrow> item" where
  "sample_item r sm di = Sample (r_family r) (label_list r sm di) (fmt_val 64 (sm_values sm ! di))"

definition metric_items :: "prom_rule \<Rightarrow> snap_metric \<Rightarrow> item list" where
  "metric_items r sm = map (sample_item r sm) [0..<nat (sm_ds_count sm)]"

definition block_items :: "snap_metric list \<Rightarrow> entry list \<Rightarrow> prom_rule \<Rightarrow> item list" where
  "block_items ms es r = Help (r_family r) (r_help r) # Typ (r_family r) (prom_type_for (r_type r))
     # concat (map (\<lambda>e. metric_items r (ms ! snd e)) (filter (\<lambda>e. fst e = r) es))"

definition page_items :: "snap_metric list \<Rightarrow> entry list \<Rightarrow> item list" where
  "page_items ms es = concat (map (block_items ms es) (firsts (map fst es)))"

definition items_of :: "snap_metric \<Rightarrow> item list" where
  \<comment> \<open>the samples a metric stands for\<close>
  "items_of sm = (case find_rule (sm_plugin sm) (sm_type sm) of None \<Rightarrow> [] | Some r \<Rightarrow> metric_items r sm)"

lemma reads_sample:
  assumes "rule_plain r"
  shows "reads (sample_text r sm di) [sample_item r sm di]"
proof -
  let ?ls = "label_list r sm di" and ?v = "fmt_val 64 (sm_values sm ! di)"
  let ?b = "if ?ls = [] then [] else ''{'' @ labels_text ?ls @ ''}''"
  let ?l = "r_family r @ ?b @ '' '' @ ?v"
  have f: "r_family r \<noteq> []" "list_all (\<lambda>c. \<not> (c = CHR ''{'' \<or> c = SP)) (r_family r)"
    "NL \<notin> set (r_family r)" "CHR ''#'' \<notin> set (r_family r)"
    using assms by (auto simp: rule_plain_def list_all_iff)
  have k: "list_all (\<lambda>(k, v). CHR ''='' \<notin> set k) ?ls" "list_all (\<lambda>(k, v). NL \<notin> set k) ?ls"
    using label_list_keys [OF assms, of sm di] by (auto simp: list_all_iff)
  have "\<not> starts_with ?l (CHR ''#'' # u)" for u
    using f(1,4) by (cases "r_family r") (auto simp: starts_with_def)
  then have "read_line ?l = read_sample ?l" by (simp add: read_line_def)
  also have "\<dots> = Some (sample_item r sm di)"
  proof (cases "?ls = []")
    case True
    have "?l = r_family r @ SP # ?v" using True by simp
    then show ?thesis
      using split_at_first [of "\<lambda>c. c = CHR ''{'' \<or> c = SP" "r_family r" SP ?v] f(2) True
      by (simp add: read_sample_def sample_item_def)
  next
    case False
    have "?l = r_family r @ CHR ''{'' # labels_text ?ls @ CHR ''}'' # SP # ?v" using False by simp
    then show ?thesis
      using split_at_first [of "\<lambda>c. c = CHR ''{'' \<or> c = SP" "r_family r" "CHR ''{''"] f(2)
        read_labels_text [OF False k(1)]
      by (simp add: read_sample_def sample_item_def)
  qed
  finally have "read_line ?l = Some (sample_item r sm di)" .
  moreover have "NL \<notin> set ?l" using f(3) fmt_val_plain labels_text_plain [OF k(2)] by simp
  ultimately have "reads (?l @ [NL]) [sample_item r sm di]" by (rule reads_line [rotated])
  then show ?thesis by (simp add: sample_text_def Let_def)
qed

lemma reads_map: "(\<And>x. x \<in> set xs \<Longrightarrow> reads (f x) (g x)) \<Longrightarrow> reads (concat (map f xs)) (concat (map g xs))"
  by (intro reads_concat) (simp add: list_all2_map1 list_all2_map2 list_all2_same)

lemma reads_metric: "rule_plain r \<Longrightarrow> reads (metric_text r sm) (metric_items r sm)"
  using reads_map [of "[0..<nat (sm_ds_count sm)]" "sample_text r sm" "\<lambda>di. [sample_item r sm di]"]
  by (simp add: metric_text_def metric_items_def reads_sample)

lemma reads_comment:
  assumes "rule_plain r" "NL \<notin> set u" "(p, f) \<in> {(''# HELP '', Help), (''# TYPE '', Typ)}"
  shows "reads (p @ r_family r @ '' '' @ u @ [NL]) [f (r_family r) u]"
proof -
  have f: "list_all (\<lambda>c. \<not> c = SP) (r_family r)" "NL \<notin> set (r_family r)"
    using assms(1) by (auto simp: rule_plain_def list_all_iff)
  have "read_comment f (r_family r @ SP # u) = Some (f (r_family r) u)"
    using split_at_first [OF f(1) refl, of u] by (simp add: read_comment_def)
  then have "read_line (p @ r_family r @ SP # u) = Some (f (r_family r) u)"
    using assms(3) by (auto simp: read_line_def starts_with_def)
  moreover have "NL \<notin> set (p @ r_family r @ SP # u)" using assms(2,3) f(2) by auto
  ultimately show ?thesis using reads_line by fastforce
qed

lemma reads_block:
  assumes "rule_plain r"
  shows "reads (block ms es r) (block_items ms es r)"
proof -
  have "NL \<notin> set (prom_type_for t)" for t by (auto simp: prom_type_for_def split: option.splits if_splits)
  then have "reads (header_text r (r_type r)) [Help (r_family r) (r_help r), Typ (r_family r) (prom_type_for (r_type r))]"
    using reads_append [OF reads_comment [of r "r_help r" "''# HELP ''" Help] reads_comment [of r "prom_type_for (r_type r)" "''# TYPE ''" Typ]]
      assms by (simp add: header_text_def rule_plain_def)
  moreover have "reads (concat (map (\<lambda>e. metric_text r (ms ! snd e)) (filter (\<lambda>e. fst e = r) es)))
      (concat (map (\<lambda>e. metric_items r (ms ! snd e)) (filter (\<lambda>e. fst e = r) es)))"
    by (intro reads_map reads_metric assms)
  ultimately show ?thesis using reads_append by (fastforce simp: block_def block_items_def)
qed

lemma read_exposition:
  assumes "entries_ok ms es"
  shows "read_page (exposition ms es) = Some (page_items ms es)"
proof -
  have "rule_plain r" if "r \<in> set (firsts (map fst es))" for r
    using that assms rules_plain by (auto simp: entries_ok_def list_all_iff)
  then show ?thesis
    unfolding exposition_def page_items_def by (intro reads_page reads_map reads_block)
qed

text \<open>Grouping by family neither loses nor repeats a sample.\<close>

lemma mset_concat_groups:
  assumes "distinct rs" "set (map k xs) \<subseteq> set rs"
  shows "mset (concat (map (\<lambda>r. concat (map g (filter (\<lambda>x. k x = r) xs))) rs)) = mset (concat (map g xs))"
  using assms(2)
proof (induction xs)
  case Nil
  show ?case by (induction rs) simp_all
next
  case (Cons x xs)
  let ?f = "\<lambda>ys r. mset (concat (map g (filter (\<lambda>x. k x = r) ys)))"
  have "?f (x # xs) r = (if r = k x then mset (g x) else {#}) + ?f xs r" for r by simp
  then have "sum_list (map (?f (x # xs)) rs) = sum_list (map (\<lambda>r. if r = k x then mset (g x) else {#}) rs) + sum_list (map (?f xs) rs)"
    by (simp only: sum_list_addf)
  moreover have "sum_list (map (\<lambda>r. if r = k x then mset (g x) else {#}) rs) = mset (g x)"
    using assms(1) Cons.prems by (simp add: sum_list_distinct_conv_sum_set sum.delta)
  ultimately show ?case using Cons by (simp add: mset_concat comp_def)
qed

lemma samples_of_page:
  "mset (filter is_sample (page_items ms es)) = mset (concat (map (\<lambda>e. metric_items (fst e) (ms ! snd e)) es))"
proof -
  have s: "filter is_sample (metric_items r sm) = metric_items r sm" for r sm
    by (auto simp: metric_items_def sample_item_def filter_id_conv)
  have "filter is_sample (block_items ms es r)
      = concat (map (\<lambda>e. metric_items (fst e) (ms ! snd e)) (filter (\<lambda>e. fst e = r) es))" for r
    by (simp add: block_items_def filter_concat comp_def s cong: map_cong)
      (intro arg_cong [of _ _ concat] map_cong, simp_all)
  then show ?thesis
    using mset_concat_groups [of "firsts (map fst es)" fst es "\<lambda>e. metric_items (fst e) (ms ! snd e)"]
    by (simp add: page_items_def filter_concat comp_def)
qed

lemma samples_of_entries: "concat (map (\<lambda>e. metric_items (fst e) (ms ! snd e)) (entries ms)) = concat (map items_of ms)"
proof -
  let ?f = "\<lambda>i. map_option (\<lambda>r. (r, i)) (find_rule (sm_plugin (ms ! i)) (sm_type (ms ! i)))"
  have "concat (map (\<lambda>e. metric_items (fst e) (ms ! snd e)) (List.map_filter ?f is)) = concat (map (\<lambda>i. items_of (ms ! i)) is)" for "is"
    by (induction "is") (auto simp: map_filter_simps items_of_def split: option.splits)
  then have "concat (map (\<lambda>e. metric_items (fst e) (ms ! snd e)) (entries ms)) = concat (map items_of (map ((!) ms) [0..<length ms]))"
    by (simp add: entries_def comp_def)
  then show ?thesis by (simp only: map_nth)
qed

lemma mset_concat_map: "mset (concat (map g xs)) = (\<Sum>x \<in># mset xs. mset (g x))"
  by (induction xs) simp_all

lemma page_samples:
  assumes "mset es = mset (entries ms)"
  shows "mset (filter is_sample (page_items ms es)) = mset (concat (map items_of ms))"
  by (simp only: samples_of_page assms mset_concat_map flip: samples_of_entries)

section \<open>No series twice\<close>

definition key_of :: "snap_metric \<Rightarrow> string \<times> string \<times> string \<times> string" where
  "key_of sm = (sm_plugin sm, sm_type sm, sm_plugin_instance sm, sm_type_instance sm)"

definition shown :: "snap_metric \<Rightarrow> bool" where
  \<comment> \<open>an instance the rule does not show is the same for all metrics of the plugin, and each value has
     a label of its own\<close>
  "shown sm \<longleftrightarrow>
     (case find_rule (sm_plugin sm) (sm_type sm) of
        None \<Rightarrow> True
      | Some r \<Rightarrow> (r_pi_label r = None \<longrightarrow> sm_plugin_instance sm = (if sm_plugin sm = ''cpu'' then ''total'' else [])) \<and> (r_ti_label r = None \<longrightarrow> sm_type_instance sm = [])
          \<and> (case types_lookup (Some (sm_type sm)) of None \<Rightarrow> False | Some td \<Rightarrow> sm_ds_count sm = td_ds_count td))"

lemma label_list_pi:
  assumes "rule_plain r" "r_pi_label r = Some k"
  shows "map_of (label_list r sm di) k = (if sm_plugin_instance sm = [] then None else Some (sm_plugin_instance sm))"
  using assms by (auto simp: label_list_def rule_plain_def map_filter_simps map_add_def split: option.splits)

lemma label_list_ti:
  assumes "rule_plain r" "r_ti_label r = Some k"
  shows "map_of (label_list r sm di) k = (if sm_type_instance sm = [] then None else Some (sm_type_instance sm))"
  using assms by (auto simp: label_list_def rule_plain_def map_filter_simps map_add_def split: option.splits)

lemma label_list_ds:
  assumes "rule_plain r" "r_ds_label r = Some k"
  shows "map_of (label_list r sm di) k = ds_value r di"
  using assms by (auto simp: label_list_def rule_plain_def map_filter_simps map_add_def split: option.splits)

lemma label_list_inj:
  assumes "find_rule (sm_plugin a) (sm_type a) = Some r" "find_rule (sm_plugin b) (sm_type b) = Some r"
    "shown a" "shown b" "label_list r a i = label_list r b j" "i < nat (sm_ds_count a)" "j < nat (sm_ds_count b)"
  shows "key_of a = key_of b \<and> i = j"
proof -
  have r: "r \<in> set RULES" "r_plugin r = sm_plugin a" "r_type r = sm_type a" "r_plugin r = sm_plugin b" "r_type r = sm_type b"
    using find_rule_SomeD [OF assms(1)] find_rule_SomeD [OF assms(2)] by simp_all
  have p: "rule_plain r" "rule_ok r" using r(1) rules_plain rules_ok by (simp_all add: list_all_iff)
  obtain td where td: "types_lookup (Some (r_type r)) = Some td" "sm_ds_count a = td_ds_count td" "sm_ds_count b = td_ds_count td"
    using assms(1-4) r by (auto simp: shown_def split: option.splits)
  have "sm_plugin_instance a = sm_plugin_instance b"
  proof (cases "r_pi_label r")
    case None
    then show ?thesis using assms(1-4) r(2,4) by (simp add: shown_def)
  next
    case (Some k)
    then show ?thesis using label_list_pi [OF p(1) Some, of a i] label_list_pi [OF p(1) Some, of b j] assms(5)
      by (simp split: if_splits)
  qed
  moreover have "sm_type_instance a = sm_type_instance b"
  proof (cases "r_ti_label r")
    case None
    then show ?thesis using assms(1-4) by (simp add: shown_def)
  next
    case (Some k)
    then show ?thesis using label_list_ti [OF p(1) Some, of a i] label_list_ti [OF p(1) Some, of b j] assms(5)
      by (simp split: if_splits)
  qed
  moreover have "i = j"
  proof (cases "td_ds_count td = 1")
    case True
    with assms(6,7) td show ?thesis by simp
  next
    case False
    then obtain k where k: "r_ds_label r = Some k" and len: "length (r_ds_values r) = METRIC_MAX_DS"
      and ds: "\<forall>i < METRIC_MAX_DS. r_ds_values r ! i \<noteq> None \<longleftrightarrow> int i < td_ds_count td"
      and di: "distinct (take (nat (td_ds_count td)) (r_ds_values r))"
      using p(2) td(1) by (auto simp: rule_ok_def)
    have eq: "ds_value r i = ds_value r j"
      using label_list_ds [OF p(1) k, of a i] label_list_ds [OF p(1) k, of b j] assms(5) by simp
    have "td_ds_count td \<le> int METRIC_MAX_DS"
      using types_lookup_ok [OF td(1)] by (simp add: type_def_ok_def METRIC_MAX_DS_def)
    then have lt: "i < METRIC_MAX_DS" "j < METRIC_MAX_DS" using assms(6,7) td by linarith+
    with eq have "take (nat (td_ds_count td)) (r_ds_values r) ! i = take (nat (td_ds_count td)) (r_ds_values r) ! j"
      using assms(6,7) td by (simp add: ds_value_def)
    then show ?thesis using di assms(6,7) td lt len by (subst (asm) nth_eq_iff_index_eq) simp_all
  qed
  ultimately show ?thesis using r by (simp add: key_of_def)
qed

lemma items_ofE:
  assumes "x \<in> set (items_of a)"
  obtains r i where "find_rule (sm_plugin a) (sm_type a) = Some r" "x = sample_item r a i" "i < nat (sm_ds_count a)"
  using assms by (cases "find_rule (sm_plugin a) (sm_type a)") (auto simp: items_of_def metric_items_def)

lemma series_inj:
  assumes "x \<in> set (items_of a)" "y \<in> set (items_of b)" "series x = series y" "shown a" "shown b"
  shows "key_of a = key_of b"
proof -
  obtain r i where x: "find_rule (sm_plugin a) (sm_type a) = Some r" "x = sample_item r a i" "i < nat (sm_ds_count a)"
    using assms(1) by (rule items_ofE)
  obtain r' j where y: "find_rule (sm_plugin b) (sm_type b) = Some r'" "y = sample_item r' b j" "j < nat (sm_ds_count b)"
    using assms(2) by (rule items_ofE)
  have "r_family r = r_family r'" "label_list r a i = label_list r' b j" using assms(3) x(2) y(2) by (simp_all add: sample_item_def)
  moreover from this(1) have "r = r'" using find_rule_SomeD [OF x(1)] find_rule_SomeD [OF y(1)] family_inj by blast
  ultimately show ?thesis using label_list_inj x y assms(4,5) by blast
qed

lemma distinct_items: "shown sm \<Longrightarrow> distinct (map series (items_of sm))"
proof (cases "find_rule (sm_plugin sm) (sm_type sm)")
  case (Some r)
  assume "shown sm"
  then have "inj_on (\<lambda>i. (r_family r, label_list r sm i)) {0..<nat (sm_ds_count sm)}"
    using label_list_inj [OF Some Some] by (auto intro!: inj_onI)
  then show ?thesis using Some by (simp add: items_of_def metric_items_def comp_def sample_item_def distinct_map)
qed (simp add: items_of_def)

lemma distinct_series:
  assumes "list_all shown ms" "distinct (map key_of ms)"
  shows "distinct (map series (concat (map items_of ms)))"
  using assms
proof (induction ms)
  case (Cons m ms)
  have "series x \<noteq> series y" if "x \<in> set (items_of m)" "sm \<in> set ms" "y \<in> set (items_of sm)" for x y sm
    using series_inj [OF that(1,3)] that(2) Cons.prems by (auto simp: list_all_iff)
  then have "set (map series (items_of m)) \<inter> set (map series (concat (map items_of ms))) = {}" by fastforce
  with Cons distinct_items show ?case by simp
qed simp

lemma distinct_page_series:
  assumes "mset es = mset (entries ms)" "list_all shown ms" "distinct (map key_of ms)"
  shows "distinct (map series (filter is_sample (page_items ms es)))"
proof -
  have "mset (map series (filter is_sample (page_items ms es))) = mset (map series (concat (map items_of ms)))"
    using page_samples [OF assms(1)] by simp
  then show ?thesis using distinct_series [OF assms(2,3)] mset_eq_imp_distinct_iff by blast
qed

end
