(* ===== verification/EndToEnd.thy ===== *)
theory EndToEnd
  imports Execution ReaderProps Scrape
begin

text \<open>
  From the kernel's text to the RRD files and to a scraper: what a cycle hands to librrd, as a list of
  updates, what a scraper reads from the page that follows it, and both for the counters of the network
  interfaces.
\<close>

section \<open>Updates of files\<close>

definition same_files :: "('w \<Rightarrow> string set) \<Rightarrow> ('w \<Rightarrow> (string \<times> string) list) \<Rightarrow> 'w \<Rightarrow> 'w \<Rightarrow> bool" where
  "same_files files jr m m' \<longleftrightarrow> files m' = files m \<and> jr m' = jr m"

definition records :: "'w rrd_ops \<Rightarrow> ('w \<Rightarrow> string set) \<Rightarrow> ('w \<Rightarrow> (string \<times> string) list) \<Rightarrow> bool" where
  \<comment> \<open>a librrd without a failing disk: creating a file adds it, updating an existing file adds to the journal. The
     daemon may be unreachable or refuse an update at any time; what it accepts is in the journal.\<close>
  "records ops files jr \<longleftrightarrow>
     (\<forall>p m. same_files files jr m (snd (op_mkdir ops p m)))
   \<and> (\<forall>p m. op_access ops p m \<longleftrightarrow> p \<in> files m)
   \<and> (\<forall>p st t args m. \<exists>e m'. op_create ops p st t args m = (0, e, m') \<and> files m' = insert p (files m) \<and> jr m' = jr m)
   \<and> (\<forall>p v m. p \<in> files m \<longrightarrow>
        (\<exists>e m'. op_update ops p [v] m = (0, e, m') \<and> files m' = files m \<and> jr m' = jr m @ [(p, v)]))
   \<and> (\<forall>a m. same_files files jr m (snd (snd (op_rrdc_connect ops a m))))
   \<and> (\<forall>p v m rc e m'. op_rrdc_update ops p [v] m = (rc, e, m') \<longrightarrow>
        files m' = files m \<and> jr m' = (if rc = 0 then jr m @ [(p, v)] else jr m))
   \<and> (\<forall>m. same_files files jr m (snd (snd (op_rrdc_flushall ops m))))
   \<and> (\<forall>m. same_files files jr m (op_rrdc_disconnect ops m))"

definition updates_of :: "writer \<Rightarrow> metric \<Rightarrow> (string \<times> string) list" where
  \<comment> \<open>the file a metric is written to and the values, unless it is refused\<close>
  "updates_of w m =
     (case types_lookup (type m) of
        None \<Rightarrow> []
      | Some td \<Rightarrow>
          if td_ds_count td = ds_count m \<and> length (path_spec (datadir w) (host w) m) < 4096
             \<and> length (file_name m) < 256 \<and> length (fmt_spec td m) < 256
          then [(path_spec (datadir w) (host w) m, fmt_spec td m)] else [])"

lemma mkdirp_log:
  assumes "records ops files jr"
  shows "files (os (mkdirp ops d s)) = files (os s) \<and> jr (os (mkdirp ops d s)) = jr (os s)"
proof -
  have m: "files (snd (op_mkdir ops p m)) = files m \<and> jr (snd (op_mkdir ops p m)) = jr m" for p m
    using assms by (simp add: records_def same_files_def)
  have 1: "files (os (mkdir1 ops d s)) = files (os s) \<and> jr (os (mkdir1 ops d s)) = jr (os s)" for d s
    using m [of d "os s"] by (cases "op_mkdir ops d (os s)") (simp add: mkdir1_def split: mkdir_result.splits)
  then have "files (os (mkdirp_loop ops d ks s)) = files (os s) \<and> jr (os (mkdirp_loop ops d ks s)) = jr (os s)" for d ks s
    by (induction ks arbitrary: s) simp_all
  with 1 show ?thesis by (simp add: mkdirp_def)
qed

lemma make_dirs_log:
  "records ops files jr \<Longrightarrow> files (os (make_dirs ops p s)) = files (os s) \<and> jr (os (make_dirs ops p s)) = jr (os s)"
  by (auto simp: make_dirs_def mkdirp_log split: option.splits)

lemma create_rrd_log:
  assumes "records ops files jr" "types_lookup t = Some td"
  shows "\<exists>s'. create_rrd ops td p s = Some (0, s') \<and> files (os s') = insert p (files (os s)) \<and> jr (os s') = jr (os s)"
proof -
  have r: "rra_args (Some td) 64 = Some (td_ds_count td + 9, map ds_arg (td_ds td) @ rra_spec)"
    "0 \<le> td_ds_count td + 9"
    using types_lookup_ok [OF assms(2)] rra_args_ok [OF types_lookup_ok [OF assms(2)], of 64] by (simp_all add: type_def_ok_def)
  obtain e m' where "op_create ops p 5 (op_time ops (os s) - 1) (map ds_arg (td_ds td) @ rra_spec) (os s) = (0, e, m')"
    "files m' = insert p (files (os s))" "jr m' = jr (os s)"
    using assms(1) unfolding records_def by meson
  moreover have "op_access ops p (os s) \<longleftrightarrow> p \<in> files (os s)" using assms(1) by (simp add: records_def)
  ultimately show ?thesis using r by (auto simp: create_rrd_def insert_absorb)
qed

lemma direct_update_log:
  assumes "records ops files jr" "p \<in> files (os s)"
  shows "files (os (snd (direct_update ops p v s))) = files (os s) \<and> jr (os (snd (direct_update ops p v s))) = jr (os s) @ [(p, v)]"
  using assms unfolding records_def direct_update_os by (metis snd_conv)

lemma daemon_connect_log:
  assumes "records ops files jr"
  shows "same_files files jr (os s) (os (snd (writer_daemon_connect ops w s)))"
proof -
  have "same_files files jr (os s) (snd (snd (op_rrdc_connect ops (rrdcached w) (os s))))"
    using assms by (simp add: records_def)
  then show ?thesis
    by (cases "op_rrdc_connect ops (rrdcached w) (os s)") (simp add: writer_daemon_connect_def same_files_def)
qed

lemma writer_update_log:
  \<comment> \<open>through the daemon or, when that fails, directly: the update is performed once\<close>
  assumes "records ops files jr" "p \<in> files (os s)"
  shows "files (os (snd (writer_update ops w p v s))) = files (os s)
     \<and> jr (os (snd (writer_update ops w p v s))) = jr (os s) @ [(p, v)]"
proof -
  obtain c s1 where c: "writer_daemon_connect ops w s = (c, s1)" by force
  then have s1: "files (os s1) = files (os s)" "jr (os s1) = jr (os s)"
    using daemon_connect_log [OF assms(1), of s w] by (simp_all add: same_files_def)
  obtain rc e m where u: "op_rrdc_update ops p [v] (os s1) = (rc, e, m)" by (metis prod.exhaust)
  with assms(1) have m: "files m = files (os s1)" "jr m = (if rc = 0 then jr (os s1) @ [(p, v)] else jr (os s1))"
    unfolding records_def by blast+
  note d = direct_update_log [OF assms(1)]
  consider "rrdcached w = []" | "rrdcached w \<noteq> []" "c \<noteq> 0" | "rrdcached w \<noteq> []" "c = 0" "rc = 0"
    | "rrdcached w \<noteq> []" "c = 0" "rc \<noteq> 0" by blast
  then show ?thesis by cases (use s1 m assms(2) in \<open>simp_all add: writer_update_def c u d\<close>)
qed

lemma writer_shutdown_log:
  assumes "records ops files jr"
  shows "same_files files jr (os s) (os (writer_shutdown ops w s))"
proof -
  have "same_files files jr (os s) (snd (snd (op_rrdc_flushall ops (os s))))"
    "same_files files jr m (op_rrdc_disconnect ops m)" for m
    using assms by (simp_all add: records_def)
  then show ?thesis
    by (cases "op_rrdc_flushall ops (os s)") (simp add: writer_shutdown_def same_files_def Let_def)
qed

definition logged :: "('w \<Rightarrow> string set) \<Rightarrow> ('w \<Rightarrow> (string \<times> string) list) \<Rightarrow> (string \<times> string) list \<Rightarrow> 'w \<Rightarrow> 'w \<Rightarrow> bool" where
  \<comment> \<open>the updates were performed, on files that now exist, and no file is gone\<close>
  "logged files jr us m m' \<longleftrightarrow> jr m' = jr m @ us \<and> files m \<subseteq> files m' \<and> fst ` set us \<subseteq> files m'"

lemma logged_append: "logged files jr us m m1 \<Longrightarrow> logged files jr us' m1 m' \<Longrightarrow> logged files jr (us @ us') m m'"
  by (auto simp: logged_def)

lemma writer_write_log:
  assumes "records ops files jr" "writer_write ops w (Some m) s = Some (rc, s')"
  shows "logged files jr (updates_of w m) (os s) (os s')"
proof (cases "types_lookup (type m)")
  case None
  then show ?thesis using assms(2) by (auto simp: writer_write_spec Let_def updates_of_def logged_def)
next
  case (Some td)
  let ?p = "path_spec (datadir w) (host w) m"
  obtain s1 where c: "create_rrd ops td ?p (make_dirs ops ?p s) = Some (0, s1)"
    "files (os s1) = insert ?p (files (os s))" "jr (os s1) = jr (os s)"
    using create_rrd_log [OF assms(1) Some] make_dirs_log [OF assms(1)] by metis
  with writer_update_log [OF assms(1), of ?p s1 w "fmt_spec td m"] Some assms(2) show ?thesis
    by (auto simp: writer_write_spec Let_def updates_of_def logged_def split: if_splits)
qed

lemma write_events_log:
  assumes "records ops files jr"
  shows "write_events ops w es s = Some s' \<Longrightarrow> logged files jr (concat (map (updates_of w) (emitted es))) (os s) (os s')"
proof (induction es arbitrary: s)
  case (Cons e es)
  show ?case
  proof (cases e)
    case (Emit m)
    with Cons.prems obtain rc s1 where e: "writer_write ops w (Some m) s = Some (rc, s1)" "write_events ops w es s1 = Some s'"
      by (auto split: option.splits)
    from logged_append [OF writer_write_log [OF assms e(1)] Cons.IH [OF e(2)]] Emit show ?thesis by simp
  next
    case (Log l)
    with Cons.IH [of "log_line l s"] Cons.prems show ?thesis by simp
  qed
qed (simp add: logged_def)

section \<open>Every reader's metric is shown\<close>

lemma reader_pair_labels:
  assumes "(p, t) \<in> reader_pairs" "find_rule p t = Some r"
  shows "r_pi_label r = None \<longrightarrow> p \<in> {''cpu'', ''memory'', ''swap'', ''load'', ''uptime'', ''tcpconns''}"
    "r_ti_label r = None \<longrightarrow> p \<in> {''load'', ''uptime'', ''interface'', ''disk'', ''processes''}"
proof -
  have "r \<in> set RULES" "r_plugin r = p" using find_rule_SomeD [OF assms(2)] by simp_all
  moreover have "list_all (\<lambda>r. (r_pi_label r = None \<longrightarrow> r_plugin r \<in> {''cpu'', ''memory'', ''swap'', ''load'', ''uptime'', ''tcpconns''})
      \<and> (r_ti_label r = None \<longrightarrow> r_plugin r \<in> {''load'', ''uptime'', ''interface'', ''disk'', ''processes''})) RULES"
    by (simp add: RULES_def mk_rule_def)
  ultimately show "r_pi_label r = None \<longrightarrow> p \<in> {''cpu'', ''memory'', ''swap'', ''load'', ''uptime'', ''tcpconns''}"
    "r_ti_label r = None \<longrightarrow> p \<in> {''load'', ''uptime'', ''interface'', ''disk'', ''processes''}"
    by (auto simp: list_all_iff)
qed

lemma metric_shown:
  assumes "metric_ok reader_pairs m"
  shows "shown (copy_metric m)"
proof -
  obtain r d where r: "find_rule (sm_plugin (copy_metric m)) (sm_type (copy_metric m)) = Some r"
    "types_lookup (type m) = Some d" "td_ds_count d = ds_count m" "sm_ds_count (copy_metric m) = ds_count m"
    using reader_metric_rule [OF assms] by blast
  obtain p t where m: "plugin m = Some p" "type m = Some t" "(p, t) \<in> reader_pairs" "instances_ok p m"
    using assms by (auto simp: metric_ok_def)
  have "length p < 48" "length t < 48" using reader_pair_rule [OF m(3)] by blast+
  then have c: "sm_plugin (copy_metric m) = p" "sm_type (copy_metric m) = t"
    "sm_plugin_instance (copy_metric m) = copy_str 256 (plugin_instance m)"
    "sm_type_instance (copy_metric m) = copy_str 128 (type_instance m)"
    using m by (simp_all add: copy_metric_def copy_str_def Let_def)
  let ?S = "{''memory'', ''swap'', ''load'', ''uptime'', ''tcpconns''}"
  let ?T = "{''load'', ''uptime'', ''interface'', ''disk'', ''processes''}"
  have S: "p \<in> ?S \<Longrightarrow> p \<noteq> ''cpu''" by auto
  note io = m(4) [unfolded instances_ok_def]
  note i = io [THEN conjunct1, rule_format] io [THEN conjunct2, THEN conjunct1, rule_format]
    io [THEN conjunct2, THEN conjunct2, rule_format]
  note l = reader_pair_labels [OF m(3) r(1) [unfolded c]]
  have "copy_str 256 (plugin_instance m) = (if p = ''cpu'' then ''total'' else [])" if "r_pi_label r = None"
  proof -
    have "p = ''cpu'' \<or> p \<in> ?S" using l(1) that by (simp only: simp_thms insert_iff)
    then show ?thesis
    proof
      assume "p = ''cpu''"
      with i(1) show ?thesis by (simp add: copy_str_def)
    next
      assume "p \<in> ?S"
      then have "plugin_instance m = None" "p \<noteq> ''cpu''" by (rule i(2), rule S)
      then show ?thesis by (simp add: copy_str_def)
    qed
  qed
  moreover have "copy_str 128 (type_instance m) = []" if "r_ti_label r = None"
  proof -
    have "type_instance m = None" using l(2) that by (intro i(3)) (rule mp)
    then show ?thesis by (simp add: copy_str_def)
  qed
  ultimately show ?thesis using r m(2) by (simp add: shown_def c)
qed

section \<open>The page after a cycle\<close>

lemma cycle_snapshot:
  assumes "readers_events env enabled (cs_rd s) = Some (es, rd)" "snap_inv (cs_snap s)" "mem_ok (cs_mem s)"
    "collect_cycle ops w enabled env s = Some s'"
  shows "published (cs_snap s') = map copy_metric (emitted es)" "snap_inv (cs_snap s')"
    "write_events ops w es (cs_ws s) = Some (cs_ws s')"
proof -
  obtain ws where "write_events ops w es (cs_ws s) = Some ws" "collect_cycle ops w enabled env s =
       Some (s\<lparr>cs_rd := rd, cs_ws := ws,
               cs_snap := fst (snap_cycle prom_snapshot_begin prom_snapshot_add prom_snapshot_publish
                            (emitted es) (cs_snap s) (cs_mem s)),
               cs_mem := snd (snap_cycle prom_snapshot_begin prom_snapshot_add prom_snapshot_publish
                            (emitted es) (cs_snap s) (cs_mem s))\<rparr>)"
    by (rule collect_cycle_split [OF assms(1)])
  then show "published (cs_snap s') = map copy_metric (emitted es)" "snap_inv (cs_snap s')"
    "write_events ops w es (cs_ws s) = Some (cs_ws s')"
    using assms(4) snap.cycle_publishes [OF assms(2,3)] snap.cycle_wf [OF assms(2)] by auto
qed

lemma page_read:
  assumes "family_sorter qs" "snap_inv sn" "mem_ok h"
  shows "\<exists>t. fst (prom_render qs sn h) = Some (t, True)
     \<and> read_page t = Some (page_items (published sn) (qs (entries (published sn))))"
  using family_sorter.prom_render_ok [OF assms] read_exposition [OF family_sorter.qs_entries_ok [OF assms(1)]]
  by auto

lemma headers_distinct:
  assumes "entries_ok ms es"
  shows "distinct (filter (\<lambda>i. \<not> is_sample i) (page_items ms es))"
proof -
  let ?hd = "\<lambda>r. [Help (r_family r) (r_help r), Typ (r_family r) (prom_type_for (r_type r))]"
  have "filter (\<lambda>i. \<not> is_sample i) (metric_items r sm) = []" for r sm
    by (auto simp: metric_items_def sample_item_def filter_empty_conv)
  then have "filter (\<lambda>i. \<not> is_sample i) (block_items ms es r) = ?hd r" for r
    by (simp add: block_items_def filter_concat comp_def)
  then have f: "filter (\<lambda>i. \<not> is_sample i) (page_items ms es) = concat (map ?hd (firsts (map fst es)))"
    by (simp add: page_items_def filter_concat comp_def)
  have "set (firsts (map fst es)) \<subseteq> set RULES" using assms by (auto simp: entries_ok_def)
  moreover have "distinct rs \<Longrightarrow> set rs \<subseteq> set RULES \<Longrightarrow> distinct (concat (map ?hd rs))" for rs
    by (induction rs) (auto dest: family_inj)
  ultimately show ?thesis unfolding f using distinct_firsts by blast
qed

section \<open>The counters of the interfaces\<close>

definition net_families :: "string set" where
  "net_families = {''svgd_network_bytes_total'', ''svgd_network_packets_total'', ''svgd_network_errors_total''}"

definition net_items :: "string \<Rightarrow> string \<Rightarrow> int \<Rightarrow> int \<Rightarrow> item list" where
  "net_items fam dev rx tx =
     [Sample fam [(''device'', dev), (''direction'', ''receive'')] (show_int rx),
      Sample fam [(''device'', dev), (''direction'', ''transmit'')] (show_int tx)]"

definition iface_items :: "iface_row \<Rightarrow> item list" where
  \<comment> \<open>what a scraper is to read of an interface\<close>
  "iface_items r =
     (let v = (\<lambda>i. int (snd (if_cols r ! i)))
      in if if_name r = ''lo'' then []
         else net_items ''svgd_network_bytes_total'' (if_name r) (v 0) (v 8)
            @ net_items ''svgd_network_packets_total'' (if_name r) (v 1) (v 9)
            @ net_items ''svgd_network_errors_total'' (if_name r) (v 2) (v 10))"

definition net_update :: "writer \<Rightarrow> string \<Rightarrow> string \<Rightarrow> int \<Rightarrow> int \<Rightarrow> string \<times> string" where
  "net_update w dev t rx tx =
     (datadir w @ ''/'' @ host w @ ''/interface-'' @ dev @ ''/'' @ t @ ''.rrd'', ''N:'' @ show_int rx @ '':'' @ show_int tx)"

definition iface_updates :: "writer \<Rightarrow> iface_row \<Rightarrow> (string \<times> string) list" where
  \<comment> \<open>what is to be written of an interface\<close>
  "iface_updates w r =
     (let v = (\<lambda>i. int (snd (if_cols r ! i)))
      in if if_name r = ''lo'' then []
         else [net_update w (if_name r) ''if_octets'' (v 0) (v 8), net_update w (if_name r) ''if_packets'' (v 1) (v 9),
               net_update w (if_name r) ''if_errors'' (v 2) (v 10)])"

definition iface_small :: "iface_row \<Rightarrow> bool" where
  \<comment> \<open>counters of at most \<open>10^15\<close>, a petabyte\<close>
  "iface_small r \<longleftrightarrow> list_all (\<lambda>c. snd c \<le> 10 ^ 15) (if_cols r)"

lemma net_metric_items:
  assumes "dev \<noteq> []" "length dev < 64" "\<bar>rx\<bar> \<le> 10 ^ 15" "\<bar>tx\<bar> \<le> 10 ^ 15"
  shows "items_of (copy_metric (interface_metric dev ''if_octets'' rx tx)) = net_items ''svgd_network_bytes_total'' dev rx tx"
    "items_of (copy_metric (interface_metric dev ''if_packets'' rx tx)) = net_items ''svgd_network_packets_total'' dev rx tx"
    "items_of (copy_metric (interface_metric dev ''if_errors'' rx tx)) = net_items ''svgd_network_errors_total'' dev rx tx"
proof -
  have u: "[0..<nat 2] = [0, 1]" by (simp add: upt_rec)
  note v = fmt_val_of_int [OF assms(3)] fmt_val_of_int [OF assms(4)]
  show "items_of (copy_metric (interface_metric dev ''if_octets'' rx tx)) = net_items ''svgd_network_bytes_total'' dev rx tx"
    "items_of (copy_metric (interface_metric dev ''if_packets'' rx tx)) = net_items ''svgd_network_packets_total'' dev rx tx"
    "items_of (copy_metric (interface_metric dev ''if_errors'' rx tx)) = net_items ''svgd_network_errors_total'' dev rx tx"
    using assms(1,2) v u
    by (simp_all add: items_of_def copy_metric_def interface_metric_def copy_str_def Let_def METRIC_MAX_DS_def
        find_rule_def RULES_def mk_rule_def metric_items_def sample_item_def label_list_def ds_value_def net_items_def)
qed

lemma iface_value: "iface_ok r \<Longrightarrow> iface_small r \<Longrightarrow> i < 16 \<Longrightarrow> \<bar>int (snd (if_cols r ! i))\<bar> \<le> 10 ^ 15"
proof -
  assume a: "iface_ok r" "iface_small r" "i < 16"
  then have "if_cols r ! i \<in> set (if_cols r)" by (simp add: iface_ok_def)
  with a(2) have "snd (if_cols r ! i) \<le> 10 ^ 15" by (simp add: iface_small_def list_all_iff)
  then have "int (snd (if_cols r ! i)) \<le> int (10 ^ 15)" by (simp only: of_nat_le_iff)
  then show ?thesis by simp
qed

lemma iface_metrics_items:
  assumes "iface_ok r" "iface_small r"
  shows "concat (map (\<lambda>m. items_of (copy_metric m)) (iface_metrics r)) = iface_items r"
proof -
  have d: "if_name r \<noteq> []" "length (if_name r) < 64" using assms(1) by (auto simp: iface_ok_def is_token_def)
  show ?thesis
    using net_metric_items [OF d] iface_value [OF assms] by (simp add: iface_metrics_def iface_items_def Let_def)
qed

lemma net_metric_updates:
  assumes "length (datadir w) + length (host w) + 200 < 4096" "length dev < 64" "\<bar>rx\<bar> \<le> 10 ^ 15" "\<bar>tx\<bar> \<le> 10 ^ 15"
    "t \<in> {''if_octets'', ''if_packets'', ''if_errors''}"
  shows "updates_of w (interface_metric dev t rx tx) = [net_update w dev t rx tx]"
proof -
  let ?m = "interface_metric dev t rx tx"
  obtain td where td: "types_lookup (Some t) = Some td" "is_counter td" "td_ds_count td = 2" "length (td_ds td) = 2"
    using assms(5) by (auto simp: is_counter_def ds_tables)
  have b: "\<bar>rx\<bar> \<le> 2 ^ 53" "\<bar>tx\<bar> \<le> 2 ^ 53" using assms(3,4) by simp_all
  have f: "fmt_spec td ?m = ''N:'' @ show_int rx @ '':'' @ show_int tx"
    using fmt_spec_counters [OF types_lookup_ok [OF td(1)] td(2), of ?m "[rx, tx]"] td b by (simp add: interface_metric_def)
  have "length (fmt_spec td ?m) < 256" unfolding f using length_show_int [OF b(1)] length_show_int [OF b(2)] by simp
  moreover have "length t \<le> 10" using assms(5) by auto
  then have "length (path_spec (datadir w) (host w) ?m) < 4096" "length (file_name ?m) < 256"
    using assms(1,2) by (simp_all add: path_spec_def seg_def file_name_def interface_metric_def fmt_s_def)
  moreover have "ds_count ?m = 2" "type ?m = Some t" by (simp_all add: interface_metric_def)
  moreover have "path_spec (datadir w) (host w) ?m = fst (net_update w dev t rx tx)"
    by (simp add: path_spec_def seg_def net_update_def interface_metric_def fmt_s_def)
  ultimately show ?thesis using td f by (simp add: updates_of_def net_update_def)
qed

lemma iface_metrics_updates:
  assumes "iface_ok r" "iface_small r" "length (datadir w) + length (host w) + 200 < 4096"
  shows "concat (map (updates_of w) (iface_metrics r)) = iface_updates w r"
proof -
  have "length (if_name r) < 64" using assms(1) by (simp add: iface_ok_def)
  from net_metric_updates [OF assms(3) this] iface_value [OF assms(1,2)] show ?thesis
    by (simp add: iface_metrics_def iface_updates_def Let_def)
qed

lemma other_reader_plugin:
  assumes "reader_read r env base s = Some (rc, es, s')" "r \<noteq> interface_reader" "m \<in> set (emitted es)"
  shows "plugin m \<noteq> Some ''interface''"
proof -
  have "\<exists>P. metric_ok P m \<and> (\<forall>t. (''interface'', t) \<notin> P)"
    using assms
    by (cases r) (auto dest!: cpu.emits_ok load.emits_ok uptime.emits_ok memory.emits_ok swap.emits_ok disk.emits_ok
        df.emits_ok processes.emits_ok thermal.emits_ok tcpconns.emits_ok simp: disk_pairs_def ps_pairs_def)
  then show ?thesis by (auto simp: metric_ok_def)
qed


lemma others_plugin:
  "readers_events env rs rd = Some (es, rd') \<Longrightarrow> interface_reader \<notin> set rs \<Longrightarrow> m \<in> set (emitted es) \<Longrightarrow>
     plugin m \<noteq> Some ''interface''"
proof (induction rs arbitrary: rd es)
  case (Cons r rs)
  then obtain rc es1 rd1 es2 where r: "reader_read r (env r) ''/proc'' rd = Some (rc, es1, rd1)"
    "readers_events env rs rd1 = Some (es2, rd')" "es = es1 @ es2"
    by (auto split: option.splits)
  with Cons other_reader_plugin [OF r(1)] show ?case by auto
qed simp

lemma readers_events_append:
  "readers_events env (rs @ rs') rd =
     (case readers_events env rs rd of None \<Rightarrow> None
      | Some (es, rd1) \<Rightarrow> (case readers_events env rs' rd1 of None \<Rightarrow> None | Some (es', rd2) \<Rightarrow> Some (es @ es', rd2)))"
  by (induction rs arbitrary: rd) (auto split: option.splits)

lemma interface_part:
  assumes "readers_events env enabled rd = Some (es, rd')" "distinct enabled" "interface_reader \<in> set enabled"
    "os_fopen (env interface_reader) ''/proc/net/dev'' = Inr (netdev_text h1 h2 rows)"
    "line_ok 512 h1" "line_ok 512 h2" "list_all iface_ok rows"
  obtains xs ys where "emitted es = xs @ concat (map iface_metrics rows) @ ys"
    "\<And>m. m \<in> set (xs @ ys) \<Longrightarrow> plugin m \<noteq> Some ''interface''"
proof -
  obtain rs rs' where e: "enabled = rs @ interface_reader # rs'" using assms(3) by (meson split_list)
  then have n: "interface_reader \<notin> set rs" "interface_reader \<notin> set rs'" using assms(2) by auto
  have "os_fopen (env interface_reader) (snprintf_buf 1024 (''/proc'' @ ''/net/dev'')) = Inr (netdev_text h1 h2 rows)"
    using assms(4) by (simp add: snprintf_buf_def)
  from interface_read_text [OF this assms(5-7)]
  have i: "reader_read interface_reader (env interface_reader) ''/proc'' t = Some (0, map Emit (concat (map iface_metrics rows)), t)" for t
    by simp
  obtain es1 es2 t where r: "readers_events env rs rd = Some (es1, t)" "readers_events env rs' t = Some (es2, rd')"
    "es = es1 @ map Emit (concat (map iface_metrics rows)) @ es2"
    using assms(1) unfolding e readers_events_append by (auto simp: i split: option.splits simp del: reader_read.simps)
  show thesis
    by (rule that [of "emitted es1" "emitted es2"])
      (use r others_plugin [OF r(1) n(1)] others_plugin [OF r(2) n(2)] in auto)
qed

definition is_net :: "item \<Rightarrow> bool" where
  "is_net i = (case i of Sample f ls v \<Rightarrow> f \<in> net_families | _ \<Rightarrow> False)"

lemma net_rules: "list_all (\<lambda>r. r_family r \<in> net_families \<longleftrightarrow> r_plugin r = ''interface'') RULES"
  by (simp add: RULES_def mk_rule_def net_families_def)

lemma is_net_items:
  assumes "metric_ok reader_pairs m" "i \<in> set (items_of (copy_metric m))"
  shows "is_net i \<longleftrightarrow> plugin m = Some ''interface''"
proof -
  obtain p t where m: "plugin m = Some p" "(p, t) \<in> reader_pairs" using assms(1) by (auto simp: metric_ok_def)
  have c: "sm_plugin (copy_metric m) = p"
    using reader_pair_rule [OF m(2)] m(1) by (auto simp: copy_metric_def copy_str_def Let_def)
  obtain r j where r: "find_rule (sm_plugin (copy_metric m)) (sm_type (copy_metric m)) = Some r"
    "i = sample_item r (copy_metric m) j" using assms(2) by (rule items_ofE)
  from find_rule_SomeD [OF r(1)] net_rules c have "r_family r \<in> net_families \<longleftrightarrow> p = ''interface''"
    by (auto simp: list_all_iff)
  then show ?thesis using m by (simp add: is_net_def r sample_item_def)
qed

lemma net_items_of_page:
  assumes "\<And>m. m \<in> set ms \<Longrightarrow> metric_ok reader_pairs m"
  shows "filter is_net (concat (map (\<lambda>m. items_of (copy_metric m)) ms))
     = concat (map (\<lambda>m. items_of (copy_metric m)) (filter (\<lambda>m. plugin m = Some ''interface'') ms))"
  using assms
proof (induction ms)
  case (Cons m ms)
  have "filter is_net (items_of (copy_metric m)) = (if plugin m = Some ''interface'' then items_of (copy_metric m) else [])"
    using is_net_items [of m] Cons.prems by (auto simp: filter_id_conv filter_empty_conv)
  then show ?case using Cons by simp
qed simp

lemma iface_rows_items:
  "list_all iface_ok rows \<Longrightarrow> list_all iface_small rows \<Longrightarrow>
     concat (map (\<lambda>m. items_of (copy_metric m)) (concat (map iface_metrics rows))) = concat (map iface_items rows)"
  by (induction rows) (simp_all add: iface_metrics_items)

lemma iface_rows_updates:
  "list_all iface_ok rows \<Longrightarrow> list_all iface_small rows \<Longrightarrow> length (datadir w) + length (host w) + 200 < 4096 \<Longrightarrow>
     concat (map (updates_of w) (concat (map iface_metrics rows))) = concat (map (iface_updates w) rows)"
  by (induction rows) (simp_all add: iface_metrics_updates)

lemma iface_metrics_plugin: "m \<in> set (iface_metrics r) \<Longrightarrow> plugin m = Some ''interface''"
  by (auto simp: iface_metrics_def interface_metric_def Let_def split: if_splits)


lemma interface_directory:
  assumes "metric_ok reader_pairs m" "u \<in> set (updates_of w m)"
  shows "prefix (datadir w @ ''/'' @ host w @ ''/interface'') (fst u) \<longleftrightarrow> plugin m = Some ''interface''"
proof -
  obtain p t where m: "plugin m = Some p" "(p, t) \<in> reader_pairs" using assms(1) by (auto simp: metric_ok_def)
  have "prefix ''interface'' (p @ r) \<longleftrightarrow> p = ''interface''" for r
    using m(2) by (auto simp: reader_pairs_def interface_pairs_def disk_pairs_def ps_pairs_def)
  moreover have "fst u = path_spec (datadir w) (host w) m"
    using assms(2) by (auto simp: updates_of_def split: option.splits if_splits)
  ultimately show ?thesis using m(1) by (simp add: path_spec_def seg_def fmt_s_def)
qed

lemma interface_updates_of:
  assumes "\<And>m. m \<in> set ms \<Longrightarrow> metric_ok reader_pairs m"
  shows "filter (\<lambda>u. prefix (datadir w @ ''/'' @ host w @ ''/interface'') (fst u)) (concat (map (updates_of w) ms))
     = concat (map (updates_of w) (filter (\<lambda>m. plugin m = Some ''interface'') ms))"
  using assms
proof (induction ms)
  case (Cons m ms)
  have "filter (\<lambda>u. prefix (datadir w @ ''/'' @ host w @ ''/interface'') (fst u)) (updates_of w m)
      = (if plugin m = Some ''interface'' then updates_of w m else [])"
    using interface_directory [of m] Cons.prems by (auto simp: filter_id_conv filter_empty_conv)
  then show ?case using Cons by simp
qed simp

lemma interface_metrics_of_pass:
  assumes "readers_events env enabled rd = Some (es, rd')" "distinct enabled" "interface_reader \<in> set enabled"
    "os_fopen (env interface_reader) ''/proc/net/dev'' = Inr (netdev_text h1 h2 rows)"
    "line_ok 512 h1" "line_ok 512 h2" "list_all iface_ok rows"
  shows "filter (\<lambda>m. plugin m = Some ''interface'') (emitted es) = concat (map iface_metrics rows)"
proof -
  obtain xs ys where e: "emitted es = xs @ concat (map iface_metrics rows) @ ys"
    and n: "\<And>m. m \<in> set (xs @ ys) \<Longrightarrow> plugin m \<noteq> Some ''interface''"
    using interface_part [OF assms] by blast
  from n have "filter (\<lambda>m. plugin m = Some ''interface'') xs = []" "filter (\<lambda>m. plugin m = Some ''interface'') ys = []"
    by (auto simp: filter_empty_conv)
  moreover have "filter (\<lambda>m. plugin m = Some ''interface'') (concat (map iface_metrics rows)) = concat (map iface_metrics rows)"
    by (auto simp: filter_id_conv dest: iface_metrics_plugin)
  ultimately show ?thesis by (simp add: e)
qed

lemma page_after_cycle:
  assumes "family_sorter qs"
    "readers_events env enabled (cs_rd s) = Some (es, rd)" "snap_inv (cs_snap s)" "mem_ok (cs_mem s)"
    "collect_cycle ops w enabled env s = Some s'" "mem_ok h"
  obtains t items where "fst (prom_render qs (cs_snap s') h) = Some (t, True)" "read_page t = Some items"
    "mset (filter is_sample items) = mset (concat (map (\<lambda>m. items_of (copy_metric m)) (emitted es)))"
    "distinct (filter (\<lambda>i. \<not> is_sample i) items)"
    "distinct (map (\<lambda>m. key_of (copy_metric m)) (emitted es)) \<Longrightarrow> distinct (map series (filter is_sample items))"
proof -
  let ?ms = "map copy_metric (emitted es)"
  note c = cycle_snapshot [OF assms(2-5)]
  obtain t where t: "fst (prom_render qs (cs_snap s') h) = Some (t, True)"
    "read_page t = Some (page_items ?ms (qs (entries ?ms)))"
    using page_read [OF assms(1) c(2) assms(6)] by (auto simp: c(1))
  have q: "mset (qs (entries ?ms)) = mset (entries ?ms)" by (rule family_sorter.qs_mset [OF assms(1)])
  have "list_all shown ?ms"
    using readers_events_ok [OF assms(2)] metric_shown by (auto simp: list_all_iff)
  with distinct_page_series [OF q] have "distinct (map key_of ?ms) \<Longrightarrow>
      distinct (map series (filter is_sample (page_items ?ms (qs (entries ?ms)))))" by blast
  with page_samples [OF q] headers_distinct [OF family_sorter.qs_entries_ok [OF assms(1)]] t show thesis
    by (intro that [of t "page_items ?ms (qs (entries ?ms))"]) (simp_all add: comp_def)
qed

lemma net_is_sample: "is_net i \<Longrightarrow> is_sample i"
  by (cases i) (simp_all add: is_net_def)

end
