(* ===== verification/PassKeys.thy ===== *)
theory PassKeys
  imports EndToEnd
begin

text \<open>
  No series twice: seven of the readers never emit two metrics with the same names, whatever the kernel shows
  them, and two readers never share a plugin name. So the names of a pass are distinct as soon as those of
  the four readers that name their metrics after devices are.
\<close>

definition mkey :: "metric \<Rightarrow> string \<times> string \<times> string \<times> string" where
  "mkey m = key_of (copy_metric m)"

lemma mkey_eq:
  "mkey m = (copy_str 48 (plugin m), copy_str 48 (type m), copy_str 256 (plugin_instance m), copy_str 128 (type_instance m))"
  by (simp add: mkey_def key_of_def copy_metric_def Let_def)

section \<open>Plugins\<close>

fun plugin_name :: "reader \<Rightarrow> string" where
  "plugin_name cpu_reader = ''cpu''"
| "plugin_name load_reader = ''load''"
| "plugin_name uptime_reader = ''uptime''"
| "plugin_name memory_reader = ''memory''"
| "plugin_name swap_reader = ''swap''"
| "plugin_name interface_reader = ''interface''"
| "plugin_name disk_reader = ''disk''"
| "plugin_name df_reader = ''df''"
| "plugin_name processes_reader = ''processes''"
| "plugin_name thermal_reader = ''thermal''"
| "plugin_name tcpconns_reader = ''tcpconns''"

lemma plugin_name_inj: "plugin_name r = plugin_name r' \<Longrightarrow> r = r'"
  by (cases r; cases r') simp_all

lemma plugin_name_short: "copy_str 48 (Some (plugin_name r)) = plugin_name r"
  by (cases r) (simp_all add: copy_str_def)

lemma reader_plugin:
  assumes "reader_read r env base s = Some (rc, es, s')" "m \<in> set (emitted es)"
  shows "plugin m = Some (plugin_name r)"
proof -
  have "\<exists>P. metric_ok P m \<and> (\<forall>(p, t) \<in> P. p = plugin_name r)"
    using assms
    by (cases r) (auto dest!: cpu.emits_ok load.emits_ok uptime.emits_ok memory.emits_ok swap.emits_ok disk.emits_ok
        df.emits_ok processes.emits_ok thermal.emits_ok tcpconns.emits_ok interface.emits_ok
        simp: disk_pairs_def ps_pairs_def interface_pairs_def)
  then show ?thesis by (auto simp: metric_ok_def)
qed

lemma pass_plugin:
  "readers_events env rs rd = Some (es, rd') \<Longrightarrow> m \<in> set (emitted es) \<Longrightarrow> \<exists>r \<in> set rs. plugin m = Some (plugin_name r)"
proof (induction rs arbitrary: rd es)
  case (Cons r rs)
  then obtain rc es1 rd1 es2 where r: "reader_read r (env r) ''/proc'' rd = Some (rc, es1, rd1)"
    "readers_events env rs rd1 = Some (es2, rd')" "es = es1 @ es2"
    by (auto split: option.splits)
  with Cons reader_plugin [OF r(1)] show ?case by fastforce
qed simp

section \<open>Readers that never repeat a name\<close>

lemma sys_keys:
  "cpu_read env base s = Some (rc, es, s') \<Longrightarrow> distinct (map mkey (emitted es))"
  "load_read env base s = Some (rc, es, s') \<Longrightarrow> distinct (map mkey (emitted es))"
  "uptime_read env base s = Some (rc, es, s') \<Longrightarrow> distinct (map mkey (emitted es))"
  "memory_read env base s = Some (rc, es, s') \<Longrightarrow> distinct (map mkey (emitted es))"
  "swap_read env base s = Some (rc, es, s') \<Longrightarrow> distinct (map mkey (emitted es))"
  by (auto simp: cpu_read_def cpu_emit_def load_read_def uptime_read_def memory_read_def memory_metric_def swap_read_def
      swap_metric_def mkey_eq copy_str_def bind_eq_Some_conv Let_def split: sum.splits option.splits prod.splits if_splits)

lemma distinct_map_concat:
  assumes "distinct (map g xs)" "\<And>x y. x \<in> set xs \<Longrightarrow> y \<in> set (h x) \<Longrightarrow> k (f y) = g x" "\<And>x. x \<in> set xs \<Longrightarrow> distinct (map f (h x))"
  shows "distinct (map f (concat (map h xs)))"
  using assms
proof (induction xs)
  case (Cons x xs)
  have "k (f y) = g x" if "y \<in> set (h x)" for y using Cons.prems(2) that by simp
  moreover have "\<exists>x' \<in> set xs. k (f y) = g x'" if "y \<in> set (concat (map h xs))" for y
    using Cons.prems(2) that by fastforce
  ultimately have "f ` set (h x) \<inter> f ` set (concat (map h xs)) = {}"
    using Cons.prems(1) by (fastforce simp: image_iff)
  moreover have "distinct (map f (concat (map h xs)))" using Cons by (intro Cons.IH) auto
  ultimately show ?case using Cons.prems(3) by simp
qed simp

lemma tcp_keys: "tcpconns_read env base s = Some (rc, es, s') \<Longrightarrow> distinct (map mkey (emitted es))"
proof -
  assume r: "tcpconns_read env base s = Some (rc, es, s')"
  obtain cnt opened es0 where c: "tcp_scan env base = (cnt, opened, es0)" by (cases "tcp_scan env base")
  have "distinct (map (\<lambda>i. TCP_STATE_NAMES ! i) [1..<TCP_STATE_MAX])"
    by (simp add: TCP_STATE_NAMES_def TCP_STATE_MAX_def upt_rec)
  moreover have "length (TCP_STATE_NAMES ! i) \<le> 127" if "i < TCP_STATE_MAX" for i
  proof -
    have "list_all (\<lambda>x. length x \<le> 127) TCP_STATE_NAMES" by (simp add: TCP_STATE_NAMES_def)
    with that show ?thesis by (simp add: list_all_length TCP_STATE_MAX_def)
  qed
  ultimately have "distinct (map mkey (tcp_emit cnt))" unfolding tcp_emit_def
    by (intro distinct_map_concat [where k = "\<lambda>(a, b, c, d). d" and g = "\<lambda>i. TCP_STATE_NAMES ! i"]) (auto simp: mkey_eq tcp_metric_def copy_str_def split: if_splits)
  then show ?thesis using r tcp_scan_emitted [OF c] by (auto simp: tcpconns_read_def c split: if_splits)
qed

lemma ps_keys: "processes_read env base s = Some (rc, es, s') \<Longrightarrow> distinct (map mkey (emitted es))"
proof (cases "os_opendir env base")
  case (Inl e)
  assume "processes_read env base s = Some (rc, es, s')"
  with Inl show ?thesis by (auto simp: processes_read_def)
next
  case (Inr names)
  assume r: "processes_read env base s = Some (rc, es, s')"
  let ?ps = "samples env base names"
  have len: "length c \<le> 255" if "c \<in> set (map ps_comm ?ps)" for c
    using that read_pid_comm by (fastforce simp: samples_def map_filter_def COMM_LEN_def)
  have "distinct (map comm (agg_spec ?ps))" by (simp add: agg_spec_def comp_def distinct_firsts)
  moreover have "length (comm a) \<le> 255" if "a \<in> set (agg_spec ?ps)" for a
    using that len by (auto simp: agg_spec_def dest!: in_set_takeD)
  ultimately have "distinct (map mkey (concat (map agg_emit (agg_spec ?ps))))"
    by (intro distinct_map_concat [where k = "\<lambda>(a, b, c, d). c" and g = comm])
      (auto simp: agg_emit_def ps_metric_def mkey_eq copy_str_def)
  then show ?thesis using processes_read_spec [OF Inr r] by simp
qed

section \<open>A pass\<close>

definition is_device :: "metric \<Rightarrow> bool" where
  "is_device m \<longleftrightarrow> plugin m \<in> Some ` plugin_name ` {interface_reader, disk_reader, df_reader, thermal_reader}"

lemma reader_keys:
  assumes "reader_read r env base s = Some (rc, es, s')" "distinct (map mkey (filter is_device (emitted es)))"
  shows "distinct (map mkey (emitted es))"
proof (cases "r \<in> {interface_reader, disk_reader, df_reader, thermal_reader}")
  case True
  then have "filter is_device (emitted es) = emitted es"
    using reader_plugin [OF assms(1)] by (auto simp: filter_id_conv is_device_def)
  with assms(2) show ?thesis by simp
next
  case False
  with assms(1) show ?thesis by (cases r) (auto simp: sys_keys tcp_keys ps_keys)
qed

lemma pass_disjoint:
  assumes "reader_read r (env r) ''/proc'' rd = Some (rc, es1, rd1)" "readers_events env rs rd1 = Some (es2, rd')" "r \<notin> set rs"
  shows "mkey ` set (emitted es1) \<inter> mkey ` set (emitted es2) = {}"
proof -
  have "mkey m \<noteq> mkey m'" if a: "m \<in> set (emitted es1)" and b: "m' \<in> set (emitted es2)" for m m'
  proof -
    obtain r' where "r' \<in> set rs" "plugin m' = Some (plugin_name r')" using pass_plugin [OF assms(2) b] by blast
    moreover have "plugin m = Some (plugin_name r)" by (rule reader_plugin [OF assms(1) a])
    ultimately show ?thesis using assms(3) plugin_name_inj by (auto simp: mkey_eq plugin_name_short)
  qed
  then show ?thesis by blast
qed

lemma pass_keys:
  "readers_events env rs rd = Some (es, rd') \<Longrightarrow> distinct rs \<Longrightarrow> distinct (map mkey (filter is_device (emitted es))) \<Longrightarrow>
     distinct (map mkey (emitted es))"
proof (induction rs arbitrary: rd es)
  case (Cons r rs)
  then obtain rc es1 rd1 es2 where r: "reader_read r (env r) ''/proc'' rd = Some (rc, es1, rd1)"
    "readers_events env rs rd1 = Some (es2, rd')" "es = es1 @ es2"
    by (auto split: option.splits)
  then show ?case
    using pass_disjoint [OF r(1,2)] reader_keys [OF r(1)] Cons.IH [OF r(2)] Cons.prems(2,3) by simp
qed simp

end
