(* ===== verification/ValueText.thy ===== *)
theory ValueText
  imports CLib
begin

text \<open>
  How long printed numbers are: the doubles the program computes have the exponents of binary64, so
  \<^verbatim>\<open>%.17g\<close> prints at most 24 characters, and \<^verbatim>\<open>%.0f\<close> prints few digits of the numbers that come from counters.
\<close>

section \<open>Doubles\<close>

definition is_double :: "double \<Rightarrow> bool" where
  "is_double x \<longleftrightarrow> (case x of Finite s m e \<Rightarrow> m \<le> 2 ^ 53 \<and> - 1074 \<le> e \<and> e \<le> 971 | _ \<Rightarrow> True)"

lemma round_ratio_double: "0 < d \<Longrightarrow> is_double (round_ratio s n d)"
proof (cases "n = 0")
  case False
  assume d: "0 < d"
  have "round_sig n d \<le> 2 ^ 53" using False d by (intro round_sig_le) simp_all
  moreover have "- 1074 \<le> round_exp n d" by (simp add: round_exp_def Let_def)
  ultimately show ?thesis
    using False by (auto simp: is_double_def round_ratio_def round_sig_def Let_def mk_finite_def)
qed (simp add: is_double_def round_ratio_def)

lemma double_ops: "is_double (double_of_int i)" "is_double (dmul x y)" "is_double (ddiv x y)"
  by (simp add: double_of_int_def round_ratio_double)
    (cases x; cases y; simp add: round_ratio_double; simp add: is_double_def)+

lemma strtod_double: "strtod s = Some (x, r) \<Longrightarrow> is_double x"
  by (auto simp: strtod_def scale_def round_ratio_double split: prod.splits if_splits option.splits)
    (simp_all add: is_double_def)

section \<open>Digits\<close>

lemma show_nat_upper: "n < 10 ^ length (show_nat n)"
proof (induction n rule: show_nat.induct)
  case (1 n)
  show ?case
  proof (cases "n < 10")
    case False
    with 1 have "n div 10 < 10 ^ length (show_nat (n div 10))" by simp
    then have "n < 10 * 10 ^ length (show_nat (n div 10))" by simp
    then show ?thesis using False by (simp add: show_nat_rec)
  qed (simp add: show_nat_rec)
qed

lemma dec_neg_bound: "0 < n \<Longrightarrow> n < 10 * d \<Longrightarrow> \<exists>i. dec_neg n d j = j + i \<and> n * 10 ^ i < 10 * d"
proof (induction n d j rule: dec_neg.induct)
  case (1 n d j)
  show ?case
  proof (cases "d \<le> n")
    case True
    then show ?thesis using 1 by (intro exI [of _ 0]) (simp add: dec_neg_rec)
  next
    case False
    then obtain i where "dec_neg (10 * n) d (Suc j) = Suc j + i" "10 * n * 10 ^ i < 10 * d" using 1 by auto
    then show ?thesis using False 1 by (intro exI [of _ "Suc i"]) (simp add: dec_neg_rec ac_simps)
  qed
qed

lemma dec_exp_upper:
  assumes "0 < n" "0 < d"
  shows "n * 10 ^ nat (- dec_exp n d - 1) < d * 10 ^ nat (dec_exp n d + 1)"
proof (cases "d \<le> n")
  case True
  let ?l = "length (show_nat (n div d))"
  have l: "0 < ?l" by simp
  have "n < d * 10 ^ ?l"
    using show_nat_upper [of "n div d"] assms(2) by (simp add: div_less_iff_less_mult mult.commute)
  then show ?thesis using True l by (simp add: dec_exp_def)
next
  case False
  then obtain i where i: "dec_neg n d 0 = i" "n * 10 ^ i < 10 * d"
    using dec_neg_bound [of n d 0] assms by auto
  have "i \<noteq> 0"
  proof
    assume "i = 0"
    then have "dec_neg n d 0 = 0" using i by simp
    moreover have "dec_neg n d 0 = dec_neg (10 * n) d 1" using False assms by (simp add: dec_neg_rec)
    moreover have "\<exists>k. dec_neg (10 * n) d 1 = 1 + k" using dec_neg_bound [of "10 * n" d 1] False assms by auto
    ultimately show False by auto
  qed
  then obtain k where k: "i = Suc k" by (cases i) auto
  with i(2) have "n * 10 ^ k < d" by simp
  moreover have "nat (- dec_exp n d - 1) = k" "nat (dec_exp n d + 1) = 0" using False i(1) k by (simp_all add: dec_exp_def)
  ultimately show ?thesis by simp
qed

lemma round_dec_digits:
  assumes "0 < n" "0 < d" "0 < P" "round_dec P n d = (q, X)"
  shows "q < 10 ^ P" "X = dec_exp n d \<or> X = dec_exp n d + 1"
proof -
  let ?X = "dec_exp n d"
  let ?k = "int P - 1 - ?X"
  let ?q = "round_half_even (n * 10 ^ nat ?k) (d * 10 ^ nat (- ?k))"
  have u: "n * 10 ^ nat (- ?X - 1) < d * 10 ^ nat (?X + 1)" by (rule dec_exp_upper [OF assms(1,2)])
  have "n * 10 ^ nat ?k \<le> 10 ^ P * (d * 10 ^ nat (- ?k))"
  proof (cases "0 \<le> ?X + 1")
    case True
    then have n: "n < d * 10 ^ nat (?X + 1)" using u by (simp add: nat_eq_iff2 split: if_splits)
    show ?thesis
    proof (cases "0 \<le> ?k")
      case k: True
      have "n * 10 ^ nat ?k < d * 10 ^ nat (?X + 1) * 10 ^ nat ?k" using n by simp
      also have "\<dots> = d * 10 ^ (nat (?X + 1) + nat ?k)" by (simp add: power_add)
      also have "nat (?X + 1) + nat ?k = P" using True k by (simp add: nat_add_distrib [symmetric])
      finally show ?thesis using k by (simp add: mult.commute)
    next
      case False
      have "nat (?X + 1) = P + nat (- ?k)" using True False by simp
      then show ?thesis using n False by (simp add: power_add ac_simps)
    qed
  next
    case False
    then have "nat (?X + 1) = 0" "nat ?k = P + nat (- ?X - 1)" "nat (- ?k) = 0" using assms(3) by simp_all
    then show ?thesis using u by (simp add: power_add ac_simps)
  qed
  then have "?q \<le> 10 ^ P" using assms(2) by (intro round_half_even_le) simp_all
  then show "q < 10 ^ P" using assms(3,4) by (auto simp: round_dec_def Let_def split: if_splits)
  show "X = ?X \<or> X = ?X + 1" using assms(4) by (auto simp: round_dec_def Let_def split: if_splits)
qed

lemma dec_exp_double:
  assumes "0 < m" "m \<le> 2 ^ 53" "- 1074 \<le> e" "e \<le> 971"
  shows "- 324 \<le> dec_exp (m * 2 ^ nat e) (2 ^ nat (- e))" "dec_exp (m * 2 ^ nat e) (2 ^ nat (- e)) \<le> 308"
proof -
  let ?n = "m * 2 ^ nat e" and ?d = "2 ^ nat (- e) :: nat"
  have d: "?d \<le> 2 ^ 1074" using assms(3) by (intro power_increasing) simp_all
  have "?n \<le> 2 ^ 53 * 2 ^ 971" using assms(2,4) by (intro mult_mono power_increasing) simp_all
  also have "(2 ^ 53 * 2 ^ 971 :: nat) < 10 ^ 309" by simp
  finally have n: "?n < 10 ^ 309" .
  show "- 324 \<le> dec_exp ?n ?d"
  proof (cases "?d \<le> ?n")
    case False
    then obtain i where i: "dec_neg ?n ?d 0 = i" "?n * 10 ^ i < 10 * ?d"
      using dec_neg_bound [of ?n ?d 0] assms(1) by auto
    have "(10::nat) ^ i \<le> ?n * 10 ^ i" using assms(1) by simp
    also have "\<dots> < 10 * 2 ^ 1074" using i(2) d by linarith
    also have "(10 * 2 ^ 1074 :: nat) < 10 ^ 325" by simp
    finally have "i < 325" by (rule power_less_imp_less_exp [rotated]) simp
    then show ?thesis using False i(1) by (simp add: dec_exp_def)
  qed (simp add: dec_exp_def)
  show "dec_exp ?n ?d \<le> 308"
  proof (cases "?d \<le> ?n")
    case True
    have "?n div ?d < 10 ^ 309" using n by (meson div_le_dividend le_less_trans)
    then have "length (show_nat (?n div ?d)) \<le> 309" by (rule length_show_nat) simp
    then show ?thesis using True by (simp add: dec_exp_def)
  qed (simp add: dec_exp_def)
qed

section \<open>Lengths\<close>

lemma length_strip_zeros: "length (strip_zeros s) \<le> length s"
  using length_dropWhile_le [of "\<lambda>c. c = CHR ''0''" "rev s"] by (simp add: strip_zeros_def)

lemma length_with_frac: "length (with_frac a b) \<le> length a + length b + 1"
  using length_strip_zeros [of b] by (simp add: with_frac_def Let_def)

lemma length_fmt_exp: "\<bar>X\<bar> < 1000 \<Longrightarrow> length (fmt_exp X) \<le> 5"
proof -
  assume "\<bar>X\<bar> < 1000"
  then have "nat \<bar>X\<bar> < 10 ^ 3" by simp
  then have "length (show_nat (nat \<bar>X\<bar>)) \<le> 3" by (rule length_show_nat) simp
  moreover have "nat \<bar>X\<bar> < 10 \<Longrightarrow> length (show_nat (nat \<bar>X\<bar>)) \<le> 1" using length_show_nat [of "nat \<bar>X\<bar>" 1] by simp
  ultimately show ?thesis by (auto simp: fmt_exp_def)
qed

lemma length_fmt_g:
  assumes "is_double x" "0 < P"
  shows "length (fmt_g P x) \<le> P + 7"
proof (cases x)
  case (Finite s m e)
  have sgn: "length (sign_str s) \<le> 1" by (simp add: sign_str_def)
  show ?thesis
  proof (cases "m = 0")
    case True
    then show ?thesis using sgn by (simp add: fmt_g_def Finite)
  next
    case False
    obtain q X where r: "round_dec P (m * 2 ^ nat e) (2 ^ nat (- e)) = (q, X)" by force
    have e: "0 < m" "m \<le> 2 ^ 53" "- 1074 \<le> e" "e \<le> 971" using assms(1) False by (simp_all add: is_double_def Finite)
    have q: "q < 10 ^ P" and X: "X = dec_exp (m * 2 ^ nat e) (2 ^ nat (- e)) \<or> X = dec_exp (m * 2 ^ nat e) (2 ^ nat (- e)) + 1"
      using round_dec_digits [OF _ _ assms(2) r] e(1) by simp_all
    have l: "length (show_nat q) \<le> P" by (rule length_show_nat [OF q assms(2)])
    have "\<bar>X\<bar> < 1000" using X dec_exp_double [OF e] by auto
    note ex = length_fmt_exp [OF this]
    consider (small) "- 4 \<le> X" "X < 0" | (mid) "0 \<le> X" "X < int P" | (big) "\<not> (- 4 \<le> X \<and> X < int P)" by linarith
    then show ?thesis
    proof cases
      case small
      then show ?thesis
        using sgn l length_with_frac [of "''0''" "replicate (nat (- X) - 1) (CHR ''0'') @ show_nat q"]
        by (simp add: fmt_g_def Finite r False Let_def)
    next
      case mid
      then show ?thesis
        using sgn l length_with_frac [of "take (nat X + 1) (show_nat q)" "drop (nat X + 1) (show_nat q)"]
        by (simp add: fmt_g_def Finite r False Let_def)
    next
      case big
      then have "fmt_g P x = sign_str s @ with_frac (take 1 (show_nat q)) (drop 1 (show_nat q)) @ fmt_exp X"
        using False by (auto simp: fmt_g_def Finite r Let_def)
      moreover have "length (take 1 (show_nat q)) + length (drop 1 (show_nat q)) = length (show_nat q)"
        unfolding length_append [symmetric] append_take_drop_id ..
      ultimately show ?thesis
        using sgn l ex length_with_frac [of "take 1 (show_nat q)" "drop 1 (show_nat q)"]
        by (simp only: length_append)
    qed
  qed
qed (use assms(2) in \<open>simp_all add: fmt_g_def sign_str_def\<close>)

section \<open>Counters\<close>

definition upto :: "nat \<Rightarrow> double \<Rightarrow> bool" where
  \<comment> \<open>finite, and of magnitude at most \<open>2^k\<close>\<close>
  "upto k x \<longleftrightarrow> (\<exists>s m e. x = Finite s m e \<and> real m * 2 powi e \<le> 2 ^ k)"

lemma representable_pow: "k \<le> 900 \<Longrightarrow> representable (2 ^ k)"
proof -
  assume k: "k \<le> 900"
  have h: "(2::real) ^ k = real 1 * 2 powi int k" by simp
  show ?thesis unfolding representable_def
    by (rule exI [of _ 1], rule exI [of _ "int k"], intro conjI) (rule h, use k in simp_all)
qed

lemma round_ratio_upto:
  assumes "0 < d" "k \<le> 900" "real n / real d \<le> 2 ^ k"
  shows "upto k (round_ratio s n d)"
proof (cases "n = 0")
  case True
  then show ?thesis by (simp add: upto_def round_ratio_def)
next
  case False
  then have n: "0 < n" by simp
  note K = representable_pow [OF assms(2)]
  obtain m e where "round_ratio s n d = Finite s m e" "real m * 2 powi e = real (round_sig n d) * 2 powi round_exp n d"
    by (rule round_ratio_value [OF n assms(1) K assms(3), of s])
  then show ?thesis using round_sig_upper [OF n assms(1) K assms(3)] by (auto simp: upto_def)
qed

lemma double_of_int_upto: "\<bar>i\<bar> \<le> 2 ^ k \<Longrightarrow> k \<le> 900 \<Longrightarrow> upto k (double_of_int i)"
proof -
  assume i: "\<bar>i\<bar> \<le> 2 ^ k" and k: "k \<le> 900"
  have "real (nat \<bar>i\<bar>) = real_of_int \<bar>i\<bar>" by simp
  also have "\<dots> \<le> real_of_int (2 ^ k)" using i by (simp only: of_int_le_iff)
  finally have "real (nat \<bar>i\<bar>) / real 1 \<le> 2 ^ k" by simp
  with k show ?thesis unfolding double_of_int_def by (intro round_ratio_upto) simp_all
qed

lemma dmul_upto:
  assumes "upto j x" "upto k y" "j + k \<le> 900"
  shows "upto (j + k) (dmul x y)"
proof -
  obtain s m e t n f where x: "x = Finite s m e" "real m * 2 powi e \<le> 2 ^ j" and y: "y = Finite t n f" "real n * 2 powi f \<le> 2 ^ k"
    using assms(1,2) by (auto simp: upto_def)
  have "real (m * n * 2 ^ nat (e + f)) / real (1 * 2 ^ nat (- (e + f))) = (real m * 2 powi e) * (real n * 2 powi f)"
    using powi_ratio [of "m * n" "e + f" 1] by (simp add: power_int_add)
  also have "\<dots> \<le> 2 ^ j * 2 ^ k" using x(2) y(2) by (intro mult_mono) simp_all
  finally have "real (m * n * 2 ^ nat (e + f)) / real (2 ^ nat (- (e + f))) \<le> 2 ^ (j + k)" by (simp add: power_add)
  then show ?thesis using assms(3) unfolding x(1) y(1) dmul.simps by (intro round_ratio_upto) simp_all
qed

lemma length_fmt_f0:
  assumes "upto 72 x"
  shows "length (fmt_f0 x) \<le> 23"
proof -
  obtain s m e where x: "x = Finite s m e" "real m * 2 powi e \<le> 2 ^ 72" using assms by (auto simp: upto_def)
  have "real (m * 2 ^ nat e) / real (1 * 2 ^ nat (- e)) \<le> 2 ^ 72" using powi_ratio [of m e 1] x(2) by simp
  then have "real (m * 2 ^ nat e) \<le> real (2 ^ 72 * 2 ^ nat (- e))" by (simp add: divide_le_eq)
  then have "m * 2 ^ nat e \<le> 2 ^ 72 * 2 ^ nat (- e)" by (simp only: of_nat_le_iff)
  then have "round_half_even (m * 2 ^ nat e) (2 ^ nat (- e)) \<le> 2 ^ 72" by (intro round_half_even_le) simp_all
  also have "(2 ^ 72 :: nat) < 10 ^ 22" by simp
  finally have "length (show_nat (round_half_even (m * 2 ^ nat e) (2 ^ nat (- e)))) \<le> 22" by (rule length_show_nat) simp
  then show ?thesis by (simp add: fmt_f0_def x(1) sign_str_def)
qed

end
