(* ===== verification/Delivery.thy ===== *)
theory Delivery
  imports PassKeys ValueText
begin

text \<open>
  Every sample is stored: the values the readers emit print in few characters and the instances have bounded
  lengths, so no metric of a pass is refused for the size of the writer's buffers, and two metrics of a pass
  are never written to the same file.
\<close>

section \<open>What scanf assigns\<close>

definition sval_ok :: "nat \<Rightarrow> sval \<Rightarrow> bool" where
  "sval_ok n v \<longleftrightarrow> in_long (long_of v) \<and> is_double (dbl_of v) \<and> length (str_of v) \<le> n"

lemma scan_tok_Some:
  "scan_tok p f s = Match (Some v) t \<Longrightarrow> \<exists>x u r. p u = Some (x, r) \<and> f x = Some v"
  by (auto simp: scan_tok_def Let_def split: if_splits option.splits)

lemma in_long_0 [simp]: "in_long 0"
  by (simp add: in_long_def LONG_MIN_def LONG_MAX_def)

lemma is_double_NaN [simp]: "is_double (NaN False)"
  by (simp add: is_double_def)

lemma scan1_ok:
  assumes "scan1 d s = Match (Some v) t" "\<And>k. d = Str k \<Longrightarrow> k \<le> n"
  shows "sval_ok n v"
proof (cases d)
  case (Str k)
  then show ?thesis using assms
    by (auto simp: sval_ok_def word_tok_max_def Let_def dest!: scan_tok_Some)
next
  case Dbl
  then show ?thesis using assms by (auto simp: sval_ok_def dest!: scan_tok_Some strtod_double)
next
  case Long
  then show ?thesis using assms
    by (auto simp: sval_ok_def strtol_def Let_def dest!: scan_tok_Some split: prod.splits if_splits)
qed (use assms in \<open>auto simp: sval_ok_def dest!: scan_tok_Some split: list.splits if_splits\<close>)

lemma scan_dirs_ok:
  "(\<And>k. Str k \<in> set ds \<Longrightarrow> k \<le> n) \<Longrightarrow> list_all (sval_ok n) (fst (scan_dirs ds s))"
proof (induction ds arbitrary: s)
  case (Cons d ds)
  then have "list_all (sval_ok n) (fst (scan_dirs ds t))" for t by simp
  moreover have "sval_ok n v" if "scan1 d s = Match (Some v) t" for v t
    using scan1_ok [OF that] Cons.prems by simp
  ultimately show ?case by (auto split: scan_res.splits prod.splits option.splits)
      (metis fst_conv)+
qed simp

lemma fscanf_ok:
  assumes "fscanf ds s = (k, vs)" "\<And>j. Str j \<in> set ds \<Longrightarrow> j \<le> n"
  shows "list_all (sval_ok n) vs"
proof -
  have "vs = fst (scan_dirs ds s)" using assms(1) by (auto simp: fscanf_def split: prod.splits)
  then show ?thesis using scan_dirs_ok [of ds n, OF assms(2)] by simp
qed

lemma fscanf_nth:
  assumes "fscanf ds s = (k, vs)" "\<And>j. Str j \<in> set ds \<Longrightarrow> j \<le> n" "int i < k"
  shows "i < length vs \<and> sval_ok n (vs ! i)"
proof -
  have "length vs = nat k" using assms(3) by (intro fscanf_length [OF assms(1)]) simp
  then have "i < length vs" using assms(3) by simp
  then show ?thesis using fscanf_ok [OF assms(1,2)] by (simp add: list_all_length)
qed

lemma long_upto: "in_long i \<Longrightarrow> upto 63 (double_of_int i)"
  by (rule double_of_int_upto) (auto simp: in_long_def LONG_MIN_def LONG_MAX_def)

lemma upto_mono:
  assumes "upto j x" "j \<le> k"
  shows "upto k x"
proof -
  have "r \<le> 2 ^ k" if "r \<le> 2 ^ j" for r :: real
    using that power_increasing [OF assms(2), of "2 :: real"] by linarith
  then show ?thesis using assms(1) by (auto simp: upto_def)
qed

lemma long_counter: "in_long i \<Longrightarrow> upto 72 (double_of_int i)"
  by (rule upto_mono [OF long_upto]) simp_all

lemma word_counter: "upto 72 (double_of_int (uint (x :: 64 word)))"
proof (rule upto_mono [OF double_of_int_upto])
  have "uint x < 2 ^ 64" using uint_lt2p [of x] by simp
  then show "\<bar>uint x\<bar> \<le> 2 ^ 64" by simp
qed simp_all

lemma sector_counter: "in_long i \<Longrightarrow> upto 72 (dmul (double_of_int i) (double_of_int 512))"
  using dmul_upto [OF long_upto [of i] double_of_int_upto [of 512 9]] by simp

section \<open>Storable metrics\<close>

definition all_gauges :: "cptr \<Rightarrow> bool" where
  "all_gauges t \<longleftrightarrow> (case types_lookup t of None \<Rightarrow> False | Some td \<Rightarrow> list_all (\<lambda>x. ds_dst x = DST_GAUGE) (td_ds td))"

definition shorter :: "nat \<Rightarrow> cptr \<Rightarrow> bool" where
  "shorter n p \<longleftrightarrow> (case p of None \<Rightarrow> True | Some s \<Rightarrow> length s < n)"

definition storable :: "metric \<Rightarrow> bool" where
  "storable m \<longleftrightarrow> list_all is_double (vals m) \<and> (all_gauges (type m) \<or> list_all (upto 72) (vals m))
     \<and> shorter 256 (plugin_instance m) \<and> shorter 64 (type_instance m)"

lemma gauge_types:
  "all_gauges (Some ''percent'')" "all_gauges (Some ''load'')" "all_gauges (Some ''uptime'')" "all_gauges (Some ''swap'')"
  "all_gauges (Some ''df_complex'')" "all_gauges (Some ''temperature'')" "all_gauges (Some ''tcp_connections'')"
  "all_gauges (Some ''ps_rss'')" "all_gauges (Some ''ps_count'')"
  by (simp_all add: all_gauges_def ds_tables)

lemmas storable_defs = storable_def gauge_types shorter_def double_ops

lemma percent_storable: "is_double (percent a b)"
  by (simp add: percent_def double_ops)

section \<open>Every reader emits storable metrics\<close>

lemma sys_storable:
  "cpu_read env base s = Some (rc, es, s') \<Longrightarrow> m \<in> set (emitted es) \<Longrightarrow> storable m"
  "load_read env base s = Some (rc, es, s') \<Longrightarrow> m \<in> set (emitted es) \<Longrightarrow> storable m"
  "uptime_read env base s = Some (rc, es, s') \<Longrightarrow> m \<in> set (emitted es) \<Longrightarrow> storable m"
  "memory_read env base s = Some (rc, es, s') \<Longrightarrow> m \<in> set (emitted es) \<Longrightarrow> storable m"
  "swap_read env base s = Some (rc, es, s') \<Longrightarrow> m \<in> set (emitted es) \<Longrightarrow> storable m"
proof -
  show "cpu_read env base s = Some (rc, es, s') \<Longrightarrow> m \<in> set (emitted es) \<Longrightarrow> storable m"
    by (auto simp: cpu_read_def cpu_emit_def cpu_metric_def storable_defs percent_storable bind_eq_Some_conv Let_def
        split: sum.splits option.splits if_splits)
  show "memory_read env base s = Some (rc, es, s') \<Longrightarrow> m \<in> set (emitted es) \<Longrightarrow> storable m"
    "swap_read env base s = Some (rc, es, s') \<Longrightarrow> m \<in> set (emitted es) \<Longrightarrow> storable m"
    by (auto simp: memory_read_def memory_metric_def swap_read_def swap_metric_def storable_defs percent_storable
        bind_eq_Some_conv Let_def split: sum.splits if_splits)
  show "load_read env base s = Some (rc, es, s') \<Longrightarrow> m \<in> set (emitted es) \<Longrightarrow> storable m"
    by (auto simp: load_read_def load_metric_def storable_defs Let_def list_all_iff sval_ok_def
        split: sum.splits prod.splits if_splits dest!: fscanf_ok [where n = 0])
  show "uptime_read env base s = Some (rc, es, s') \<Longrightarrow> m \<in> set (emitted es) \<Longrightarrow> storable m"
    by (auto simp: uptime_read_def uptime_metric_def storable_defs Let_def sval_ok_def hd_conv_nth
        split: sum.splits prod.splits if_splits dest: fscanf_nth [where n = 0 and i = 0])
qed

lemma interface_line_storable:
  assumes "m \<in> set (interface_line line)"
  shows "storable m"
proof -
  let ?p = "dropWhile (\<lambda>c. c = CHR '' '' \<or> c = TAB) line"
  obtain colon where c: "strchr ?p (CHR '':'') = Some colon"
    using assms by (cases "strchr ?p (CHR '':'')") (simp_all add: interface_line_def)
  obtain n vs where s: "fscanf interface_format (cstr (tl colon)) = (n, vs)" by force
  let ?dev = "take (length ?p - length colon) ?p"
  have l: "length ?dev < 64" and n: "11 \<le> n" and m: "m = interface_metric ?dev ''if_octets'' (map long_of vs ! 0) (map long_of vs ! 8)
      \<or> m = interface_metric ?dev ''if_packets'' (map long_of vs ! 1) (map long_of vs ! 9)
      \<or> m = interface_metric ?dev ''if_errors'' (map long_of vs ! 2) (map long_of vs ! 10)"
    using assms by (auto simp: interface_line_def Let_def c sscanf_def s split: if_splits)
  have "in_long (map long_of vs ! i)" if "i < 11" for i
    using that fscanf_nth [OF s, of 0 i] n by (auto simp: interface_format_def sval_ok_def)
  then show ?thesis using l m by (elim disjE) (simp_all add: interface_metric_def storable_defs long_counter)
qed

lemma disk_line_storable:
  assumes "m \<in> set (disk_line line)"
  shows "storable m"
proof -
  obtain n vs where s: "fscanf disk_format (cstr line) = (n, vs)" by force
  let ?f = "map long_of (tl vs)"
  have n: "9 \<le> n" and m: "m = disk_metric (str_of (hd vs)) ''disk_ops'' (double_of_int (?f ! 0)) (double_of_int (?f ! 4))
      \<or> m = disk_metric (str_of (hd vs)) ''disk_octets'' (dmul (double_of_int (?f ! 2)) (double_of_int 512))
               (dmul (double_of_int (?f ! 6)) (double_of_int 512))
      \<or> m = disk_metric (str_of (hd vs)) ''disk_time'' (double_of_int (?f ! 3)) (double_of_int (?f ! 7))"
    using assms by (auto simp: disk_line_def Let_def sscanf_def s split: if_splits)
  have v: "i < length vs \<and> sval_ok 63 (vs ! i)" if "i < 9" for i
    using that n by (intro fscanf_nth [OF s]) (auto simp: disk_format_def)
  then have "length (str_of (hd vs)) \<le> 63" using v [of 0] by (cases vs) (auto simp: sval_ok_def)
  moreover have "in_long (?f ! i)" if "i < 8" for i
    using that v [of "Suc i"] by (cases vs) (auto simp: sval_ok_def)
  ultimately show ?thesis
    using m by (elim disjE) (simp_all add: disk_metric_def storable_defs long_counter sector_counter)
qed

lemma df_line_storable: "m \<in> set (df_line env line) \<Longrightarrow> storable m"
  using mount_to_instance_props [of 256]
  by (auto simp: df_line_def df_metric_def Let_def storable_defs split: prod.splits if_splits option.splits)

lemma tcp_emit_storable:
  assumes "m \<in> set (tcp_emit cnt)"
  shows "storable m"
proof -
  have "list_all (\<lambda>x. length x < 64) TCP_STATE_NAMES" by (simp add: TCP_STATE_NAMES_def)
  then have "length (TCP_STATE_NAMES ! i) < 64" if "i < TCP_STATE_MAX" for i
    using that by (simp add: list_all_length TCP_STATE_MAX_def)
  then show ?thesis using assms by (auto simp: tcp_emit_def tcp_metric_def storable_defs split: if_splits)
qed

lemma agg_emit_storable: "length (comm a) < COMM_LEN \<Longrightarrow> m \<in> set (agg_emit a) \<Longrightarrow> storable m"
  by (auto simp: agg_emit_def ps_metric_def storable_defs word_counter COMM_LEN_def)

lemma processes_storable:
  assumes "processes_read env base s = Some (rc, es, s')" "m \<in> set (emitted es)"
  shows "storable m"
proof (cases "os_opendir env base")
  case (Inl e)
  with assms show ?thesis by (auto simp: processes_read_def)
next
  case (Inr names)
  let ?ps = "samples env base names"
  have "length c < COMM_LEN" if "c \<in> set (map ps_comm ?ps)" for c
    using that read_pid_comm by (fastforce simp: samples_def map_filter_def)
  then have "length (comm a) < COMM_LEN" if "a \<in> set (agg_spec ?ps)" for a
    using that by (auto simp: agg_spec_def dest!: in_set_takeD)
  then show ?thesis using assms(2) agg_emit_storable unfolding processes_read_spec [OF Inr assms(1)] by auto
qed

lemma zone_type_short: "length (zone_type env p) < 64"
proof -
  have "length (strip_eol x) \<le> length x" for x
    using length_dropWhile_le [of "\<lambda>c. c = NL \<or> c = CR" "rev x"] by (simp add: strip_eol_def)
  moreover have "length l < 64" if "fgets 64 c = Some l" for c l
  proof -
    have "length (fst (fgets_split 63 c)) < 64" by (auto simp: fgets_split_def Let_def)
    moreover have "l = cstr (fst (fgets_split 63 c))" using that by (auto simp: fgets_def split: if_splits)
    ultimately show ?thesis using length_cstr_le le_less_trans by blast
  qed
  ultimately show ?thesis unfolding zone_type_def
    by (auto split: sum.splits option.splits intro: le_less_trans)
qed

definition names_ok :: "osenv \<Rightarrow> bool" where
  \<comment> \<open>the name of a directory entry has at most \<^verbatim>\<open>NAME_MAX\<close> bytes and no slash\<close>
  "names_ok env \<longleftrightarrow> (\<forall>d ns n. os_opendir env d = Inr ns \<and> n \<in> set ns \<longrightarrow> length n \<le> 255 \<and> CHR ''/'' \<notin> set n)"

lemma thermal_zone_storable:
  "length z \<le> 255 \<Longrightarrow> m \<in> set (emitted (thermal_zone env base z)) \<Longrightarrow> storable m"
  using zone_type_short
  by (auto simp: thermal_zone_def thermal_metric_def storable_defs Let_def split: if_splits sum.splits prod.splits)

lemma thermal_storable:
  assumes "names_ok env" "thermal_read env base s = Some (rc, es, s')" "m \<in> set (emitted es)"
  shows "storable m"
proof -
  let ?b = "if base = ''/proc'' then ''/sys'' else base"
  consider zs where "os_opendir env (snprintf_buf 1024 (?b @ ''/class/thermal'')) = Inr zs"
    "es = concat (map (thermal_zone env ?b) zs)"
    | "emitted es = []"
    using assms(2) by (auto simp: thermal_read_def Let_def split: sum.splits)
  then show ?thesis
  proof cases
    case 1
    from assms(3) obtain z where z: "z \<in> set zs" "m \<in> set (emitted (thermal_zone env ?b z))"
      unfolding 1(2) by auto
    have "length z \<le> 255" using assms(1) 1(1) z(1) unfolding names_ok_def by blast
    then show ?thesis using z(2) by (rule thermal_zone_storable)
  qed (use assms(3) in simp)
qed

lemma reader_storable:
  assumes "names_ok env" "reader_read r env base s = Some (rc, es, s')" "m \<in> set (emitted es)"
  shows "storable m"
proof (cases r)
  case thermal_reader
  with assms show ?thesis by (auto intro: thermal_storable)
next
  case tcpconns_reader
  with assms show ?thesis
    by (auto simp: tcpconns_read_def split: prod.splits if_splits dest!: tcp_scan_emitted intro: tcp_emit_storable)
next
  case interface_reader
  with assms show ?thesis by (auto simp: interface_read_def Let_def split: sum.splits intro: interface_line_storable)
next
  case disk_reader
  with assms show ?thesis
    by (auto simp: disk_read_def Let_def split: sum.splits if_splits intro: disk_line_storable)
next
  case df_reader
  with assms show ?thesis by (auto simp: df_read_def Let_def split: sum.splits intro: df_line_storable)
qed (use assms in \<open>auto intro: sys_storable processes_storable\<close>)

section \<open>Nothing is refused for its size\<close>

lemma fmt_ds_length:
  assumes "is_double v" "d = DST_GAUGE \<or> upto 72 v"
  shows "length (fmt_ds d v) \<le> 25"
  using assms length_fmt_g [of v 17] length_fmt_f0 [of v] by (cases d) (auto simp: fmt_ds_def)

lemma fmt_spec_length:
  assumes "storable m" "types_lookup (type m) = Some td" "td_ds_count td = ds_count m" "length (vals m) = length (td_ds td)"
  shows "length (fmt_spec td m) < 256"
proof -
  have ok: "type_def_ok td" by (rule types_lookup_ok [OF assms(2)])
  then have n: "nat (ds_count m) = length (td_ds td)" "length (td_ds td) \<le> 3"
    using assms(3) type_def_ok_count [OF ok] by (simp_all add: type_def_ok_def)
  have "length (fmt_ds (dst_at td i) (vals m ! i)) \<le> 25" if "i < length (td_ds td)" for i
  proof (rule fmt_ds_length)
    show "is_double (vals m ! i)" using assms(1,4) that by (simp add: storable_def list_all_length)
    show "dst_at td i = DST_GAUGE \<or> upto 72 (vals m ! i)"
      using assms(1,2,4) that by (auto simp: storable_def all_gauges_def list_all_length dst_at_def)
  qed
  then have "length (values_text td m [0..<length (td_ds td)]) \<le> length [0..<length (td_ds td)] * 25"
    unfolding values_text_def by (intro length_concat_le) simp
  then show ?thesis using n by (simp add: fmt_spec_def)
qed

lemma pair_names:
  assumes "(p, t) \<in> reader_pairs"
  shows "length p \<le> 9 \<and> length t \<le> 15 \<and> plain_name p \<and> plain_name t"
  using assms unfolding reader_pairs_def interface_pairs_def disk_pairs_def ps_pairs_def Un_iff insert_iff empty_iff
  by (elim disjE; simp add: plain_name_def)

lemma length_seg: "shorter n q \<Longrightarrow> 0 < n \<Longrightarrow> length (seg (Some p) q) \<le> length p + n"
  by (auto simp: seg_def shorter_def fmt_s_def split: option.splits)

lemma updates_of_storable:
  assumes ok: "metric_ok reader_pairs m" and st: "storable m" and room: "length (datadir w) + length (host w) + 400 < 4096"
  shows "updates_of w m = [(path_spec (datadir w) (host w) m, fmt_spec (the (types_lookup (type m))) m)]"
proof -
  obtain p t d where m: "plugin m = Some p" "type m = Some t" "(p, t) \<in> reader_pairs" "types_lookup (Some t) = Some d"
    "ds_count m = td_ds_count d" "length (vals m) = length (td_ds d)"
    using ok by (auto simp: metric_ok_def)
  have "length (seg (Some p) (plugin_instance m)) \<le> 9 + 256" "length (seg (Some t) (type_instance m)) \<le> 15 + 64"
    using pair_names [OF m(3)] st length_seg [of 256 "plugin_instance m" p] length_seg [of 64 "type_instance m" t]
    by (auto simp: storable_def)
  then have "length (path_spec (datadir w) (host w) m) < 4096" "length (file_name m) < 256"
    using room by (simp_all add: path_spec_def file_name_seg m(1,2))
  moreover have "length (fmt_spec d m) < 256"
    using m by (intro fmt_spec_length [OF st]) simp_all
  ultimately show ?thesis using m by (simp add: updates_of_def)
qed

section \<open>No file is shared\<close>

definition separated :: "metric \<Rightarrow> bool" where
  \<comment> \<open>where the slash between directory and file is: a process name may have slashes of its own, and so may the
     type of a thermal zone, but not the other instance of the same metric\<close>
  "separated m \<longleftrightarrow> (if plugin m = Some ''thermal'' then no_slash (plugin_instance m) else no_slash (type_instance m))"

lemma sys_separated:
  "cpu_read env base s = Some (rc, es, s') \<Longrightarrow> m \<in> set (emitted es) \<Longrightarrow> no_slash (type_instance m)"
  "memory_read env base s = Some (rc, es, s') \<Longrightarrow> m \<in> set (emitted es) \<Longrightarrow> no_slash (type_instance m)"
  "swap_read env base s = Some (rc, es, s') \<Longrightarrow> m \<in> set (emitted es) \<Longrightarrow> no_slash (type_instance m)"
  "df_read env base s = Some (rc, es, s') \<Longrightarrow> m \<in> set (emitted es) \<Longrightarrow> no_slash (type_instance m)"
  by (auto simp: cpu_read_def cpu_emit_def cpu_metric_def memory_read_def memory_metric_def swap_read_def swap_metric_def
      df_read_def df_line_def df_metric_def no_slash_def bind_eq_Some_conv Let_def
      split: sum.splits option.splits if_splits prod.splits)

lemma tcp_separated:
  assumes "tcpconns_read env base s = Some (rc, es, s')" "m \<in> set (emitted es)"
  shows "no_slash (type_instance m)"
proof -
  have "list_all (\<lambda>x. CHR ''/'' \<notin> set x) TCP_STATE_NAMES" by (simp add: TCP_STATE_NAMES_def)
  then have "CHR ''/'' \<notin> set (TCP_STATE_NAMES ! i)" if "i < TCP_STATE_MAX" for i
    using that by (simp add: list_all_length TCP_STATE_MAX_def)
  then show ?thesis using assms
    by (auto simp: tcpconns_read_def tcp_emit_def tcp_metric_def no_slash_def split: prod.splits if_splits dest!: tcp_scan_emitted)
qed

lemma thermal_separated:
  assumes "names_ok env" "thermal_read env base s = Some (rc, es, s')" "m \<in> set (emitted es)"
  shows "no_slash (plugin_instance m)"
proof -
  let ?b = "if base = ''/proc'' then ''/sys'' else base"
  obtain zs z where z: "os_opendir env (snprintf_buf 1024 (?b @ ''/class/thermal'')) = Inr zs" "z \<in> set zs"
    "m \<in> set (emitted (thermal_zone env ?b z))"
    using assms(2,3) by (auto simp: thermal_read_def Let_def split: sum.splits)
  then have "plugin_instance m = Some z"
    by (auto simp: thermal_zone_def thermal_metric_def Let_def split: if_splits sum.splits prod.splits)
  moreover have "CHR ''/'' \<notin> set z" using assms(1) z(1,2) unfolding names_ok_def by blast
  ultimately show ?thesis by (simp add: no_slash_def)
qed

lemma reader_separated:
  assumes "names_ok env" "reader_read r env base s = Some (rc, es, s')" "m \<in> set (emitted es)"
  shows "separated m"
proof -
  note p = reader_plugin [OF assms(2,3)]
  have "\<exists>q. plugin m = Some q \<and> instances_ok q m"
    using readers.emits_ok [OF assms(2,3)] by (auto simp: metric_ok_def)
  then have i: "instances_ok (plugin_name r) m" using p by auto
  show ?thesis using assms p i
    by (cases r) (auto simp: separated_def instances_ok_def no_slash_def [of None]
      intro: sys_separated tcp_separated thermal_separated)
qed

section \<open>A pass\<close>

lemma pass_metrics_ok:
  assumes "readers_events env rs rd = Some (es, rd')" "m \<in> set (emitted es)" "\<forall>r \<in> set rs. names_ok (env r)"
  shows "metric_ok reader_pairs m \<and> storable m \<and> separated m"
  using assms
proof (induction rs arbitrary: rd es)
  case (Cons r rs)
  then obtain rc es1 rd1 es2 where r: "reader_read r (env r) ''/proc'' rd = Some (rc, es1, rd1)"
    "readers_events env rs rd1 = Some (es2, rd')" "es = es1 @ es2"
    by (auto split: option.splits)
  have "names_ok (env r)" using Cons.prems(3) by simp
  with r Cons readers.emits_ok [OF r(1)] reader_storable [OF _ r(1)] reader_separated [OF _ r(1)] show ?case by auto
qed simp

lemma pass_updates:
  assumes "readers_events env rs rd = Some (es, rd')" "\<forall>r \<in> set rs. names_ok (env r)"
    "length (datadir w) + length (host w) + 400 < 4096"
  shows "concat (map (updates_of w) (emitted es)) =
     map (\<lambda>m. (path_spec (datadir w) (host w) m, fmt_spec (the (types_lookup (type m))) m)) (emitted es)"
proof -
  have "concat (map (updates_of w) ms) =
     map (\<lambda>m. (path_spec (datadir w) (host w) m, fmt_spec (the (types_lookup (type m))) m)) ms"
    if "\<And>m. m \<in> set ms \<Longrightarrow> metric_ok reader_pairs m \<and> storable m" for ms
    using that by (induction ms) (simp_all add: updates_of_storable assms(3))
  then show ?thesis using pass_metrics_ok [OF assms(1) _ assms(2)] by blast
qed

lemma path_key:
  assumes "metric_ok reader_pairs m" "separated m" "metric_ok reader_pairs m'" "separated m'"
    "path_spec b h m = path_spec b h m'"
  shows "mkey m = mkey m'"
proof -
  obtain p t p' t' where m: "plugin m = Some p" "type m = Some t" "plugin m' = Some p'" "type m' = Some t'"
    "(p, t) \<in> reader_pairs" "(p', t') \<in> reader_pairs"
    using assms(1,3) by (auto simp: metric_ok_def)
  note n = pair_names [OF m(5)] pair_names [OF m(6)]
  have "p = p'" using path_plugin [OF m(1,3) _ _ assms(5)] n by blast
  then have "no_slash (plugin_instance m) \<and> no_slash (plugin_instance m')
      \<or> no_slash (type_instance m) \<and> no_slash (type_instance m')"
    using assms(2,4) m(1,3) by (auto simp: separated_def split: if_splits)
  then have "p = p' \<and> t = t' \<and> plugin_instance m = plugin_instance m' \<and> type_instance m = type_instance m'"
    using path_spec_inj [OF m(1-4) _ _ _ _ _ assms(5)] n by blast
  then show ?thesis using m by (simp add: mkey_eq)
qed

lemma pass_paths:
  assumes "readers_events env rs rd = Some (es, rd')" "\<forall>r \<in> set rs. names_ok (env r)"
    "distinct (map mkey (emitted es))"
  shows "distinct (map (path_spec b h) (emitted es))"
proof -
  have "inj_on (path_spec b h) (set (emitted es))"
  proof (rule inj_onI)
    fix m m'
    assume m: "m \<in> set (emitted es)" "m' \<in> set (emitted es)" "path_spec b h m = path_spec b h m'"
    then have "mkey m = mkey m'" using path_key pass_metrics_ok [OF assms(1) _ assms(2)] by blast
    then show "m = m'" using assms(3) m by (auto simp: distinct_map inj_on_def)
  qed
  then show ?thesis using assms(3) by (simp add: distinct_map)
qed

end
