(* ===== verification/Devices.thy ===== *)
theory Devices
  imports Delivery
begin

text \<open>
  Devices the kernel lists once are named once: the four readers that name their metrics after devices repeat
  no name when the kernel's tables have one row for each interface and disk, the examined mount points
  have different instances, and a directory lists each entry once.
\<close>

definition lists_once :: "reader \<Rightarrow> osenv \<Rightarrow> bool" where
  "lists_once r env \<longleftrightarrow>
     (case r of
        interface_reader \<Rightarrow>
          (\<exists>h1 h2 rows. os_fopen env ''/proc/net/dev'' = Inr (netdev_text h1 h2 rows) \<and> line_ok 512 h1 \<and> line_ok 512 h2
             \<and> list_all iface_ok rows \<and> distinct (map if_name rows))
      | disk_reader \<Rightarrow>
          (\<exists>rows. os_fopen env ''/proc/diskstats'' = Inr (unlines (map disk_text rows)) \<and> os_regcomp_ok env
             \<and> list_all disk_ok rows \<and> distinct (map dk_name rows))
      | df_reader \<Rightarrow>
          (\<exists>rows. os_fopen env ''/proc/mounts'' = Inr (unlines (map mount_text rows)) \<and> list_all mount_ok rows
             \<and> (\<forall>d st. os_statvfs env d = Some st \<longrightarrow> statvfs_ok st)
             \<and> distinct (map (\<lambda>r. mount_to_instance (mt_dir r) 256) (filter (\<lambda>r. mount_metrics (os_statvfs env) r \<noteq> []) rows)))
      | thermal_reader \<Rightarrow> (\<forall>names. os_opendir env ''/sys/class/thermal'' = Inr names \<longrightarrow> distinct names)
      | _ \<Rightarrow> True)"

definition instance_of :: "string \<times> string \<times> string \<times> string \<Rightarrow> string" where
  "instance_of k = fst (snd (snd k))"

lemma instance_of_mkey: "plugin_instance m = Some s \<Longrightarrow> length s < 256 \<Longrightarrow> instance_of (mkey m) = s"
  by (simp add: instance_of_def mkey_eq copy_str_def)

lemma distinct_by_instance:
  assumes "distinct (map g xs)" "\<And>x m. x \<in> set xs \<Longrightarrow> m \<in> set (h x) \<Longrightarrow> plugin_instance m = Some (g x) \<and> length (g x) < 256"
    "\<And>x. x \<in> set xs \<Longrightarrow> distinct (map mkey (h x))"
  shows "distinct (map mkey (concat (map h xs)))"
  using assms by (intro distinct_map_concat [where k = instance_of and g = g]) (auto intro: instance_of_mkey)

lemma iface_keys:
  assumes "list_all iface_ok rows" "distinct (map if_name rows)"
  shows "distinct (map mkey (concat (map iface_metrics rows)))"
  using assms(1) by (intro distinct_by_instance [OF assms(2)])
    (auto simp: iface_metrics_def interface_metric_def iface_ok_def list_all_iff mkey_eq copy_str_def Let_def split: if_splits)

lemma disk_keys:
  assumes "list_all disk_ok rows" "distinct (map dk_name rows)"
  shows "distinct (map mkey (concat (map disk_metrics rows)))"
  using assms(1) by (intro distinct_by_instance [OF assms(2)])
    (auto simp: disk_metrics_def disk_metric_def disk_ok_def list_all_iff mkey_eq copy_str_def Let_def split: if_splits)

lemma concat_filter_nonempty: "concat (map h (filter (\<lambda>x. h x \<noteq> []) xs)) = concat (map h xs)"
  by (induction xs) auto

lemma mount_keys:
  assumes "distinct (map (\<lambda>r. mount_to_instance (mt_dir r) 256) (filter (\<lambda>r. mount_metrics vfs r \<noteq> []) rows))"
  shows "distinct (map mkey (concat (map (mount_metrics vfs) rows)))"
proof -
  have "distinct (map mkey (concat (map (mount_metrics vfs) (filter (\<lambda>r. mount_metrics vfs r \<noteq> []) rows))))"
    using mount_to_instance_props [of 256]
    by (intro distinct_by_instance [OF assms])
      (auto simp: mount_metrics_def df_bytes_def mkey_eq copy_str_def split: if_splits option.splits)
  then show ?thesis by (simp only: concat_filter_nonempty)
qed

lemma zone_keys:
  assumes "distinct names" "\<And>n. n \<in> set names \<Longrightarrow> length n < 256"
  shows "distinct (map mkey (emitted (concat (map (thermal_zone env base) names))))"
proof -
  have "plugin_instance m = Some z" if "m \<in> set (emitted (thermal_zone env base z))" for m z
    using that by (auto simp: thermal_zone_def thermal_metric_def Let_def split: if_splits sum.splits prod.splits)
  moreover have "distinct (map mkey (emitted (thermal_zone env base z)))" for z
    by (auto simp: thermal_zone_def Let_def split: if_splits sum.splits prod.splits)
  ultimately show ?thesis
    unfolding emitted_concat_map using assms by (intro distinct_by_instance [where g = "\<lambda>z. z"]) auto
qed

lemma device_keys:
  assumes "lists_once r env" "names_ok env" "reader_read r env ''/proc'' s = Some (rc, es, s')"
  shows "distinct (map mkey (emitted es))"
proof (cases r)
  case interface_reader
  with assms(1) obtain h1 h2 rows where "os_fopen env (snprintf_buf 1024 (''/proc'' @ ''/net/dev'')) = Inr (netdev_text h1 h2 rows)"
    "line_ok 512 h1" "line_ok 512 h2" "list_all iface_ok rows" "distinct (map if_name rows)"
    by (auto simp: lists_once_def snprintf_buf_def)
  with interface_read_text [OF this(1-4)] iface_keys assms(3) interface_reader show ?thesis by auto
next
  case disk_reader
  with assms(1) obtain rows where "os_fopen env (snprintf_buf 1024 (''/proc'' @ ''/diskstats'')) = Inr (unlines (map disk_text rows))"
    "list_all disk_ok rows" "re_ready s \<or> os_regcomp_ok env" "distinct (map dk_name rows)"
    by (auto simp: lists_once_def snprintf_buf_def)
  with disk_read_text [OF this(1-3)] disk_keys assms(3) disk_reader show ?thesis by auto
next
  case df_reader
  with assms(1) obtain rows where f: "os_fopen env (snprintf_buf 1024 (''/proc'' @ ''/mounts'')) = Inr (unlines (map mount_text rows))"
    "list_all mount_ok rows" "\<And>d st. os_statvfs env d = Some st \<Longrightarrow> statvfs_ok st" and
    d: "distinct (map (\<lambda>r. mount_to_instance (mt_dir r) 256) (filter (\<lambda>r. mount_metrics (os_statvfs env) r \<noteq> []) rows))"
    unfolding lists_once_def by (auto simp: snprintf_buf_def)
  from df_read_text [OF f] mount_keys [OF d] assms(3) df_reader show ?thesis by auto
next
  case thermal_reader
  show ?thesis
  proof (cases "os_opendir env ''/sys/class/thermal''")
    case (Inr names)
    with assms(1,2) thermal_reader have "distinct names" "\<And>n. n \<in> set names \<Longrightarrow> length n < 256"
      by (fastforce simp: lists_once_def names_ok_def)+
    from zone_keys [OF this] assms(3) Inr thermal_reader show ?thesis by (auto simp: thermal_read_def snprintf_buf_def)
  qed (use assms(3) thermal_reader in \<open>auto simp: thermal_read_def snprintf_buf_def\<close>)
qed (use assms(3) in \<open>auto simp: sys_keys tcp_keys ps_keys\<close>)

lemma pass_device_keys:
  "readers_events env rs rd = Some (es, rd') \<Longrightarrow> distinct rs \<Longrightarrow> \<forall>r \<in> set rs. lists_once r (env r) \<and> names_ok (env r) \<Longrightarrow>
     distinct (map mkey (emitted es))"
proof (induction rs arbitrary: rd es)
  case (Cons r rs)
  then obtain rc es1 rd1 es2 where r: "reader_read r (env r) ''/proc'' rd = Some (rc, es1, rd1)"
    "readers_events env rs rd1 = Some (es2, rd')" "es = es1 @ es2"
    by (auto split: option.splits)
  have "distinct (map mkey (emitted es1))" using Cons.prems(3) by (intro device_keys [OF _ _ r(1)]) simp_all
  then show ?case using pass_disjoint [OF r(1,2)] Cons.IH [OF r(2)] Cons.prems(2,3) by (simp add: r(3))
qed simp

end
