(* ===== verification/Isolation.thy ===== *)
theory Isolation
  imports Collect
begin

text \<open>
  A reader that fails does no harm to the others. What a cycle does to the files and to the snapshot depends
  only on the metrics that were emitted, not on the log lines between them, and a reader that returns -1
  has emitted nothing and has kept its state; so a cycle in which a reader fails has the same
  effect as one in which it is not enabled.
\<close>

section \<open>The machine does not see the log\<close>

text \<open>Each step of the writer takes states with the same machine to states with the same machine.\<close>

lemma mkdir1_os: "os s = os t \<Longrightarrow> os (mkdir1 ops d s) = os (mkdir1 ops d t)"
  by (simp add: mkdir1_def split: prod.splits mkdir_result.splits)

lemma mkdirp_loop_os: "os s = os t \<Longrightarrow> os (mkdirp_loop ops d ks s) = os (mkdirp_loop ops d ks t)"
proof (induction ks arbitrary: s t)
  case (Cons k ks)
  from Cons.IH [OF Cons.prems] Cons.IH [OF mkdir1_os [OF Cons.prems, of ops "take k d"]] show ?case by simp
qed simp

lemma make_dirs_os: "os s = os t \<Longrightarrow> os (make_dirs ops p s) = os (make_dirs ops p t)"
  by (auto simp: make_dirs_def mkdirp_def intro!: mkdir1_os mkdirp_loop_os split: option.splits)

lemma create_rrd_os:
  "os s = os t \<Longrightarrow> map_option (\<lambda>(c, u). (c, os u)) (create_rrd ops td p s) = map_option (\<lambda>(c, u). (c, os u)) (create_rrd ops td p t)"
  by (simp add: create_rrd_def split: option.splits prod.splits)

lemma direct_update_os_rc: "os s = os t \<Longrightarrow> os (snd (direct_update ops p v s)) = os (snd (direct_update ops p v t))"
  by (simp add: direct_update_os)

lemma daemon_connect_os:
  "os s = os t \<Longrightarrow> fst (writer_daemon_connect ops w s) = fst (writer_daemon_connect ops w t)
     \<and> os (snd (writer_daemon_connect ops w s)) = os (snd (writer_daemon_connect ops w t))"
  by (simp add: writer_daemon_connect_def split: prod.splits)

lemma writer_update_os: "os s = os t \<Longrightarrow> os (snd (writer_update ops w p v s)) = os (snd (writer_update ops w p v t))"
proof -
  assume e: "os s = os t"
  obtain c s1 d t1 where c: "writer_daemon_connect ops w s = (c, s1)" "writer_daemon_connect ops w t = (d, t1)" by force
  with daemon_connect_os [OF e, of ops w] have "d = c" "os s1 = os t1" by simp_all
  then show ?thesis
    using e by (auto simp: writer_update_def c direct_update_os split: prod.splits)
qed

lemma writer_write_os:
  assumes "os s = os t" "writer_write ops w (Some m) s = Some (rc, s')" "writer_write ops w (Some m) t = Some (rc', t')"
  shows "os s' = os t'"
proof (cases "types_lookup (type m)")
  case None
  then show ?thesis using assms by (auto simp: writer_write_spec Let_def)
next
  case (Some td)
  let ?p = "path_spec (datadir w) (host w) m"
  have "map_option (\<lambda>(c, u). (c, os u)) (create_rrd ops td ?p (make_dirs ops ?p s))
      = map_option (\<lambda>(c, u). (c, os u)) (create_rrd ops td ?p (make_dirs ops ?p t))"
    by (intro create_rrd_os make_dirs_os assms(1))
  then show ?thesis
    using assms Some writer_update_os [of _ _ ops w ?p "fmt_spec td m"]
    by (auto simp: writer_write_spec Let_def split: if_splits option.splits prod.splits) (metis snd_conv)+
qed

lemma write_events_norm:
  "os s = os t \<Longrightarrow> write_events ops w es s = Some s' \<Longrightarrow> write_events ops w (map Emit (emitted es)) t = Some t' \<Longrightarrow> os s' = os t'"
proof (induction es arbitrary: s t)
  case (Cons e es)
  show ?case
  proof (cases e)
    case (Log l)
    with Cons.IH [of "log_line l s" t] Cons.prems show ?thesis by simp
  next
    case (Emit m)
    then obtain rc s1 rc' t1 where
      s1: "writer_write ops w (Some m) s = Some (rc, s1)" "write_events ops w es s1 = Some s'" and
      t1: "writer_write ops w (Some m) t = Some (rc', t1)" "write_events ops w (map Emit (emitted es)) t1 = Some t'"
      using Cons.prems(2,3) by (auto split: option.splits)
    from Cons.IH [OF writer_write_os [OF Cons.prems(1) s1(1) t1(1)] s1(2) t1(2)] show ?thesis .
  qed
qed simp

lemma write_events_os:
  assumes "emitted es = emitted es'" "write_events ops w es s = Some s'" "write_events ops w es' s = Some t'"
  shows "os s' = os t'"
proof -
  obtain u where u: "write_events ops w (map Emit (emitted es)) s = Some u" using write_events_defined by blast
  have "os s' = os u" by (rule write_events_norm [OF refl assms(2) u])
  moreover have "os t' = os u" by (rule write_events_norm [OF refl assms(3)]) (use u assms(1) in simp)
  ultimately show ?thesis by simp
qed

section \<open>A failing reader\<close>

definition failing :: "(reader \<Rightarrow> osenv) \<Rightarrow> reader \<Rightarrow> bool" where
  \<comment> \<open>the reader returns -1, whatever it remembers\<close>
  "failing env r \<longleftrightarrow> (\<forall>t. \<exists>es t'. reader_read r (env r) ''/proc'' t = Some (- 1, es, t'))"

definition healthy :: "(reader \<Rightarrow> osenv) \<Rightarrow> reader list \<Rightarrow> reader list" where
  "healthy env rs = filter (\<lambda>r. \<not> failing env r) rs"

lemma failing_silent:
  assumes "failing env r" "reader_read r (env r) ''/proc'' rd = Some (rc, es, rd')"
  shows "emitted es = [] \<and> rd' = rd"
proof -
  obtain es0 t where f: "reader_read r (env r) ''/proc'' rd = Some (- 1, es0, t)"
    using assms(1) unfolding failing_def by meson
  with assms(2) readers.error_silent [OF f] show ?thesis by simp
qed

lemma pass_of_healthy:
  "readers_events env rs rd = Some (es, rd') \<Longrightarrow>
     \<exists>es'. readers_events env (healthy env rs) rd = Some (es', rd') \<and> emitted es' = emitted es"
proof (induction rs arbitrary: rd es)
  case (Cons q rs)
  then obtain rc es1 rd1 es2 where q: "reader_read q (env q) ''/proc'' rd = Some (rc, es1, rd1)"
    "readers_events env rs rd1 = Some (es2, rd')" "es = es1 @ es2"
    by (auto split: option.splits)
  from Cons.IH [OF q(2)] obtain es' where
    "readers_events env (healthy env rs) rd1 = Some (es', rd')" "emitted es' = emitted es2" by blast
  with q failing_silent [of env q, OF _ q(1)] show ?case by (cases "failing env q") (auto simp: healthy_def)
qed (simp add: healthy_def)

lemma cycle_of_healthy:
  assumes "collect_cycle ops w enabled env s = Some s'"
  shows "\<exists>t'. collect_cycle ops w (healthy env enabled) env s = Some t'
     \<and> cs_rd t' = cs_rd s' \<and> cs_snap t' = cs_snap s' \<and> cs_mem t' = cs_mem s' \<and> os (cs_ws t') = os (cs_ws s')"
proof -
  obtain es rd where e: "readers_events env enabled (cs_rd s) = Some (es, rd)"
    using assms by (auto simp: collect_cycle_def run_readers_split split: prod.splits option.splits)
  obtain es' where e': "readers_events env (healthy env enabled) (cs_rd s) = Some (es', rd)" "emitted es' = emitted es"
    using pass_of_healthy [OF e] by blast
  obtain ws where ws: "write_events ops w es (cs_ws s) = Some ws" "collect_cycle ops w enabled env s =
      Some (s\<lparr>cs_rd := rd, cs_ws := ws,
               cs_snap := fst (snap_cycle prom_snapshot_begin prom_snapshot_add prom_snapshot_publish
                            (emitted es) (cs_snap s) (cs_mem s)),
               cs_mem := snd (snap_cycle prom_snapshot_begin prom_snapshot_add prom_snapshot_publish
                            (emitted es) (cs_snap s) (cs_mem s))\<rparr>)"
    by (rule collect_cycle_split [OF e])
  obtain ws' where ws': "write_events ops w es' (cs_ws s) = Some ws'" "collect_cycle ops w (healthy env enabled) env s =
      Some (s\<lparr>cs_rd := rd, cs_ws := ws',
               cs_snap := fst (snap_cycle prom_snapshot_begin prom_snapshot_add prom_snapshot_publish
                            (emitted es') (cs_snap s) (cs_mem s)),
               cs_mem := snd (snap_cycle prom_snapshot_begin prom_snapshot_add prom_snapshot_publish
                            (emitted es') (cs_snap s) (cs_mem s))\<rparr>)"
    by (rule collect_cycle_split [OF e'(1)])
  have "os ws' = os ws" by (rule write_events_os [OF e'(2) ws'(1) ws(1)])
  with ws(2) ws'(2) e'(2) assms show ?thesis by auto
qed

end
