(* ===== verification/ConfigDoc.thy ===== *)
theory ConfigDoc
  imports Config ScanText
begin

text \<open>
  \<^verbatim>\<open>collect.json\<close> as a JSON object, and what \<^verbatim>\<open>src/config.c\<close> makes of it. A document is a list of fields
  with the white space around every token: the fields may come in any order, may be missing, may be
  repeated, and there may be others. The reference \<open>config_of\<close> looks the fields up; the scanner of
  \<open>Config\<close>, which searches the raw text, computes the same.
\<close>

section \<open>Documents\<close>

datatype jvalue =
    JStr string
  | JInt int
  | JNames string "(string \<times> string \<times> string) list"
    \<comment> \<open>an array of strings: white space, then each string with the white space before and after it\<close>
  | JOther string
    \<comment> \<open>anything that holds no string: \<open>null\<close>, \<open>true\<close>, a fraction, an array of numbers\<close>

record field =
  f_lead :: string
  f_key :: string
  f_mid :: string
  f_gap :: string
  f_val :: jvalue
  f_trail :: string

fun names_text :: "(string \<times> string \<times> string) list \<Rightarrow> string" where
  "names_text [] = []"
| "names_text ((a, n, b) # ns) = a @ quoted n @ b @ (if ns = [] then [] else '','' @ names_text ns)"

fun value_text :: "jvalue \<Rightarrow> string" where
  "value_text (JStr s) = quoted s"
| "value_text (JInt i) = show_int i"
| "value_text (JNames w ns) = ''['' @ w @ names_text ns @ '']''"
| "value_text (JOther t) = t"

definition field_text :: "field \<Rightarrow> string" where
  "field_text f = f_lead f @ quoted (f_key f) @ f_mid f @ '':'' @ f_gap f @ value_text (f_val f) @ f_trail f"

fun fields_text :: "field list \<Rightarrow> string" where
  "fields_text [] = []"
| "fields_text (f # fs) = field_text f @ (if fs = [] then [] else '','' @ fields_text fs)"

definition doc_text :: "string \<Rightarrow> field list \<Rightarrow> string \<Rightarrow> string" where
  "doc_text w fs v = w @ ''{'' @ fields_text fs @ ''}'' @ v"

section \<open>What a document means\<close>

definition value_of :: "field list \<Rightarrow> string \<Rightarrow> jvalue option" where
  "value_of fs k = map_option f_val (find (\<lambda>f. f_key f = k) fs)"

definition string_of :: "field list \<Rightarrow> string \<Rightarrow> nat \<Rightarrow> string \<Rightarrow> string" where
  \<comment> \<open>a string for a buffer of \<open>n\<close> bytes, or the default\<close>
  "string_of fs k n d = (case value_of fs k of Some (JStr s) \<Rightarrow> take (n - 1) s | _ \<Rightarrow> d)"

definition config_of :: "field list \<Rightarrow> collect_config" where
  "config_of fs =
     \<lparr>interval = (case value_of fs ''interval'' of Some (JInt i) \<Rightarrow> if i < 1 then 5 else i | _ \<Rightarrow> 5),
      c_datadir = string_of fs ''datadir'' 4096 ''/var/lib/svgd-collect/rrd'',
      c_host = string_of fs ''hostname'' 128 ''localhost'',
      c_rrdcached = string_of fs ''rrdcached_addr'' 256 [],
      c_readers = (case value_of fs ''readers'' of
          Some (JNames w ns) \<Rightarrow> take 16 (map (\<lambda>(a, n, b). take 31 n) ns) | _ \<Rightarrow> []),
      c_metrics_addr = string_of fs ''metrics_addr'' 128 []\<rparr>"

section \<open>Documents the scanner understands\<close>

definition field_names :: "string list" where
  "field_names = [''interval'', ''datadir'', ''hostname'', ''rrdcached_addr'', ''metrics_addr'', ''readers'']"

definition blank :: "string \<Rightarrow> bool" where
  "blank w \<longleftrightarrow> list_all isspace w"

definition plain :: "string \<Rightarrow> bool" where
  \<comment> \<open>a string value without escapes that is not itself the name of a field\<close>
  "plain s \<longleftrightarrow> DQ \<notin> set s \<and> BSL \<notin> set s \<and> s \<notin> set field_names"

fun value_ok :: "jvalue \<Rightarrow> bool" where
  "value_ok (JStr s) = plain s"
| "value_ok (JInt i) = (- (2 ^ 31) \<le> i \<and> i < 2 ^ 31)"
| "value_ok (JNames w ns) = (blank w \<and> list_all (\<lambda>(a, n, b). blank a \<and> plain n \<and> CHR '']'' \<notin> set n \<and> blank b) ns)"
| "value_ok (JOther t) = (DQ \<notin> set t)"

definition typed :: "string \<Rightarrow> jvalue \<Rightarrow> bool" where
  "typed k v \<longleftrightarrow>
     (k = ''interval'' \<longrightarrow> (\<exists>i. v = JInt i)) \<and> (k = ''readers'' \<longrightarrow> (\<exists>w ns. v = JNames w ns))
   \<and> (k \<in> set field_names \<longrightarrow> k \<noteq> ''interval'' \<longrightarrow> k \<noteq> ''readers'' \<longrightarrow> (\<exists>s. v = JStr s))"

definition field_ok :: "field \<Rightarrow> bool" where
  "field_ok f \<longleftrightarrow> blank (f_lead f) \<and> blank (f_mid f) \<and> blank (f_gap f) \<and> blank (f_trail f)
     \<and> DQ \<notin> set (f_key f) \<and> BSL \<notin> set (f_key f) \<and> value_ok (f_val f) \<and> typed (f_key f) (f_val f)"

section \<open>Searching the text for a field\<close>

definition sep :: "string \<Rightarrow> bool" where
  \<comment> \<open>what follows a string: white space or punctuation\<close>
  "sep r \<longleftrightarrow> r \<noteq> [] \<and> (isspace (hd r) \<or> hd r \<in> set '',:]}'')"

lemma blank_chars: "blank w \<Longrightarrow> DQ \<notin> set w \<and> CHR '':'' \<notin> set w \<and> CHR ''['' \<notin> set w \<and> CHR '']'' \<notin> set w"
  by (auto simp: blank_def list_all_iff isspace_def)

lemma sep_blank: "blank w \<Longrightarrow> sep r \<Longrightarrow> sep (w @ r)"
  by (cases w) (simp_all add: blank_def sep_def)

lemma sep_punctuation [simp]: "c \<in> set '',:]}'' \<Longrightarrow> sep (c # r)"
  by (simp add: sep_def)

lemma field_name_chars:
  assumes "k \<in> set field_names"
  shows "DQ \<notin> set k" "k \<noteq> []" "sep r \<Longrightarrow> hd r \<noteq> hd k" "CHR ''['' \<notin> set k"
  using assms by (auto simp: field_names_def sep_def isspace_def)

lemma strstr_skip: "DQ \<notin> set s \<Longrightarrow> strstr (s @ r) (quoted k) = strstr r (quoted k)"
  by (induction s) (auto simp: quoted_def)

lemma strstr_none: "DQ \<notin> set s \<Longrightarrow> strstr s (quoted k) = None"
  using strstr_skip [of s "[]"] by (simp add: quoted_def)

lemma take_name:
  assumes "take (Suc (length k)) (v @ DQ # r) = k @ [DQ]" "DQ \<notin> set v" "DQ \<notin> set k"
  shows "v = k"
proof -
  have "v @ DQ # r = k @ DQ # drop (Suc (length k)) (v @ DQ # r)"
    using assms(1) by (metis append.assoc append_Cons append_Nil append_take_drop_id)
  then show ?thesis using split_at_inj assms(2,3) by metis
qed

lemma strstr_hit: "strstr (quoted k @ r) (quoted k) = Some (quoted k @ r)"
  by (simp add: quoted_def)

lemma strstr_miss:
  assumes "k \<in> set field_names" "DQ \<notin> set v" "v \<noteq> k" "sep r"
  shows "strstr (quoted v @ r) (quoted k) = strstr r (quoted k)"
proof -
  note k = field_name_chars [OF assms(1)]
  have "take (Suc (length k)) (v @ DQ # r) \<noteq> k @ [DQ]" using take_name assms(2,3) k(1) by blast
  then have "strstr (quoted v @ r) (quoted k) = strstr (v @ DQ # r) (quoted k)" by (simp add: quoted_def)
  also have "\<dots> = strstr (DQ # r) (quoted k)" by (rule strstr_skip [OF assms(2)])
  also have "take (Suc (length k)) r \<noteq> k @ [DQ]"
  proof
    assume t: "take (Suc (length k)) r = k @ [DQ]"
    then have "hd (take (Suc (length k)) r) = hd k" using k(2) by simp
    then show False using k(3) [OF assms(4)] by (cases r) simp_all
  qed
  then have "strstr (DQ # r) (quoted k) = strstr r (quoted k)" by (simp add: quoted_def)
  finally show ?thesis .
qed

lemma strstr_names:
  "k \<in> set field_names \<Longrightarrow> value_ok (JNames w ns) \<Longrightarrow> sep r \<Longrightarrow>
     strstr (names_text ns @ r) (quoted k) = strstr r (quoted k)"
proof (induction ns)
  case (Cons x ns)
  obtain a n b where x: "x = (a, n, b)" by (cases x)
  then have o: "blank a" "plain n" "blank b" "value_ok (JNames w ns)" using Cons.prems by simp_all
  let ?t = "(if ns = [] then [] else '','' @ names_text ns) @ r"
  have "sep (b @ ?t)" using Cons.prems(3) by (intro sep_blank [OF o(3)]) simp
  moreover have "DQ \<notin> set n" "n \<noteq> k" using o(2) Cons.prems(1) by (auto simp: plain_def)
  ultimately have "strstr (quoted n @ b @ ?t) (quoted k) = strstr ?t (quoted k)"
    using strstr_miss [OF Cons.prems(1)] strstr_skip blank_chars [OF o(3)] by simp
  then have "strstr (names_text (x # ns) @ r) (quoted k) = strstr ?t (quoted k)"
    using strstr_skip [of a "quoted n @ b @ ?t"] blank_chars [OF o(1)] by (simp add: x del: strstr.simps)
  also have "\<dots> = strstr r (quoted k)"
    using Cons.IH [OF Cons.prems(1) o(4) Cons.prems(3)] strstr_skip [of "'',''" "names_text ns @ r"] by simp
  finally show ?case .
qed simp

lemma show_int_noDQ: "DQ \<notin> set (show_int i)"
  using show_int_chars [of DQ i] by (auto simp: isdigit_def)

lemma strstr_value:
  assumes "k \<in> set field_names" "value_ok v" "sep r"
  shows "strstr (value_text v @ r) (quoted k) = strstr r (quoted k)"
proof (cases v)
  case (JStr s)
  then show ?thesis using strstr_miss [OF assms(1), of s r] assms by (auto simp: plain_def)
next
  case (JInt i)
  then show ?thesis using strstr_skip [OF show_int_noDQ] by simp
next
  case (JNames w ns)
  have "strstr (names_text ns @ '']'' @ r) (quoted k) = strstr ('']'' @ r) (quoted k)"
    using assms(2) by (intro strstr_names [OF assms(1), of w]) (simp_all add: JNames)
  then show ?thesis
    using assms(2) strstr_skip [of "''['' @ w" "names_text ns @ '']'' @ r"] strstr_skip [of "'']''" r] blank_chars [of w]
    by (simp add: JNames)
next
  case (JOther t)
  then show ?thesis using assms(2) strstr_skip [of t r] by simp
qed

lemma strstr_field_miss:
  assumes "k \<in> set field_names" "field_ok f" "f_key f \<noteq> k" "sep r"
  shows "strstr (field_text f @ r) (quoted k) = strstr r (quoted k)"
proof -
  note f = assms(2) [unfolded field_ok_def]
  let ?v = "value_text (f_val f) @ f_trail f @ r"
  have "strstr (field_text f @ r) (quoted k) = strstr (quoted (f_key f) @ f_mid f @ '':'' @ f_gap f @ ?v) (quoted k)"
    using strstr_skip [of "f_lead f"] blank_chars [of "f_lead f"] f by (simp add: field_text_def)
  also have "\<dots> = strstr ((f_mid f @ '':'' @ f_gap f) @ ?v) (quoted k)"
    using strstr_miss [OF assms(1) _ assms(3), of "f_mid f @ '':'' @ f_gap f @ ?v"] sep_blank [of "f_mid f"] f by simp
  also have "\<dots> = strstr ?v (quoted k)"
    using strstr_skip [of "f_mid f @ '':'' @ f_gap f"] blank_chars [of "f_mid f"] blank_chars [of "f_gap f"] f by simp
  also have "\<dots> = strstr (f_trail f @ r) (quoted k)"
    using f by (intro strstr_value [OF assms(1)] sep_blank assms(4)) simp_all
  also have "\<dots> = strstr r (quoted k)" using strstr_skip blank_chars [of "f_trail f"] f by simp
  finally show ?thesis .
qed

definition found :: "field \<Rightarrow> string \<Rightarrow> string" where
  \<comment> \<open>the text from the name of a field on\<close>
  "found f r = quoted (f_key f) @ f_mid f @ '':'' @ f_gap f @ value_text (f_val f) @ f_trail f @ r"

lemma strstr_fields:
  "k \<in> set field_names \<Longrightarrow> list_all field_ok fs \<Longrightarrow> sep u \<Longrightarrow> DQ \<notin> set u \<Longrightarrow>
     (case find (\<lambda>f. f_key f = k) fs of
        None \<Rightarrow> strstr (fields_text fs @ u) (quoted k) = None
      | Some f \<Rightarrow> \<exists>r. sep r \<and> strstr (fields_text fs @ u) (quoted k) = Some (found f r))"
proof (induction fs)
  case Nil
  then show ?case by (simp add: strstr_none)
next
  case (Cons f fs)
  let ?r = "(if fs = [] then [] else '','' @ fields_text fs) @ u"
  have s: "sep ?r" using Cons.prems(3) by simp
  show ?case
  proof (cases "f_key f = k")
    case True
    have "strstr (field_text f @ ?r) (quoted k) = strstr (found f ?r) (quoted k)"
      using Cons.prems(2) strstr_skip [of "f_lead f"] blank_chars [of "f_lead f"]
      by (simp add: field_text_def found_def field_ok_def)
    also have "\<dots> = Some (found f ?r)" using strstr_hit True by (simp add: found_def)
    finally show ?thesis using True s by (auto simp del: strstr.simps)
  next
    case False
    have "strstr (fields_text (f # fs) @ u) (quoted k) = strstr ?r (quoted k)"
      using strstr_field_miss [OF Cons.prems(1) _ False s] Cons.prems(2) by simp
    also have "\<dots> = strstr (fields_text fs @ u) (quoted k)"
      using strstr_skip [of "'',''" "fields_text fs @ u"] by simp
    finally have e: "strstr (fields_text (f # fs) @ u) (quoted k) = strstr (fields_text fs @ u) (quoted k)" .
    show ?thesis unfolding e using Cons False by simp
  qed
qed

lemma strstr_doc:
  assumes "k \<in> set field_names" "list_all field_ok fs" "blank w" "blank v"
  shows "case find (\<lambda>f. f_key f = k) fs of
       None \<Rightarrow> strstr (doc_text w fs v) (quoted k) = None
     | Some f \<Rightarrow> field_ok f \<and> f_key f = k \<and> (\<exists>r. sep r \<and> strstr (doc_text w fs v) (quoted k) = Some (found f r))"
proof -
  have "strstr (doc_text w fs v) (quoted k) = strstr (fields_text fs @ ''}'' @ v) (quoted k)"
    using strstr_skip [of "w @ ''{''" "fields_text fs @ ''}'' @ v"] blank_chars [OF assms(3)] by (simp add: doc_text_def)
  moreover have "find (\<lambda>f. f_key f = k) fs = Some f \<Longrightarrow> field_ok f \<and> f_key f = k" for f
    using assms(2) by (auto simp: find_Some_iff list_all_iff)
  ultimately show ?thesis
    using strstr_fields [OF assms(1,2), of "''}'' @ v"] blank_chars [OF assms(4)] by (auto split: option.splits)
qed

section \<open>Extracting the values\<close>

lemma after_name:
  "drop (length (quoted (f_key f))) (found f r) = f_mid f @ CHR '':'' # f_gap f @ value_text (f_val f) @ f_trail f @ r"
  by (simp add: found_def)

lemma after_colon:
  "field_ok f \<Longrightarrow> strchr (drop (length (quoted (f_key f))) (found f r)) (CHR '':'')
     = Some (CHR '':'' # f_gap f @ value_text (f_val f) @ f_trail f @ r)"
  unfolding after_name using blank_chars [of "f_mid f"] by (intro strchr_append) (simp add: field_ok_def)

lemma extract_string_found:
  assumes "strstr json (quoted k) = Some (found f r)" "field_ok f" "f_key f = k" "f_val f = JStr s"
  shows "extract_string json (quoted k) out n = take (n - 1) s"
proof -
  note f = assms(2) [unfolded field_ok_def assms(4)]
  have 1: "strchr (f_gap f @ quoted s @ f_trail f @ r) DQ = Some (DQ # s @ DQ # f_trail f @ r)"
    using strchr_append [of DQ "f_gap f"] blank_chars [of "f_gap f"] f by (simp add: quoted_def)
  have 2: "strchr (s @ DQ # f_trail f @ r) DQ = Some (DQ # f_trail f @ r)"
    using f by (intro strchr_append) (simp add: plain_def)
  show ?thesis
    using after_colon [OF assms(2), of r] 1 2 assms(1,3,4) by (simp add: extract_string_def Let_def)
qed

lemma atoi_show_int:
  assumes "blank w" "ends_number rest" "- (2 ^ 31) \<le> i" "i < 2 ^ 31"
  shows "atoi (w @ show_int i @ rest) = i"
proof -
  have "show_int i @ rest \<noteq> []" "\<not> isspace (hd (show_int i @ rest))"
    using isdigit_not_space [OF hd_show_nat, of "nat i" rest] by (auto simp: show_int_def isspace_def)
  then have "dropWhile isspace (w @ show_int i @ rest) = show_int i @ rest"
    using assms(1) by (cases "show_int i @ rest") (simp_all add: blank_def list_all_iff dropWhile_append2)
  moreover have "\<bar>i\<bar> \<le> LONG_MAX" using assms(3,4) by (simp add: LONG_MAX_def abs_if)
  moreover have "(i + 2 ^ 31) mod 2 ^ 32 = i + 2 ^ 31" using assms(3,4) by (intro mod_pos_pos_trivial) simp_all
  ultimately show ?thesis using strtol_show_int [OF assms(2)] by (simp add: atoi_def)
qed

lemma sep_ends_number: "sep r \<Longrightarrow> ends_number r"
  by (auto simp: sep_def ends_number_def isspace_def isdigit_def)

lemma extract_int_found:
  assumes "strstr json (quoted k) = Some (found f r)" "field_ok f" "f_key f = k" "f_val f = JInt i" "sep r"
  shows "extract_int json (quoted k) d = i"
proof -
  note f = assms(2) [unfolded field_ok_def assms(4)]
  have "ends_number (f_trail f @ r)" using f by (intro sep_ends_number sep_blank assms(5)) simp
  then have "atoi (f_gap f @ show_int i @ f_trail f @ r) = i" using f by (intro atoi_show_int) simp_all
  then show ?thesis using after_colon [OF assms(2), of r] assms(1,3,4) by (simp add: extract_int_def)
qed

lemma readers_loop_end:
  assumes "DQ \<notin> set pre"
  shows "readers_loop (pre @ CHR '']'' # r) (Some (CHR '']'' # r)) acc = acc"
proof (cases "strchr (pre @ CHR '']'' # r) DQ")
  case None
  then show ?thesis by (rule readers_loop_rec(2))
next
  case (Some q)
  then obtain p u where q: "pre @ CHR '']'' # r = p @ DQ # u" "q = DQ # u" "DQ \<notin> set p" by (rule strchr_SomeD)
  have "length pre < length p"
  proof (rule ccontr)
    assume "\<not> length pre < length p"
    then have "(pre @ CHR '']'' # r) ! length p \<noteq> DQ"
      using assms by (auto simp: nth_append not_less_iff_gr_or_eq dest: nth_mem)
    then show False by (simp add: q(1))
  qed
  moreover have "length pre + Suc (length r) = length p + length q" using arg_cong [OF q(1), of length] q(2) by simp
  ultimately have "past (Some (CHR '']'' # r)) q" by (simp add: past_def)
  with Some show ?thesis by (rule readers_loop_rec(3))
qed

lemma readers_loop_names:
  "list_all (\<lambda>(a, n, b). blank a \<and> plain n \<and> blank b) ns \<Longrightarrow> DQ \<notin> set pre \<Longrightarrow> length acc \<le> 16 \<Longrightarrow>
     readers_loop (pre @ names_text ns @ CHR '']'' # r) (Some (CHR '']'' # r)) acc
       = take 16 (acc @ map (\<lambda>(a, n, b). take 31 n) ns)"
proof (induction ns arbitrary: pre acc)
  case Nil
  then show ?case by (simp add: readers_loop_end)
next
  case (Cons x ns)
  obtain a n b where x: "x = (a, n, b)" by (cases x)
  show ?case
  proof (cases "length acc = 16")
    case True
    then show ?thesis by (simp add: readers_loop_rec(1))
  next
    case False
    let ?c = "if ns = [] then [] else '',''"
    let ?r = "(b @ ?c) @ names_text ns @ CHR '']'' # r"
    have o: "DQ \<notin> set (pre @ a)" "DQ \<notin> set n" "DQ \<notin> set (b @ ?c)" "length acc < 16"
      using Cons.prems blank_chars [of a] blank_chars [of b] False by (auto simp: x plain_def)
    have t: "pre @ names_text (x # ns) @ CHR '']'' # r = (pre @ a) @ DQ # n @ DQ # ?r" by (simp add: x quoted_def)
    have 1: "strchr ((pre @ a) @ DQ # n @ DQ # ?r) DQ = Some (DQ # n @ DQ # ?r)" by (rule strchr_append [OF o(1)])
    have 2: "strchr (tl (DQ # n @ DQ # ?r)) DQ = Some (DQ # ?r)" unfolding list.sel by (rule strchr_append [OF o(2)])
    have 3: "\<not> past (Some (CHR '']'' # r)) (DQ # n @ DQ # ?r)" by (simp add: past_def)
    have "readers_loop ((pre @ a) @ DQ # n @ DQ # ?r) (Some (CHR '']'' # r)) acc
        = readers_loop ?r (Some (CHR '']'' # r)) (acc @ [take 31 n])"
      using readers_loop_rec(5) [OF _ 1 3 2, of acc] o(4) by (simp add: Let_def)
    also have "\<dots> = take 16 ((acc @ [take 31 n]) @ map (\<lambda>(a, n, b). take 31 n) ns)"
      using Cons.prems(1) o(3,4) by (intro Cons.IH) simp_all
    finally show ?thesis unfolding t by (simp add: x)
  qed
qed

lemma names_text_bracket: "value_ok (JNames w ns) \<Longrightarrow> CHR '']'' \<notin> set (names_text ns)"
  using blank_chars by (induction ns rule: names_text.induct) (auto simp: quoted_def)

lemma extract_readers_found:
  assumes "strstr json (quoted ''readers'') = Some (found f r)" "field_ok f" "f_key f = ''readers''" "f_val f = JNames w ns"
  shows "extract_readers json = take 16 (map (\<lambda>(a, n, b). take 31 n) ns)"
proof -
  note f = assms(2) [unfolded field_ok_def assms(4)]
  let ?r = "f_trail f @ r"
  let ?lb = "CHR ''['' # w @ names_text ns @ CHR '']'' # ?r"
  have "found f r = (quoted ''readers'' @ f_mid f @ '':'' @ f_gap f) @ ?lb" by (simp add: found_def assms(3,4))
  moreover have "CHR ''['' \<notin> set (quoted ''readers'' @ f_mid f @ '':'' @ f_gap f)"
    using f blank_chars [of "f_mid f"] blank_chars [of "f_gap f"] by (simp add: quoted_def)
  ultimately have lb: "strchr (found f r) (CHR ''['') = Some ?lb" by (simp only: strchr_append simp_thms)
  have "CHR '']'' \<notin> set (CHR ''['' # w @ names_text ns)"
    using f blank_chars [of w] names_text_bracket [of w ns] by simp
  then have rb: "strchr ?lb (CHR '']'') = Some (CHR '']'' # ?r)"
    using strchr_append [of "CHR '']''" "CHR ''['' # w @ names_text ns" ?r] by simp
  have "list_all (\<lambda>(a, n, b). blank a \<and> plain n \<and> blank b) ns" using f by (auto simp: list_all_iff)
  then have "readers_loop (w @ names_text ns @ CHR '']'' # ?r) (Some (CHR '']'' # ?r)) []
      = take 16 ([] @ map (\<lambda>(a, n, b). take 31 n) ns)"
    using f blank_chars [of w] by (intro readers_loop_names) simp_all
  with lb rb assms(1) show ?thesis by (simp add: extract_readers_def)
qed

section \<open>The whole document\<close>

lemma doc_string:
  assumes "list_all field_ok fs" "blank w" "blank v" "k \<in> {''datadir'', ''hostname'', ''rrdcached_addr'', ''metrics_addr''}"
  shows "extract_string (doc_text w fs v) (quoted k) d n = string_of fs k n d"
proof -
  have k: "k \<in> set field_names" "k \<noteq> ''interval''" "k \<noteq> ''readers''" using assms(4) by (auto simp: field_names_def)
  show ?thesis
  proof (cases "find (\<lambda>f. f_key f = k) fs")
    case None
    then show ?thesis
      using strstr_doc [OF k(1) assms(1-3)] by (simp add: extract_string_def string_of_def value_of_def)
  next
    case (Some f)
    then obtain r where f: "field_ok f" "f_key f = k" "strstr (doc_text w fs v) (quoted k) = Some (found f r)"
      using strstr_doc [OF k(1) assms(1-3)] by auto
    then obtain s where "f_val f = JStr s" using k by (auto simp: field_ok_def typed_def)
    with f Some show ?thesis by (simp add: extract_string_found string_of_def value_of_def)
  qed
qed

lemma doc_interval:
  assumes "list_all field_ok fs" "blank w" "blank v"
  shows "extract_int (doc_text w fs v) (quoted ''interval'') d
     = (case value_of fs ''interval'' of Some (JInt i) \<Rightarrow> i | _ \<Rightarrow> d)"
proof -
  have k: "''interval'' \<in> set field_names" by (simp add: field_names_def)
  show ?thesis
  proof (cases "find (\<lambda>f. f_key f = ''interval'') fs")
    case None
    then show ?thesis using strstr_doc [OF k assms] by (simp add: extract_int_def value_of_def)
  next
    case (Some f)
    then obtain r where f: "field_ok f" "f_key f = ''interval''" "sep r"
      "strstr (doc_text w fs v) (quoted ''interval'') = Some (found f r)"
      using strstr_doc [OF k assms] by auto
    then obtain i where "f_val f = JInt i" by (auto simp: field_ok_def typed_def)
    with f Some show ?thesis by (simp add: extract_int_found value_of_def)
  qed
qed

lemma doc_readers:
  assumes "list_all field_ok fs" "blank w" "blank v"
  shows "extract_readers (doc_text w fs v)
     = (case value_of fs ''readers'' of Some (JNames u ns) \<Rightarrow> take 16 (map (\<lambda>(a, n, b). take 31 n) ns) | _ \<Rightarrow> [])"
proof -
  have k: "''readers'' \<in> set field_names" by (simp add: field_names_def)
  show ?thesis
  proof (cases "find (\<lambda>f. f_key f = ''readers'') fs")
    case None
    then show ?thesis using strstr_doc [OF k assms] by (simp add: extract_readers_def value_of_def)
  next
    case (Some f)
    then obtain r where f: "field_ok f" "f_key f = ''readers''"
      "strstr (doc_text w fs v) (quoted ''readers'') = Some (found f r)"
      using strstr_doc [OF k assms] by auto
    then obtain u ns where "f_val f = JNames u ns" by (auto simp: field_ok_def typed_def)
    with f Some show ?thesis by (simp add: extract_readers_found value_of_def)
  qed
qed

lemma config_parse_doc:
  assumes "list_all field_ok fs" "blank w" "blank v"
  shows "config_parse (doc_text w fs v) config_default = config_of fs"
proof -
  have "(if extract_int (doc_text w fs v) (quoted ''interval'') 5 < 1 then 5
      else extract_int (doc_text w fs v) (quoted ''interval'') 5) = interval (config_of fs)"
    unfolding doc_interval [OF assms] by (simp add: config_of_def split: option.splits jvalue.splits)
  moreover have "extract_readers (doc_text w fs v) = c_readers (config_of fs)"
    unfolding doc_readers [OF assms] by (simp add: config_of_def)
  moreover have "snprintf_buf 4096 ''/var/lib/svgd-collect/rrd'' = ''/var/lib/svgd-collect/rrd''"
    "snprintf_buf 128 ''localhost'' = ''localhost''" by (simp_all add: snprintf_buf_def)
  ultimately show ?thesis
    using doc_string [OF assms] by (simp add: config_parse_def config_default_def Let_def config_of_def)
qed

section \<open>A string field without a string\<close>

text \<open>The hypothesis that a string field holds a string is needed: the scanner takes the next quoted text
  of the document, so after \<open>null\<close> the name of the following field becomes the value.\<close>

lemma next_string_taken:
  assumes "strstr json (quoted k) = Some (quoted k @ mid @ '':'' @ t @ quoted s @ r)"
    "blank mid" "DQ \<notin> set t" "DQ \<notin> set s"
  shows "extract_string json (quoted k) out n = take (n - 1) s"
proof -
  have 1: "strchr (mid @ CHR '':'' # t @ quoted s @ r) (CHR '':'') = Some (CHR '':'' # t @ quoted s @ r)"
    using blank_chars [OF assms(2)] by (intro strchr_append) simp
  have 2: "strchr (t @ quoted s @ r) DQ = Some (DQ # s @ DQ # r)" using strchr_append [OF assms(3)] by (simp add: quoted_def)
  have 3: "strchr (s @ DQ # r) DQ = Some (DQ # r)" by (rule strchr_append [OF assms(4)])
  show ?thesis using assms(1) 1 2 3 by (simp add: extract_string_def Let_def)
qed

lemma null_takes_next_name:
  "c_rrdcached (config_parse (''{'' @ quoted ''rrdcached_addr'' @ '': null, '' @ quoted ''interval'' @ '': 10}'') config_default)
     = ''interval''"
proof -
  let ?r = "'': 10}''"
  let ?x = "quoted ''rrdcached_addr'' @ [] @ '':'' @ '' null, '' @ quoted ''interval'' @ ?r"
  have "strstr (''{'' @ ?x) (quoted ''rrdcached_addr'') = Some ?x"
    using strstr_skip [of "''{''" ?x] strstr_hit [of "''rrdcached_addr''"] by simp
  then have "extract_string (''{'' @ ?x) (quoted ''rrdcached_addr'') [] 256 = take (256 - 1) ''interval''"
    by (rule next_string_taken) (simp_all add: blank_def)
  then show ?thesis by (simp add: config_parse_def config_default_def Let_def)
qed

end
