(* ===== verification/Spec2Isabelle.thy ===== *)
theory Spec2Isabelle
  imports Devices Isolation ConfigDoc
begin

text \<open>
  \<^bold>\<open>svgd-collect.\<close> The program samples \<^verbatim>\<open>/proc\<close> and \<^verbatim>\<open>/sys\<close> every few seconds, writes
  each metric to an RRD file in collectd's layout, and optionally serves the last cycle to Prometheus
  over HTTP from a second thread. This theory holds the properties that span its components; the
  other theories hold one component each. All source paths below are relative to \<^verbatim>\<open>src/\<close>.

  \<^bold>\<open>The parts and their theories.\<close> In the order of the imports:
  \<^item> \<open>Prelude\<close>: C strings as byte lists without NUL, \<open>snprintf\<close> into a buffer, \<open>strncmp\<close>, \<open>strstr\<close>,
    decimal printing and the outcome scripts of \<open>malloc\<close>; \<open>Double\<close>: binary64 as a datatype with
    exact rational rounding to nearest even, conversion, arithmetic and \<^verbatim>\<open>%.15g\<close>/\<^verbatim>\<open>%.0f\<close> printing;
    \<open>CLib\<close>: the \<open>sscanf\<close> conversions and \<open>fgets\<close>. They model the language and its library.
  \<^item> \<open>Metric\<close> (\<^verbatim>\<open>include/metric.h\<close>, \<^verbatim>\<open>src/log.c\<close>), \<open>TypeDict\<close> (\<^verbatim>\<open>src/types.c\<close>), \<open>Rra\<close>
    (\<^verbatim>\<open>src/rra.c\<close>), \<open>Path\<close> (\<^verbatim>\<open>src/path.c\<close>) and \<open>Writer\<close> (\<^verbatim>\<open>src/writer_rrd.c\<close>): from a
    metric to the update of its file.
  \<^item> \<open>ReaderBase\<close>, \<open>ReaderCpu\<close>, \<open>ReaderSys\<close>, \<open>ReaderNet\<close>, \<open>ReaderDisk\<close>, \<open>ReaderProc\<close>
    (\<^verbatim>\<open>src/readers/*.c\<close>): the eleven readers. A reader maps an operating system \<open>osenv\<close> and
    the readers' static state to a code, the events in order (log lines and emitted metrics) and the new state;
    \<open>None\<close> stands for undefined behaviour (signed overflow). \<open>Registry\<close> (\<^verbatim>\<open>src/registry.c\<close>)
    has the table and the list of enabled readers.
  \<^item> \<open>ScanText\<close>, \<open>ProcFiles\<close>, \<open>ProcPids\<close>, \<open>ReaderProps\<close>: the converse of the scanners. \<open>ScanText\<close> shows
    that each \<open>sscanf\<close> conversion reads back what is printed for it, \<open>ProcFiles\<close> and \<open>ProcPids\<close> describe
    the kernel's files by printers from the numbers they show, and \<open>ReaderProps\<close> states what each
    reader makes of them.
  \<^item> \<open>Scrape\<close>: a reader of the Prometheus text format, the specification of the page; \<open>ConfigDoc\<close>: JSON
    documents and what they mean as a configuration; \<open>EndToEnd\<close>: the updates that librrd is to perform, and
    both outputs for the counters of the interfaces; \<open>PassKeys\<close>: which readers never repeat a name;
    \<open>ValueText\<close>, \<open>Delivery\<close>: how long printed numbers are, and that no sample is refused for its size or
    shares its path; \<open>Devices\<close>: tables that list each device once; \<open>Isolation\<close>: the cycle without the readers that fail. They are specifications and model no code.
  \<^item> \<open>DString\<close>, \<open>Prom\<close>, \<open>Snapshot\<close>, \<open>Threads\<close> (all \<^verbatim>\<open>src/prom.c\<close>): the growable string,
    the exposition formatter, the two-buffer store with an explicit heap of buffers, and the
    interleavings of the collection thread and the HTTP thread around \<open>g_lock\<close> as a step relation.
  \<^item> \<open>Config\<close> (\<^verbatim>\<open>src/config.c\<close>), \<open>Http\<close> (\<^verbatim>\<open>src/http.c\<close>), \<open>Collect\<close> (\<^verbatim>\<open>src/collect.c\<close>,
    \<^verbatim>\<open>src/main.c\<close>): configuration, endpoint, the loop and the program as functions of a script.
  \<^item> \<open>Program\<close>, \<open>Execution\<close> (\<^verbatim>\<open>src/main.c\<close>, the loops of \<^verbatim>\<open>src/collect.c\<close> and \<^verbatim>\<open>src/http.c\<close>): the
    main thread, the HTTP thread, the critical sections of \<open>Threads\<close> and the delivery of signals as one
    step relation, its invariants, a rank that bounds what is left after a signal, and the simulation of
    the functions of \<open>Collect\<close> by its executions.

  \<^bold>\<open>State and effects.\<close> A pointer that may be null is an option; a buffer of \<open>n\<close> bytes is its
  contents up to the terminator. The only shared state, the snapshot store, is the record
  \<open>snap_state\<close> (buffers, \<open>g_published\<close>, \<open>g_staged\<close>). Each \<open>malloc\<close> and \<open>realloc\<close> consumes one
  outcome of a script, and an exhausted script means success; \<open>mem_ok\<close> says that nothing fails. The
  sends, polls and accepts of the endpoint are scripts in the same way, so every theorem without a
  hypothesis on them holds for every pattern of failures.

  \<^bold>\<open>Parameters.\<close> Code outside the repository is an argument: librrd and the file system are
  \<open>rrd_ops\<close> (the laws used are that of \<open>mkdir\<close>, \<open>mkdir_law\<close>, and, where a theorem speaks of the files, that
  librrd creates and updates them while its daemon may fail, \<open>records\<close>), the kernel's files are \<open>osenv\<close>,
  the socket calls are \<open>net_env\<close>, and \<open>qsort\<close> is a function with the contract \<open>family_sorter\<close>
  (a permutation that is ordered by family). Where names matter, \<open>names_ok\<close> states the system's rules
  for directory entries and \<open>lists_once\<close> that a table repeats no device. An execution draws the kernel's answers from a set \<open>E\<close>;
  \<open>kernel_ok\<close> says that they never make a reader overflow. Each has a concrete instance in the witnesses.

  \<^bold>\<open>Interfaces.\<close> The locales are \<open>keyed_table\<close> (a static table searched by key; interpreted for
  the types, the rules and the registry), \<open>reader_contract\<close> (interpreted for each reader and for the
  registry's dispatcher), \<open>text_buffer\<close> (the growable string), \<open>snapshot_store\<close> (begin, add and
  publish against an abstract pair of lists) and \<open>family_sorter\<close> (the sort the formatter relies on).

  \<^bold>\<open>What is shown.\<close>
  \<^item> Threads: a scrape copies one complete cycle, the critical sections exclude each other, there is
    no deadlock; the store refines two lists, and stays well formed when allocations fail.
  \<^item> Executions: every reply shows one complete pass over the enabled readers; after \<open>SIGINT\<close> or
    \<open>SIGTERM\<close> every execution ends, with code 0, the thread joined and everything written and flushed; librrd
    has then performed the updates of every completed pass; the function \<open>main_prog\<close> is one of the executions.
  \<^item> Cycle and scrape: a cycle stores every emitted metric, each at a path of its own, and gives the same metrics
    to the snapshot; readers that fail change nothing for the others; the exposition has one
    block per family and loses nothing; a reader of the format recovers from the answer to a scrape exactly the
    samples of the cycle, without repeated series; the interfaces' counters reach both outputs unchanged.
  \<^item> Readers: the contract of all eleven; that each recovers the numbers the kernel printed, with the
    ranges of the percentages, the exactness of swap and df, and the filters of disk and df. The contract
    includes which instances a reader sets, so that the labels of a sample determine its metric.
  \<^item> Writing: every branch of a write, paths, archives, value strings, directories.
  \<^item> Configuration: the scanner of the raw text agrees with a lookup in the JSON document, for fields in any
    order and any white space; bounds of every loaded configuration.
  \<^item> Endpoint: exactly which addresses are understood, descriptors, complete sends in a bounded number of calls, routing.

  \<^bold>\<open>Bounds and loops.\<close> Every function is total. The doubling of \<open>ds_reserve\<close> and \<open>sb_reserve\<close>, the
  escaping, the scanners and the send loop have termination proofs or recurse on their input; no fuel is used.
  \<open>collect_loop\<close> and \<open>metrics_thread\<close> run while \<open>g_running\<close> holds, so they recurse over the list
  of cycles, or of poll results, that happen before it is cleared; as threads they are the step relation
  of \<open>Program\<close>, which has no such list. \<open>size_t\<close> arithmetic is on naturals:
  the hypotheses that a page is shorter than \<open>10^20\<close> bytes hold on every 64-bit machine.

  \<^bold>\<open>Not modelled.\<close> The inside of pthreads, \<open>strerror\<close> texts (an argument), the five-second socket
  timeouts (a timed-out call is one of the outcomes of its script), the order in which the lines of the
  two threads reach \<open>stderr\<close> (the state of an execution has those of the main thread), and the tests,
  makefile and packaging.

  \<^bold>\<open>State of the development.\<close> Every function of the program is modelled. The specifications could still grow in
  breadth: delivery down to the bytes of both outputs for the other readers, as for the interfaces.
\<close>

section \<open>The two threads\<close>

text \<open>C1: In every interleaving of the collection thread and the HTTP thread, a non-empty copy that a
  scrape has taken is the complete snapshot of one finished cycle: it is never partial, never a mixture,
  and each of its entries is the copy of a metric of that cycle, in order.\<close>

theorem scrape_is_one_cycle:
  assumes "reachable s" "rpc s = RGot acc" "acc \<noteq> []"
  shows "\<exists>ms. (ms, acc) \<in> set (log_cycles s) \<and> subseq acc (map copy_metric ms)"
proof -
  have i: "copy_ok s" "cycle_ok s" using reachable_inv [OF assms(1)] by (simp_all add: sys_inv_def)
  then have "acc \<in> snapshots s" using assms(2) by (simp add: copy_ok_def)
  then obtain ms where "(ms, acc) \<in> set (log_cycles s)" using assms(3) by (auto simp: snapshots_def)
  then show ?thesis using i(2) by (auto simp: cycle_ok_def)
qed

definition demo_metric :: metric where
  "demo_metric = uptime_metric (double_of_int 42)"

definition demo_system :: system where
  "demo_system =
     (let a = fst (prom_snapshot_begin snap_init []);
          b = fst (prom_snapshot_add demo_metric a [])
      in \<lparr>snap = prom_snapshot_publish b, g_lock = None, cpc = CBegin, rpc = RGot [copy_metric demo_metric],
          emitted_now = [demo_metric], log_cycles = [([demo_metric], staged b)]\<rparr>)"

lemma demo_reachable: "reachable demo_system"
proof -
  let ?m = demo_metric
  let ?a = "fst (prom_snapshot_begin snap_init [])"
  let ?b = "fst (prom_snapshot_add ?m ?a [])"
  let ?c = "prom_snapshot_publish ?b"
  let ?l = "[([?m], staged ?b)]"
  let ?st = "\<lambda>sn lk c r e l. \<lparr>snap = sn, g_lock = lk, cpc = c, rpc = r, emitted_now = e, log_cycles = l\<rparr> :: system"
  have next_by: "reachable y" if "reachable x" "step x z" "z = y" for x y z
    using that next_step by blast
  have g: "g_published ?c = Some 0" "sb_count (buf ?c 0) = 1" "sb_items (buf ?c 0) ! 0 = copy_metric ?m"
    by (simp_all add: prom_snapshot_publish_def prom_snapshot_add_def prom_snapshot_begin_def
        ensure_staged_def sb_new_def snap_init_def set_buf_def buf_def sb_reserve_def put_item_def grow_cap_rec)
  have "reachable (?st snap_init None CBegin RIdle [] [])"
    using reachable.init by (simp add: sys_init_def)
  then have "reachable (?st ?a None CAdd RIdle [] [])"
    by (rule next_by [OF _ step.collector [OF cstep.c_begin [where h = "[]"]]]) (simp_all add: sys_begin_def)
  then have "reachable (?st ?b None CAdd RIdle [?m] [])"
    by (rule next_by [OF _ step.collector [OF cstep.c_add [where h = "[]" and m = ?m]]]) (simp_all add: sys_add_def)
  then have "reachable (?st ?b None CLock RIdle [?m] [])"
    by (rule next_by [OF _ step.collector [OF cstep.c_done]]) simp_all
  then have "reachable (?st ?b (Some Collector) CSwap RIdle [?m] [])"
    by (rule next_by [OF _ step.collector [OF cstep.c_lock]]) simp_all
  then have "reachable (?st ?c (Some Collector) CUnlock RIdle [?m] ?l)"
    by (rule next_by [OF _ step.collector [OF cstep.c_swap]]) simp_all
  then have "reachable (?st ?c None CBegin RIdle [?m] ?l)"
    by (rule next_by [OF _ step.collector [OF cstep.c_unlock]]) simp_all
  then have "reachable (?st ?c (Some Http) CBegin RRead [?m] ?l)"
    by (rule next_by [OF _ step.http [OF rstep.r_lock]]) simp_all
  then have "reachable (?st ?c (Some Http) CBegin (RCopy 0 1 []) [?m] ?l)"
    by (rule next_by [OF _ step.http [OF rstep.r_alloc [where p = 0]]]) (simp_all add: g)
  then have "reachable (?st ?c (Some Http) CBegin (RCopy 0 1 [copy_metric ?m]) [?m] ?l)"
    by (rule next_by [OF _ step.http [OF rstep.r_copy [where p = 0 and n = 1 and acc = "[]"]]]) (simp_all add: g)
  then have "reachable (?st ?c (Some Http) CBegin (RUnlock [copy_metric ?m]) [?m] ?l)"
    by (rule next_by [OF _ step.http [OF rstep.r_copied [where p = 0 and n = 1 and acc = "[copy_metric ?m]"]]]) simp_all
  then have "reachable (?st ?c None CBegin (RGot [copy_metric ?m]) [?m] ?l)"
    by (rule next_by [OF _ step.http [OF rstep.r_unlock [where acc = "[copy_metric ?m]"]]]) simp_all
  then show ?thesis by (simp add: demo_system_def Let_def)
qed

theorem scrape_is_one_cycle_witness:
  "\<exists>ms. (ms, [copy_metric demo_metric]) \<in> set (log_cycles demo_system)
     \<and> subseq [copy_metric demo_metric] (map copy_metric ms)"
  by (rule scrape_is_one_cycle [OF demo_reachable]) (simp_all add: demo_system_def Let_def)

text \<open>C12: The two critical sections of \<open>g_lock\<close> are never occupied together, and no reachable state
  of the two threads is a deadlock.\<close>

theorem threads_exclusive_and_live:
  assumes "reachable s"
  shows "\<not> (in_collector (cpc s) \<and> in_http (rpc s)) \<and> (\<exists>s'. step s s')"
proof -
  have i: "sys_inv s" by (rule reachable_inv [OF assms])
  then show ?thesis using step_progress [OF i] by (auto simp: sys_inv_def lock_ok_def)
qed

theorem threads_exclusive_and_live_witness:
  "\<not> (in_collector (cpc demo_system) \<and> in_http (rpc demo_system)) \<and> (\<exists>s'. step demo_system s')"
  by (rule threads_exclusive_and_live [OF demo_reachable])

section \<open>From a cycle to a scrape\<close>

text \<open>C7: For every conforming sort the page is the concatenation of one block per family, each with
  its HELP and TYPE lines once and then the samples of the family's metrics; the metrics shown are
  exactly those of the published snapshot that have a rule, none lost or doubled, and the text is
  terminated.\<close>

theorem exposition_one_block_per_family:
  assumes "family_sorter qs" "snap_inv s" "mem_ok h"
  shows "\<exists>es. mset es = mset (entries (published s)) \<and> distinct (map r_family (firsts (map fst es)))
     \<and> fst (prom_render qs s h) = Some (concat (map (block (published s) es) (firsts (map fst es))), True)"
proof (intro exI conjI)
  let ?es = "qs (entries (published s))"
  show "mset ?es = mset (entries (published s))"
    by (rule family_sorter.qs_mset [OF assms(1)])
  have "set (firsts (map fst ?es)) \<subseteq> set RULES"
    using family_sorter.qs_entries_ok [OF assms(1), of "published s"] by (auto simp: entries_ok_def)
  then show "distinct (map r_family (firsts (map fst ?es)))"
    unfolding distinct_map using family_inj by (blast intro: distinct_firsts inj_onI)
  show "fst (prom_render qs s h) = Some (concat (map (block (published s) ?es) (firsts (map fst ?es))), True)"
    using family_sorter.prom_render_ok [OF assms] by (simp add: exposition_def)
qed

lemma demo_snap_inv: "snap_inv (snap demo_system)"
  using reachable_inv [OF demo_reachable] by (simp add: sys_inv_def)

theorem exposition_one_block_per_family_witness:
  "\<exists>es. mset es = mset (entries (published (snap demo_system)))
     \<and> distinct (map r_family (firsts (map fst es)))
     \<and> fst (prom_render sort_family (snap demo_system) [])
         = Some (concat (map (block (published (snap demo_system)) es) (firsts (map fst es))), True)"
  by (rule exposition_one_block_per_family [OF sort_family.family_sorter_axioms demo_snap_inv mem_ok_Nil])

text \<open>C9: A reader that fails does no harm. Whatever readers fail during a cycle, the cycle leaves the same files,
  the same snapshot and the same remembered samples as a cycle over the other readers alone; only
  the log tells them apart.\<close>

theorem failed_readers_isolated:
  assumes "collect_cycle ops w enabled env s = Some s'"
  shows "\<exists>t'. collect_cycle ops w (healthy env enabled) env s = Some t'
     \<and> os (cs_ws t') = os (cs_ws s') \<and> cs_snap t' = cs_snap s' \<and> cs_rd t' = cs_rd s'"
  using cycle_of_healthy [OF assms] by blast

definition demo_ops :: "unit rrd_ops" where
  \<comment> \<open>a file system and librrd where every call succeeds\<close>
  "demo_ops =
     \<lparr>op_mkdir = (\<lambda>_ m. (MkOk, m)), op_access = (\<lambda>_ _. False), op_time = (\<lambda>_. 0),
      op_create = (\<lambda>_ _ _ _ m. (0, [], m)), op_update = (\<lambda>_ _ m. (0, [], m)),
      op_rrdc_is_connected = (\<lambda>_ _. False), op_rrdc_connect = (\<lambda>_ m. (0, [], m)),
      op_rrdc_update = (\<lambda>_ _ m. (0, [], m)), op_rrdc_flushall = (\<lambda>m. (0, [], m)),
      op_rrdc_disconnect = (\<lambda>m. m)\<rparr>"

definition demo_writer :: writer where
  "demo_writer = \<lparr>datadir = ''/var/lib/svgd-collect/rrd'', host = ''localhost'', rrdcached = []\<rparr>"

definition demo_cs :: "unit cstate" where
  "demo_cs = \<lparr>cs_ws = \<lparr>os = (), err = []\<rparr>, cs_rd = rstate_init, cs_snap = snap_init, cs_mem = []\<rparr>"

lemma demo_scan: "fscanf [Dbl] ''42.00 7.50'' = (1, [SDbl (double_of_int 42)])"
proof -
  have m: "scan_mantissa isdigit ''42.00 7.50'' = (''42'', ''00'', '' 7.50'')"
    and e: "scan_exponent (CHR ''e'') '' 7.50'' = Some (0, '' 7.50'')"
    and d: "digits_val 10 ''4200'' = 4200"
    and s: "scan_sign ''42.00 7.50'' = (False, ''42.00 7.50'')"
    and l: "\<not> istarts_with ''42.00 7.50'' ''infinity''" "\<not> istarts_with ''42.00 7.50'' ''inf''"
      "\<not> istarts_with ''42.00 7.50'' ''nan''" "\<not> istarts_with ''42.00 7.50'' ''0x''"
    and w: "\<not> isspace (CHR ''4'')"
    by (simp_all add: cstr_defs)
  have c: "scale False 4200 10 (- 2) = double_of_int 42" by (simp add: cstr_defs double_defs)
  have "strtod ''42.00 7.50'' = Some (double_of_int 42, '' 7.50'')"
    by (simp add: strtod_def s l m e d c)
  then show ?thesis by (simp add: fscanf_def scan_tok_def w)
qed

lemma demo_uptime: "uptime_read demo_env ''/proc'' rd = Some (0, [Emit demo_metric], rd)"
  by (simp add: uptime_read_def demo_env_def snprintf_buf_def demo_scan demo_metric_def)


definition no_files :: osenv where
  "no_files =
     \<lparr>os_fopen = (\<lambda>_. Inl ''No such file or directory''), os_opendir = (\<lambda>_. Inl ''No such file or directory''),
      os_statvfs = (\<lambda>_. None), os_pagesize = 4096, os_regcomp_ok = True\<rparr>"

definition half_env :: "reader \<Rightarrow> osenv" where
  \<comment> \<open>the cpu reader finds no file\<close>
  "half_env r = (if r = cpu_reader then no_files else demo_env)"

theorem failed_readers_isolated_witness:
  "\<exists>s' t'. collect_cycle demo_ops demo_writer [cpu_reader, uptime_reader] half_env demo_cs = Some s'
     \<and> collect_cycle demo_ops demo_writer [uptime_reader] half_env demo_cs = Some t'
     \<and> published (cs_snap s') = [copy_metric demo_metric] \<and> cs_snap t' = cs_snap s'"
proof -
  have h: "healthy half_env [cpu_reader, uptime_reader] = [uptime_reader]"
    by (simp add: healthy_def failing_def half_env_def demo_uptime cpu_read_def no_files_def)
  have "\<exists>l. readers_events half_env [cpu_reader, uptime_reader] (cs_rd demo_cs) = Some ([Log l, Emit demo_metric], rstate_init)"
    by (simp add: half_env_def demo_uptime cpu_read_def no_files_def demo_cs_def)
  then obtain l where ev: "readers_events half_env [cpu_reader, uptime_reader] (cs_rd demo_cs) = Some ([Log l, Emit demo_metric], rstate_init)" ..
  obtain s' where c: "collect_cycle demo_ops demo_writer [cpu_reader, uptime_reader] half_env demo_cs = Some s'"
    by (rule collect_cycle_split [OF ev, of demo_ops demo_writer]) simp
  have "published (cs_snap s') = [copy_metric demo_metric]"
    using cycle_snapshot(1) [OF ev _ _ c] by (simp add: demo_cs_def)
  with c failed_readers_isolated [OF c] show ?thesis unfolding h by blast
qed

















section \<open>Readers\<close>

text \<open>C13: Every reader returns 0 or -1. On -1 it has logged, has emitted nothing and has kept its state.
  Every metric it emits has a type of the dictionary with that number of values and an exposition rule,
  the copy made for the snapshot keeps its values, and an instance that the rule does not show carries no
  information, so that no two series of a reader are confused on the page.\<close>

theorem every_reader_keeps_its_contract:
  assumes "reader_read r env base s = Some (rc, es, s')"
  shows "(rc = 0 \<or> (rc = - 1 \<and> emitted es = [] \<and> es \<noteq> [] \<and> s' = s))
     \<and> (\<forall>m \<in> set (emitted es). \<exists>ru d.
          find_rule (sm_plugin (copy_metric m)) (sm_type (copy_metric m)) = Some ru
        \<and> types_lookup (type m) = Some d \<and> td_ds_count d = ds_count m
        \<and> int (length (vals m)) = ds_count m \<and> sm_values (copy_metric m) = vals m \<and> shown (copy_metric m))"
proof
  show "rc = 0 \<or> (rc = - 1 \<and> emitted es = [] \<and> es \<noteq> [] \<and> s' = s)"
    using readers.rc_cases [OF assms] readers.error_silent assms by blast
  show "\<forall>m \<in> set (emitted es). \<exists>ru d.
          find_rule (sm_plugin (copy_metric m)) (sm_type (copy_metric m)) = Some ru
        \<and> types_lookup (type m) = Some d \<and> td_ds_count d = ds_count m
        \<and> int (length (vals m)) = ds_count m \<and> sm_values (copy_metric m) = vals m \<and> shown (copy_metric m)"
    using reader_metric_rule [OF readers.emits_ok [OF assms]] readers.emits_dictionary [OF assms]
      metric_shown [OF readers.emits_ok [OF assms]] by blast
qed

theorem every_reader_keeps_its_contract_witness:
  "\<exists>ru d. find_rule (sm_plugin (copy_metric demo_metric)) (sm_type (copy_metric demo_metric)) = Some ru
     \<and> types_lookup (type demo_metric) = Some d \<and> td_ds_count d = ds_count demo_metric
     \<and> int (length (vals demo_metric)) = ds_count demo_metric
     \<and> sm_values (copy_metric demo_metric) = vals demo_metric \<and> shown (copy_metric demo_metric)"
  using every_reader_keeps_its_contract
    [of uptime_reader demo_env "''/proc''" rstate_init 0 "[Emit demo_metric]" rstate_init]
  by (simp add: demo_uptime)

section \<open>Writing\<close>

text \<open>C16: The path of a metric's file is the collectd layout exactly when it fits, the call fails
  otherwise, and the buffer of \<open>n\<close> bytes is never overrun.\<close>

theorem rrd_path_exact_or_refused:
  "metric_to_path n (Some b) (Some h) (Some m) =
     (if length (path_spec b h m) < n \<and> length (file_name m) < 256 then (0, path_spec b h m)
      else (- 1, snd (metric_to_path n (Some b) (Some h) (Some m))))
   \<and> length (snd (metric_to_path n (Some b) (Some h) (Some m))) < max 1 n"
proof
  show "metric_to_path n (Some b) (Some h) (Some m) =
     (if length (path_spec b h m) < n \<and> length (file_name m) < 256 then (0, path_spec b h m)
      else (- 1, snd (metric_to_path n (Some b) (Some h) (Some m))))"
    using metric_to_path_eq [of b h m n] metric_to_path_fail [of b h m n]
    by (auto intro: prod_eqI)
  show "length (snd (metric_to_path n (Some b) (Some h) (Some m))) < max 1 n"
  proof (cases "n = 0")
    case True
    then show ?thesis by (simp add: metric_to_path_def)
  next
    case False
    then show ?thesis using metric_to_path_bound [of n "Some b" "Some h" "Some m"] by (simp add: prod_eq_iff)
  qed
qed








text \<open>C19: Counters up to \<open>2^53\<close> reach librrd as exact plain decimals, without exponent or fraction.\<close>

theorem counters_written_exactly:
  assumes "types_lookup t = Some td" "is_counter td" "td_ds_count td = ds_count m"
    "vals m = map double_of_int cs" "length cs = length (td_ds td)" "list_all (\<lambda>c. \<bar>c\<bar> \<le> 2 ^ 53) cs"
  shows "fmt_values 256 (Some td) (Some m) = (0, ''N'' @ concat (map (\<lambda>c. '':'' @ show_int c) cs))"
  using fmt_values_counters [OF types_lookup_ok [OF assms(1)] assms(2-5)] assms(6) by (simp add: list_all_iff)

theorem counters_written_exactly_witness:
  "fmt_values 256 (Some (mk_td ''if_octets'' ds_if_octets 2))
     (Some (interface_metric ''eth0'' ''if_octets'' 9007199254740992 7)) = (0, ''N:9007199254740992:7'')"
  using counters_written_exactly [of "Some ''if_octets''" "mk_td ''if_octets'' ds_if_octets 2"
      "interface_metric ''eth0'' ''if_octets'' 9007199254740992 7" "[9007199254740992, 7]"]
  by (simp add: interface_metric_def is_counter_def ds_tables show_int_def show_nat_rec digit_char_def)

section \<open>Choosing the readers\<close>

text \<open>C32: The enabled readers are, without configured names, all eleven in registry order; otherwise the
  known names among the first sixteen, each once, in the order they were first named.\<close>

theorem enabled_readers:
  "fst (cfg_enabled cfg) =
     (if c_readers cfg = [] then map snd REGISTRY
      else firsts (List.map_filter (\<lambda>n. registry_find (Some n)) (take 16 (c_readers cfg))))"
proof (cases "c_readers cfg = []")
  case True
  then show ?thesis by (simp add: cfg_enabled_def collect_build_enabled_def REGISTRY_def)
next
  case False
  let ?ns = "map Some (take 16 (c_readers cfg))"
  have t: "take (length (c_readers cfg)) ?ns = ?ns" by simp
  have "fst (build_loop ?ns 32 [] []) = firsts (List.map_filter registry_find ?ns)"
    using build_loop_fst [of 32 "[]" ?ns "[]"] by (simp add: registry_count_def REGISTRY_def firsts_def)
  also have "List.map_filter registry_find ?ns = List.map_filter (\<lambda>n. registry_find (Some n)) (take 16 (c_readers cfg))"
    by (simp add: map_filter_def filter_map comp_def)
  finally show ?thesis using False by (simp add: cfg_enabled_def collect_build_enabled_def t del: take_map)
qed

section \<open>The exposition format\<close>


section \<open>The snapshot store\<close>

text \<open>C14: The store implements the abstract one: \<open>begin\<close> empties the staging area, \<open>add\<close> appends one copy,
  neither touches what is published, and \<open>publish\<close> exchanges the two.\<close>

theorem snapshot_store_refines:
  assumes "snap_inv s" "mem_ok h"
  shows "staged (fst (prom_snapshot_begin s h)) = [] \<and> published (fst (prom_snapshot_begin s h)) = published s
     \<and> staged (fst (prom_snapshot_add m s h)) = staged s @ [copy_metric m]
     \<and> published (fst (prom_snapshot_add m s h)) = published s
     \<and> published (prom_snapshot_publish s) = staged s \<and> staged (prom_snapshot_publish s) = published s"
  using snap.begn_stg [OF assms(1)] snap.begn_pub [OF assms(1)] snap.add_stg [OF assms(1), of m h] assms(2)
    snap.add_pub [OF assms(1)] snap.publish_pub [OF assms(1)] snap.publish_stg [OF assms(1)] by blast

theorem snapshot_store_refines_witness:
  "staged (fst (prom_snapshot_add demo_metric snap_init [])) = staged snap_init @ [copy_metric demo_metric]"
  using snapshot_store_refines [OF snap_inv_init mem_ok_Nil, of demo_metric] by blast

section \<open>Configuration\<close>

text \<open>C34: Whatever the file holds, the loaded configuration has a positive interval, at most sixteen
  reader names, and every string fits its buffer.\<close>

theorem loaded_config_bounds: "config_ok (snd (config_load file h))"
  by (rule config_load_ok)




section \<open>The endpoint\<close>

text \<open>C36: Exactly the documented forms of an address are understood: a host and a port, a bracketed host and a
  port, and a port alone for every interface. The port is one to fifteen digits after the last colon, the
  host is what precedes it, with one pair of enclosing brackets removed; every other text is refused.\<close>

theorem address_forms:
  "parse_addr addr 256 16 = Some (h, p) \<longleftrightarrow>
     p \<noteq> [] \<and> list_all isdigit p \<and> length p < 16
   \<and> (addr = '':'' @ p \<and> h = []
      \<or> (\<exists>g. addr = g @ '':'' @ p \<and> g \<noteq> [] \<and> length g < 256
           \<and> (g = ''['' @ h @ '']'' \<or> g = h \<and> (\<nexists>x. g = ''['' @ x @ '']''))))"
proof -
  have "g \<noteq> [] \<and> length g < 256 \<and> strip_brackets g = h \<longleftrightarrow>
      g \<noteq> [] \<and> length g < 256 \<and> (g = ''['' @ h @ '']'' \<or> g = h \<and> (\<nexists>x. g = ''['' @ x @ '']''))" for g
    using strip_brackets_iff [of g h] by blast
  then show ?thesis unfolding parse_addr_iff by (simp only:)
qed

theorem address_forms_witness:
  "parse_addr ''::1:9105'' 256 16 = Some (''::1'', ''9105'')
     \<and> parse_addr ''[::1]:9105'' 256 16 = Some (''::1'', ''9105'')
     \<and> parse_addr '':9105'' 256 16 = Some ([], ''9105'')"
  unfolding address_forms by (simp add: isdigit_def append_eq_Cons_conv Cons_eq_append_conv)

text \<open>C37: Starting the endpoint leaks no descriptor: it returns 0 and hands exactly one new listening
  descriptor to the thread, or returns -1 with the same descriptors open as before.\<close>

theorem endpoint_start_leaks_nothing:
  assumes "http_metrics_start env addr tid h created s = (rc, fdo, s')"
  shows "(rc = 0 \<and> (\<exists>fd. fdo = Some fd \<and> 0 \<le> fd \<and> n_open s' = fd # n_open s))
       \<or> (rc = - 1 \<and> fdo = None \<and> n_open s' = n_open s)"
  by (rule http_metrics_start_open [OF assms])

definition bind_env :: net_env where
  \<comment> \<open>two addresses: the first is in use, the second can be bound\<close>
  "bind_env = \<lparr>e_gai = (\<lambda>_ _. Inr [\<lparr>t_fd = 4, t_bind_err = Some ''Address already in use''\<rparr>, \<lparr>t_fd = 5, t_bind_err = None\<rparr>]),
     e_listen_err = None\<rparr>"

theorem endpoint_start_leaks_nothing_witness:
  "n_open (snd (snd (http_metrics_start bind_env (Some '':9105'') True [] True \<lparr>n_open = [], n_err = []\<rparr>))) = [5]"
proof -
  have "parse_addr '':9105'' 256 16 = Some ([], ''9105'')"
    using parse_addr_wildcard [of "''9105''" 16 256] by (simp add: isdigit_def)
  then obtain s' where st: "http_metrics_start bind_env (Some '':9105'') True [] True \<lparr>n_open = [], n_err = []\<rparr> = (0, Some 5, s')"
    by (simp add: http_metrics_start_def make_listener_def bind_env_def)
  from endpoint_start_leaks_nothing [OF st] show ?thesis by (simp add: st)
qed

text \<open>C38: Sending tolerates short writes and interruptions: what goes out is always a prefix of the text,
  code 0 means all of it went out, and without an error all of it does. The loop ends: besides the
  interrupted calls it makes at most one call for each byte.\<close>

theorem send_all_sends_all:
  "(\<exists>rest. b = fst (snd (send_all ss b)) @ rest)
   \<and> fst (send_all ss b) \<in> {0, - 1}
   \<and> (if fst (send_all ss b) = 0 then fst (snd (send_all ss b)) = b else True)
   \<and> (if no_send_error ss then fst (send_all ss b) = 0 else True)
   \<and> (\<exists>used. ss = used @ snd (snd (send_all ss b)) \<and> length used \<le> length b + count_list used SendIntr)"
proof -
  obtain rc out ss' where r: "send_all ss b = (rc, out, ss')" by (metis prod_cases3)
  have "no_send_error ss \<Longrightarrow> rc = 0" using send_all_complete [of ss b] r by auto
  then show ?thesis using send_all_prefix [OF r] send_all_code [OF r] send_all_calls [OF r] by (auto simp: r)
qed

text \<open>C39: Every request with a method and a path gets the response of its route: 405 for another method,
  the page, the liveness text or 404, each with the length of its body.\<close>

theorem request_routing:
  assumes "family_sorter qs" "token 15 m" "token 511 p" "snap_inv snp" "mem_ok h" "no_send_error ss"
    "length (page qs snp) < 10 ^ 20"
  shows "handle_conn qs (Some (m @ '' '' @ p @ '' '' @ rest)) ss snp h = Some (reply m p (page qs snp))"
  by (rule family_sorter.handle_conn_reply [OF assms])

theorem request_routing_witness:
  "handle_conn sort_family (Some (''POST'' @ '' '' @ ''/metrics'' @ '' '' @ ''HTTP/1.1'')) [SendIntr, Sent 7] snap_init []
     = Some (response 405 ''Method Not Allowed'' ''text/plain; charset=utf-8'' (''method not allowed'' @ [NL]))"
proof -
  have "page sort_family snap_init = []"
    by (simp add: page_def published_def snap_init_def entries_def map_filter_simps sort_family_def exposition_def firsts_def)
  then have "handle_conn sort_family (Some (''POST'' @ '' '' @ ''/metrics'' @ '' '' @ ''HTTP/1.1'')) [SendIntr, Sent 7] snap_init []
      = Some (reply ''POST'' ''/metrics'' (page sort_family snap_init))"
    by (intro request_routing [OF sort_family.family_sorter_axioms])
      (simp_all add: token_def isspace_def no_send_error_def)
  then show ?thesis by (simp add: reply_def)
qed

text \<open>C40: The thread never reads outside a buffer, whatever clients send and however sends and
  allocations fail, and when it ends every connection and the listening descriptor are closed.\<close>

theorem thread_safe_and_closed:
  assumes "family_sorter qs" "list_all (ev_ok qs) evs"
  shows "\<exists>outs s'. metrics_thread qs sfd evs s = Some (outs, s') \<and> n_open s' = remove1 sfd (n_open s)"
  using family_sorter.metrics_thread_defined [OF assms, of sfd s] metrics_thread_open [of qs sfd evs s] by auto

theorem thread_safe_and_closed_witness:
  "\<exists>outs s'. metrics_thread sort_family 3 [PollNone, Conn 7 (Some ''GET'') [SendErr] snap_init [False], AcceptErr False ''EMFILE'']
       \<lparr>n_open = [3, 1, 2], n_err = []\<rparr> = Some (outs, s') \<and> n_open s' = remove1 3 [3, 1, 2]"
proof -
  let ?evs = "[PollNone, Conn 7 (Some ''GET'') [SendErr] snap_init [False], AcceptErr False ''EMFILE'']"
  have "prom_render sort_family snap_init h = empty_string h" for h
    by (simp add: prom_render_def snap_init_def)
  then have "list_all (ev_ok sort_family) ?evs"
    by (simp add: ev_ok_def snap_inv_init empty_string_def)
  from thread_safe_and_closed [OF sort_family.family_sorter_axioms this, of 3 "\<lparr>n_open = [3, 1, 2], n_err = []\<rparr>"]
  show ?thesis by (simp del: metrics_thread.simps remove1.simps)
qed

section \<open>Executions of the program\<close>

lemma demo_kernel: "kernel_ok {demo_env} [uptime_reader]"
  by (auto simp: kernel_ok_def demo_uptime)

text \<open>C3: \<open>SIGINT\<close> and \<open>SIGTERM\<close> always end the program: whatever the threads are doing when one arrives,
  every execution from there is finite, it only ends with exit code 0 and the HTTP thread gone, and no
  state before that is a deadlock. \<open>SIGPIPE\<close>, which a client that hangs up causes, changes nothing.\<close>

theorem shutdown_completes:
  assumes "reach qs ops w enabled intv E started ws0 p" "kernel_ok E enabled" "sg = SIGINT \<or> sg = SIGTERM"
  shows "\<exists>run. deliver sg (g_running p) = Some run \<and> deliver SIGPIPE (g_running p) = Some (g_running p)
     \<and> Wellfounded.accp (\<lambda>q p. pstep qs ops w enabled intv E p q) (p\<lparr>g_running := run\<rparr>)
     \<and> (\<forall>q. (pstep qs ops w enabled intv E)\<^sup>*\<^sup>* (p\<lparr>g_running := run\<rparr>) q \<longrightarrow>
          (mpc q = MExit 0 \<and> hpc q \<in> {HOff, HClosed}) \<or> (\<exists>q'. pstep qs ops w enabled intv E q q'))"
proof -
  have d: "deliver sg (g_running p) = Some False" "deliver SIGPIPE (g_running p) = Some (g_running p)"
    using assms(3) by (auto simp: deliver_def dispositions_def on_signal_def)
  let ?p = "p\<lparr>g_running := False\<rparr>"
  have r: "reach qs ops w enabled intv E started ws0 ?p" by (rule signal_step [OF assms(1) d(1)])
  have "Wellfounded.accp (\<lambda>q p. pstep qs ops w enabled intv E p q) ?p"
    using reach_threads [OF r] by (intro stopping_ends) simp_all
  moreover have "(mpc q = MExit 0 \<and> hpc q \<in> {HOff, HClosed}) \<or> (\<exists>q'. pstep qs ops w enabled intv E q q')"
    if "(pstep qs ops w enabled intv E)\<^sup>*\<^sup>* ?p q" for q
  proof -
    have q: "reach qs ops w enabled intv E started ws0 q" by (rule reach_steps [OF that r])
    show ?thesis using reach_progress [OF q assms(2)] reach_stop [OF q] by (auto simp: stop_ok_def)
  qed
  ultimately show ?thesis using d by blast
qed

theorem shutdown_completes_witness:
  "\<exists>run. deliver SIGINT True = Some run \<and> deliver SIGPIPE True = Some True
     \<and> Wellfounded.accp (\<lambda>q p. pstep sort_family demo_ops demo_writer [uptime_reader] 5 {demo_env} p q)
         ((prog_init True (cs_ws demo_cs))\<lparr>g_running := run\<rparr>)"
proof -
  let ?p = "prog_init True (cs_ws demo_cs)"
  have r: "reach sort_family demo_ops demo_writer [uptime_reader] 5 {demo_env} True (cs_ws demo_cs) ?p"
    by (rule reach.start)
  have "g_running ?p" by (simp add: prog_init_def)
  with shutdown_completes [OF r demo_kernel, of SIGINT] show ?thesis by auto
qed









text \<open>C6: The program as a function of its script is one of its executions as interleaved threads: the exit
  code is 0 and there is an execution that ends with the same files and log lines.\<close>

theorem main_is_an_execution:
  assumes "main_prog ops argv wd = Some (rc, fd, naps, ls, s)"
    "cfg = snd (config_load (wd_file wd (if length argv > 1 then argv ! 1 else ''collect.json'')) (wd_cfg_mem wd))"
    "cs_rd (wd_cs wd) = rstate_init" "cs_snap (wd_cs wd) = snap_init"
    "script_ok (nat (interval cfg)) (wd_cycles wd)"
    "\<forall>c \<in> set (wd_cycles wd). \<forall>r \<in> set (fst (cfg_enabled cfg)). cy_env c r \<in> E"
  shows "rc = 0 \<and> (\<exists>ws0 q. write_events ops (cfg_writer cfg) (snd (cfg_enabled cfg)) (cs_ws (wd_cs wd)) = Some ws0
     \<and> reach qs ops (cfg_writer cfg) (fst (cfg_enabled cfg)) (nat (interval cfg)) E (fd \<noteq> None) ws0 q
     \<and> mpc q = MExit rc \<and> pg_ws q = cs_ws s)"
proof -
  obtain s1 where m: "collect_run ops cfg (wd_cycles wd) (wd_cs wd) = Some (naps, s1)"
    "s = s1\<lparr>cs_ws := log_line ''svgd-collect: shutting down'' (cs_ws s1)\<rparr>" "rc = 0"
    using assms(1) unfolding assms(2) by (auto simp: main_prog_def Let_def split: prod.splits option.splits)
  obtain ws0 where w: "write_events ops (cfg_writer cfg) (snd (cfg_enabled cfg)) (cs_ws (wd_cs wd)) = Some ws0"
    using write_events_defined by blast
  have "config_ok cfg" unfolding assms(2) by (rule config_load_ok)
  then have "0 \<le> interval cfg" by (simp add: config_ok_def)
  from collect_run_steps [OF m(1) assms(3,4) this assms(5,6) w, of qs "fd \<noteq> None"] m w show ?thesis by auto
qed

lemmas no_file_reads = cpu_read_def load_read_def uptime_read_def memory_read_def swap_read_def
  interface_read_def disk_read_def df_read_def processes_read_def thermal_read_def tcpconns_read_def
  tcp_scan_def tcp_file_def FILES_def

definition demo_world :: "unit world" where
  \<comment> \<open>no configuration file, no endpoint, one cycle\<close>
  "demo_world =
     \<lparr>wd_file = (\<lambda>_. None), wd_net_env = bind_env, wd_net = \<lparr>n_open = [], n_err = []\<rparr>, wd_created = True,
      wd_cfg_mem = [], wd_http_mem = [], wd_cycles = [\<lparr>cy_env = (\<lambda>_. no_files), cy_running = [False]\<rparr>],
      wd_cs = demo_cs\<rparr>"

lemma demo_main: "\<exists>naps ls s. main_prog demo_ops [] demo_world = Some (0, None, naps, ls, s)"
proof -
  let ?s = "\<lambda>w. \<lparr>cs_ws = w, cs_rd = rstate_init, cs_snap = snap_init, cs_mem = []\<rparr> :: unit cstate"
  have c: "config_load None [] = (- 1, config_default)" by (simp add: config_load_def)
  have en: "cfg_enabled config_default = (map snd REGISTRY, [])"
    by (simp add: cfg_enabled_def config_default_def collect_build_enabled_def REGISTRY_def)
  have "readers_events (\<lambda>_. no_files) (map snd REGISTRY) rstate_init \<noteq> None"
    by (simp add: REGISTRY_def no_files_def no_file_reads)
  then obtain es rd where ev: "readers_events (\<lambda>_. no_files) (map snd REGISTRY) (cs_rd demo_cs) = Some (es, rd)"
    by (auto simp: demo_cs_def)
  have "collect_cycle demo_ops (cfg_writer config_default) (map snd REGISTRY) (\<lambda>_. no_files) demo_cs \<noteq> None"
    by (rule collect_cycle_split [OF ev, of demo_ops "cfg_writer config_default"]) simp
  then obtain naps s where "collect_run demo_ops config_default [\<lparr>cy_env = (\<lambda>_. no_files), cy_running = [False]\<rparr>] demo_cs = Some (naps, s)"
    by (auto simp: collect_run_def en Let_def)
  then show ?thesis
    by (simp add: main_prog_def demo_world_def c start_metrics_def config_default_def [THEN arg_cong, of c_metrics_addr])
qed

theorem main_is_an_execution_witness:
  "\<exists>naps ls s ws0 q. main_prog demo_ops [] demo_world = Some (0, None, naps, ls, s)
     \<and> reach sort_family demo_ops (cfg_writer config_default) (map snd REGISTRY) 5 {no_files} False ws0 q
     \<and> mpc q = MExit 0 \<and> pg_ws q = cs_ws s"
proof -
  obtain naps ls s where m: "main_prog demo_ops [] demo_world = Some (0, None, naps, ls, s)" using demo_main by blast
  have c: "config_load None [] = (- 1, config_default)" by (simp add: config_load_def)
  have en: "cfg_enabled config_default = (map snd REGISTRY, [])" "interval config_default = 5"
    by (simp_all add: cfg_enabled_def config_default_def collect_build_enabled_def REGISTRY_def)
  have d: "cs_rd demo_cs = rstate_init" "cs_snap demo_cs = snap_init" by (simp_all add: demo_cs_def)
  have "\<exists>ws0 q. reach sort_family demo_ops (cfg_writer config_default) (map snd REGISTRY) 5 {no_files} False ws0 q
     \<and> mpc q = MExit 0 \<and> pg_ws q = cs_ws s"
    using main_is_an_execution [OF m refl, of "{no_files}" sort_family] by (auto simp: demo_world_def c en d)
  with m show ?thesis by blast
qed

end
